(* ===== verification/Prelude.thy ===== *)
theory Prelude
  imports Main "HOL-Library.AList" "HOL-Library.Multiset"
begin

text \<open>
  Generic material shared by the components: faults and the result type of code that may
  run into undefined behaviour, the model of \<^verbatim>\<open>std::unordered_map\<close>, comparison sorting
  with a caller-supplied \<^verbatim>\<open>operator<\<close>, and the few operations on C strings that
  several components use. Nothing here is specific to one source file.
\<close>

named_theorems table_simps
named_theorems cstr_simps

section \<open>Faults\<close>

text \<open>
  A step of the C++ code that the language leaves undefined (or that raises) is a value
  of the sum type: \<open>Inl\<close> names the fault, \<open>Inr\<close> carries the result.
\<close>

datatype fault =
    Out_of_bounds        \<comment> \<open>subscript past the end of a vector or buffer\<close>
  | Empty_access         \<comment> \<open>\<^verbatim>\<open>front()\<close>, \<^verbatim>\<open>back()\<close> or \<^verbatim>\<open>erase(end() - 1)\<close> on an empty container\<close>
  | Bad_conversion       \<comment> \<open>a floating point value outside the target integer type\<close>
  | Bad_comparator       \<comment> \<open>a range on which the comparison is not a strict weak order\<close>
  | Division_by_zero     \<comment> \<open>integer division or remainder by zero\<close>
  | Signed_overflow      \<comment> \<open>a signed integer result outside its type\<close>
  | Missing_key          \<comment> \<open>\<^verbatim>\<open>at()\<close> on an absent key\<close>
  | Thrown string        \<comment> \<open>an exception raised by the source\<close>

type_synonym 'a result = "fault + 'a"

fun bind_result :: "'a result \<Rightarrow> ('a \<Rightarrow> 'b result) \<Rightarrow> 'b result" where
  "bind_result (Inl e) f = Inl e"
| "bind_result (Inr x) f = f x"

definition ok :: "'a result \<Rightarrow> bool" where
  "ok r = (case r of Inl _ \<Rightarrow> False | Inr _ \<Rightarrow> True)"

lemma ok_simps [simp]: "ok (Inl e) = False" "ok (Inr x) = True"
  by (simp_all add: ok_def)

lemma ok_iff: "ok r \<longleftrightarrow> (\<exists>x. r = Inr x)"
  by (cases r) auto

lemma bind_result_Inr_iff:
  "bind_result r f = Inr y \<longleftrightarrow> (\<exists>x. r = Inr x \<and> f x = Inr y)"
  by (cases r) auto

lemma bind_result_assoc:
  "bind_result (bind_result r f) g = bind_result r (\<lambda>x. bind_result (f x) g)"
  by (cases r) auto

text \<open>A loop whose body may fault stops at the first fault.\<close>

fun fold_result :: "('a \<Rightarrow> 's \<Rightarrow> 's result) \<Rightarrow> 'a list \<Rightarrow> 's \<Rightarrow> 's result" where
  "fold_result f [] s = Inr s"
| "fold_result f (x # xs) s = bind_result (f x s) (fold_result f xs)"

lemma fold_result_append:
  "fold_result f (xs @ ys) s = bind_result (fold_result f xs s) (fold_result f ys)"
proof (induction xs arbitrary: s)
  case Nil
  then show ?case by simp
next
  case (Cons x xs)
  then show ?case by (cases "f x s") simp_all
qed

lemma fold_result_invariant:
  assumes "fold_result f xs s = Inr t" "P s"
    and "\<And>x u v. x \<in> set xs \<Longrightarrow> P u \<Longrightarrow> f x u = Inr v \<Longrightarrow> P v"
  shows "P t"
  using assms
proof (induction xs arbitrary: s)
  case Nil
  then show ?case by simp
next
  case (Cons x xs)
  from Cons.prems(1) obtain u where u: "f x s = Inr u" "fold_result f xs u = Inr t"
    by (auto simp: bind_result_Inr_iff)
  from Cons.prems u have "P u" by auto
  with u(2) show ?case by (rule Cons.IH) (use Cons.prems(3) in auto)
qed

lemma fold_result_total:
  assumes "P s"
    and "\<And>x u. x \<in> set xs \<Longrightarrow> P u \<Longrightarrow> \<exists>v. f x u = Inr v \<and> P v"
  shows "\<exists>t. fold_result f xs s = Inr t \<and> P t"
  using assms
proof (induction xs arbitrary: s)
  case Nil
  then show ?case by simp
next
  case (Cons x xs)
  from Cons.prems obtain u where u: "f x s = Inr u" "P u" by fastforce
  have "\<exists>t. fold_result f xs u = Inr t \<and> P t"
    using u(2) by (rule Cons.IH) (use Cons.prems(2) in auto)
  with u(1) show ?case by simp
qed

text \<open>Addition on \<^verbatim>\<open>int\<close>, which the language leaves undefined on overflow.\<close>

abbreviation "int_min \<equiv> - (2 ^ 31) :: int"
abbreviation "int_max \<equiv> 2 ^ 31 - 1 :: int"

definition in_int32 :: "int \<Rightarrow> bool" where
  "in_int32 i = (int_min \<le> i \<and> i \<le> int_max)"

definition add_int32 :: "int \<Rightarrow> int \<Rightarrow> int result" where
  "add_int32 a b = (if in_int32 (a + b) then Inr (a + b) else Inl Signed_overflow)"

text \<open>Conversion of an unsigned size to \<^verbatim>\<open>int\<close>, modulo \<open>2\<^sup>3\<^sup>2\<close>.\<close>

definition wrap_int32 :: "int \<Rightarrow> int" where
  "wrap_int32 i = (i + 2 ^ 31) mod 2 ^ 32 - 2 ^ 31"

lemma wrap_int32_id: "in_int32 i \<Longrightarrow> wrap_int32 i = i"
  by (simp add: wrap_int32_def in_int32_def)

text \<open>An element of a vector, by subscript.\<close>

definition vec_at :: "'a list \<Rightarrow> int \<Rightarrow> 'a result" where
  "vec_at xs i = (if 0 \<le> i \<and> i < int (length xs) then Inr (xs ! nat i) else Inl Out_of_bounds)"

lemma vec_at_nat [simp]: "i < length xs \<Longrightarrow> vec_at xs (int i) = Inr (xs ! i)"
  by (simp add: vec_at_def)

lemma vec_at_out: "int (length xs) \<le> i \<Longrightarrow> vec_at xs i = Inl Out_of_bounds"
  by (simp add: vec_at_def)

section \<open>Tables: the contract of unordered_map\<close>

text \<open>
  What the components rely on of a \<^verbatim>\<open>std::unordered_map\<close>: \<open>find\<close> after an assignment
  through \<^verbatim>\<open>operator[]\<close>, and a well-formedness predicate every assignment keeps. The
  lemmas of the block are proved from these laws alone.
\<close>

locale table =
  fixes find :: "'m \<Rightarrow> 'k \<Rightarrow> 'v option"
    and put :: "'k \<Rightarrow> 'v \<Rightarrow> 'm \<Rightarrow> 'm"
    and wf :: "'m \<Rightarrow> bool"
  assumes find_put: "find (put k v m) k' = (if k' = k then Some v else find m k')"
    and wf_put: "wf m \<Longrightarrow> wf (put k v m)"
begin

lemma find_put_same: "find (put k v m) k = Some v"
  by (simp add: find_put)

lemma find_put_other: "k' \<noteq> k \<Longrightarrow> find (put k v m) k' = find m k'"
  by (simp add: find_put)

lemma wf_fold: "wf m \<Longrightarrow> wf (fold (\<lambda>x. put (key x) (val x)) xs m)"
  by (induction xs arbitrary: m) (simp_all add: wf_put)

text \<open>A loop that writes one entry per element: the last write to a key wins.\<close>

lemma find_fold_notin:
  "k \<notin> key ` set xs \<Longrightarrow> find (fold (\<lambda>x. put (key x) (val x)) xs m) k = find m k"
  by (induction xs arbitrary: m) (auto simp: find_put)

lemma find_fold_in:
  assumes "distinct (map key xs)" "x \<in> set xs"
  shows "find (fold (\<lambda>x. put (key x) (val x)) xs m) (key x) = Some (val x)"
  using assms
proof (induction xs arbitrary: m)
  case Nil
  then show ?case by simp
next
  case (Cons y ys)
  show ?case
  proof (cases "x = y")
    case True
    with Cons.prems show ?thesis by (simp add: find_fold_notin find_put_same)
  next
    case False
    with Cons show ?thesis by simp
  qed
qed

end

section \<open>unordered_map as an association list\<close>

text \<open>
  The order of the list is the (unspecified) iteration order of the map; keys are distinct.
  \<open>umap_at d m k\<close> is the value a read through \<^verbatim>\<open>operator[]\<close> sees, with \<open>d\<close> the
  value-initialised element it creates for an absent key; \<open>umap_upd\<close> is a
  read-modify-write through the same reference.
\<close>

type_synonym ('k, 'v) umap = "('k \<times> 'v) list"

definition umap_ok :: "('k, 'v) umap \<Rightarrow> bool" where
  "umap_ok m = distinct (map fst m)"

definition umap_put :: "'k \<Rightarrow> 'v \<Rightarrow> ('k, 'v) umap \<Rightarrow> ('k, 'v) umap" where
  "umap_put k v m = AList.update k v m"

definition umap_at :: "'v \<Rightarrow> ('k, 'v) umap \<Rightarrow> 'k \<Rightarrow> 'v" where
  "umap_at d m k = (case map_of m k of None \<Rightarrow> d | Some v \<Rightarrow> v)"

definition umap_upd :: "'v \<Rightarrow> ('v \<Rightarrow> 'v) \<Rightarrow> 'k \<Rightarrow> ('k, 'v) umap \<Rightarrow> ('k, 'v) umap" where
  "umap_upd d f k m = umap_put k (f (umap_at d m k)) m"

lemma map_of_umap_put [table_simps]: "map_of (umap_put k v m) = (map_of m)(k \<mapsto> v)"
  by (simp add: umap_put_def update_conv')

lemma umap_ok_put [table_simps, intro]: "umap_ok m \<Longrightarrow> umap_ok (umap_put k v m)"
  by (simp add: umap_ok_def umap_put_def distinct_update)

lemma umap_ok_Nil [table_simps]: "umap_ok []"
  by (simp add: umap_ok_def)

lemma map_of_umap_upd [table_simps]:
  "map_of (umap_upd d f k m) = (map_of m)(k \<mapsto> f (umap_at d m k))"
  by (simp add: umap_upd_def table_simps)

lemma umap_ok_upd [table_simps, intro]: "umap_ok m \<Longrightarrow> umap_ok (umap_upd d f k m)"
  by (simp add: umap_upd_def umap_ok_put)

lemma umap_at_put [table_simps]:
  "umap_at d (umap_put k v m) k' = (if k' = k then v else umap_at d m k')"
  by (simp add: umap_at_def table_simps)

lemma umap_at_upd [table_simps]:
  "umap_at d (umap_upd d f k m) k' = (if k' = k then f (umap_at d m k) else umap_at d m k')"
  by (simp add: umap_upd_def umap_at_put)

lemma umap_ok_mem: "umap_ok m \<Longrightarrow> (k, v) \<in> set m \<longleftrightarrow> map_of m k = Some v"
  by (simp add: umap_ok_def)

lemma dom_umap_put: "fst ` set (umap_put k v m) = insert k (fst ` set m)"
  by (simp add: umap_put_def dom_update)

lemma dom_umap_upd: "fst ` set (umap_upd d f k m) = insert k (fst ` set m)"
  by (simp add: umap_upd_def dom_umap_put)

text \<open>
  A loop that updates entries of a table under a condition: the entry of \<open>k\<close> is the fold of
  the updates of \<open>k\<close>, in order, and untouched when there is none.
\<close>

lemma map_of_fold_upd:
  "map_of (fold (\<lambda>x m. if sel x then umap_upd d (f x) (key x) m else m) xs m) k =
     (let ys = filter (\<lambda>x. sel x \<and> key x = k) xs
      in if ys = [] then map_of m k else Some (fold f ys (umap_at d m k)))"
proof (induction xs arbitrary: m)
  case Nil
  then show ?case by simp
next
  case (Cons x xs)
  then show ?case by (auto simp: Let_def table_simps)
qed

lemma umap_ok_fold_upd:
  "umap_ok m \<Longrightarrow> umap_ok (fold (\<lambda>x m. if sel x then umap_upd d (f x) (key x) m else m) xs m)"
  by (induction xs arbitrary: m) (auto simp: table_simps)

interpretation um: table map_of umap_put umap_ok
  by unfold_locales (auto simp: table_simps)

section \<open>Comparison sorting with a caller-supplied operator\<close>

text \<open>
  Insertion of each element from the right past the elements it compares below, the
  reference order of a standard library sort. On a strict weak order this is the stable
  sort; the code of the hash ring passes a comparison that is not strict, so the
  comparison stays a parameter.
\<close>

fun ins_by :: "('a \<Rightarrow> 'a \<Rightarrow> bool) \<Rightarrow> 'a \<Rightarrow> 'a list \<Rightarrow> 'a list" where
  "ins_by lt v [] = [v]"
| "ins_by lt v (y # ys) = (if lt v y then v # y # ys else y # ins_by lt v ys)"

definition sort_by :: "('a \<Rightarrow> 'a \<Rightarrow> bool) \<Rightarrow> 'a list \<Rightarrow> 'a list" where
  "sort_by lt xs = fold (ins_by lt) xs []"

lemma ins_by_front: "(\<And>z. z \<in> set ys \<Longrightarrow> lt v z) \<Longrightarrow> ins_by lt v ys = v # ys"
  by (cases ys) auto

lemma mset_ins_by [simp]: "mset (ins_by lt v xs) = add_mset v (mset xs)"
  by (induction xs) auto

lemma mset_fold_ins_by: "mset (fold (ins_by lt) xs acc) = mset xs + mset acc"
  by (induction xs arbitrary: acc) auto

lemma mset_sort_by [simp]: "mset (sort_by lt xs) = mset xs"
  by (simp add: sort_by_def mset_fold_ins_by)

lemma set_ins_by [simp]: "set (ins_by lt v xs) = insert v (set xs)"
  by (metis mset_ins_by set_mset_add_mset_insert set_mset_mset)

lemma set_sort_by [simp]: "set (sort_by lt xs) = set xs"
  by (rule mset_eq_setD) simp

lemma length_sort_by [simp]: "length (sort_by lt xs) = length xs"
  by (metis mset_sort_by size_mset)

text \<open>
  The comparison agrees with a key into a linear order on the carrier \<open>P\<close>: it holds
  whenever the key is smaller and fails whenever the key is larger. What it does on equal
  keys is left open, which covers both \<^verbatim>\<open><\<close> and \<^verbatim>\<open><=\<close>.
\<close>

locale cmp_key =
  fixes P :: "'a \<Rightarrow> bool" and lt :: "'a \<Rightarrow> 'a \<Rightarrow> bool" and key :: "'a \<Rightarrow> 'b::linorder"
  assumes lt_key: "P a \<Longrightarrow> P b \<Longrightarrow> key a < key b \<Longrightarrow> lt a b"
    and key_lt: "P a \<Longrightarrow> P b \<Longrightarrow> lt a b \<Longrightarrow> key a \<le> key b"
begin

lemma sorted_ins_by:
  "P v \<Longrightarrow> Ball (set xs) P \<Longrightarrow> sorted (map key xs) \<Longrightarrow> sorted (map key (ins_by lt v xs))"
proof (induction xs)
  case Nil
  then show ?case by simp
next
  case (Cons y ys)
  show ?case
  proof (cases "lt v y")
    case True
    with Cons.prems have "key v \<le> key y" by (auto intro: key_lt)
    with Cons.prems True show ?thesis by fastforce
  next
    case False
    with Cons.prems have "\<not> key v < key y" by (auto dest: lt_key)
    with Cons False show ?thesis by auto
  qed
qed

lemma sorted_fold_ins_by:
  "Ball (set xs) P \<Longrightarrow> Ball (set acc) P \<Longrightarrow> sorted (map key acc)
    \<Longrightarrow> sorted (map key (fold (ins_by lt) xs acc))"
  by (induction xs arbitrary: acc) (auto simp: sorted_ins_by)

lemma set_fold_ins_by: "set (fold (ins_by lt) xs acc) = set xs \<union> set acc"
  by (induction xs arbitrary: acc) auto

theorem sorted_sort_by: "Ball (set xs) P \<Longrightarrow> sorted (map key (sort_by lt xs))"
  by (simp add: sort_by_def sorted_fold_ins_by)

text \<open>
  Where the keys are distinct the result does not depend on the algorithm: any sorted
  permutation of the input is the list the model computes.
\<close>

theorem sort_by_unique:
  assumes "Ball (set xs) P" "distinct (map key xs)"
    and "mset ys = mset xs" "sorted (map key ys)"
  shows "ys = sort_by lt xs"
proof -
  have s: "set ys = set xs" using assms(3) by (rule mset_eq_setD)
  have inj: "inj_on key (set xs)" using assms(2) by (simp add: distinct_map)
  have "sort (map key xs) = map key ys"
    by (rule properties_for_sort) (use assms(3,4) in \<open>simp_all add: mset_map\<close>)
  moreover have "sort (map key xs) = map key (sort_by lt xs)"
    by (rule properties_for_sort) (simp_all add: mset_map sorted_sort_by assms(1))
  ultimately have "map key ys = map key (sort_by lt xs)" by simp
  then show ?thesis using inj s by (auto intro: map_inj_on)
qed

end

text \<open>
  A comparison that stays true when its right operand grows; sorting then commutes with
  dropping elements, ties included.
\<close>

locale mono_cmp = cmp_key +
  assumes mono: "P a \<Longrightarrow> P b \<Longrightarrow> P c \<Longrightarrow> lt a b \<Longrightarrow> key b \<le> key c \<Longrightarrow> lt a c"
begin

lemma filter_ins_by:
  assumes "P v" "Ball (set ys) P" "sorted (map key ys)"
  shows "filter Q (ins_by lt v ys) = (if Q v then ins_by lt v (filter Q ys) else filter Q ys)"
  using assms(2,3)
proof (induction ys)
  case Nil
  then show ?case by simp
next
  case (Cons y ys)
  show ?case
  proof (cases "lt v y")
    case True
    have "lt v z" if "z \<in> set ys" for z
      using mono[OF assms(1) _ _ True, of z] Cons.prems that by simp
    then have "ins_by lt v (filter Q (y # ys)) = v # filter Q (y # ys)"
      by (intro ins_by_front) (use True in \<open>auto split: if_splits\<close>)
    with True show ?thesis by simp
  next
    case False
    with Cons show ?thesis by simp
  qed
qed

lemma filter_fold_ins_by:
  "Ball (set xs) P \<Longrightarrow> Ball (set acc) P \<Longrightarrow> sorted (map key acc)
    \<Longrightarrow> filter Q (fold (ins_by lt) xs acc) = fold (ins_by lt) (filter Q xs) (filter Q acc)"
  by (induction xs arbitrary: acc) (simp_all add: filter_ins_by sorted_ins_by)

theorem filter_sort_by: "Ball (set xs) P \<Longrightarrow> filter Q (sort_by lt xs) = sort_by lt (filter Q xs)"
  by (simp add: sort_by_def filter_fold_ins_by)

end

text \<open>The stricter contract of a C++ \<^verbatim>\<open>operator<\<close>: it also fails on equal keys.\<close>

locale strict_cmp = cmp_key +
  assumes strict: "P a \<Longrightarrow> P b \<Longrightarrow> lt a b \<Longrightarrow> key a < key b"
begin

lemma lt_iff: "P a \<Longrightarrow> P b \<Longrightarrow> lt a b \<longleftrightarrow> key a < key b"
  using lt_key strict by blast

end

text \<open>
  \<^verbatim>\<open>std::sort\<close> requires a strict weak order on the range it sorts; without one its
  behaviour is undefined (the scans of introsort are unguarded), which is the fault.
\<close>

definition incomparable :: "('a \<Rightarrow> 'a \<Rightarrow> bool) \<Rightarrow> 'a \<Rightarrow> 'a \<Rightarrow> bool" where
  "incomparable lt a b = (\<not> lt a b \<and> \<not> lt b a)"

definition strict_weak_order :: "('a \<Rightarrow> 'a \<Rightarrow> bool) \<Rightarrow> 'a list \<Rightarrow> bool" where
  "strict_weak_order lt xs =
     ((\<forall>a \<in> set xs. \<not> lt a a) \<and>
      (\<forall>a \<in> set xs. \<forall>b \<in> set xs. \<forall>c \<in> set xs. lt a b \<longrightarrow> lt b c \<longrightarrow> lt a c) \<and>
      (\<forall>a \<in> set xs. \<forall>b \<in> set xs. \<forall>c \<in> set xs.
         incomparable lt a b \<longrightarrow> incomparable lt b c \<longrightarrow> incomparable lt a c))"

definition std_sort :: "('a \<Rightarrow> 'a \<Rightarrow> bool) \<Rightarrow> 'a list \<Rightarrow> 'a list result" where
  "std_sort lt xs = (if strict_weak_order lt xs then Inr (sort_by lt xs) else Inl Bad_comparator)"

lemma std_sort_mset: "std_sort lt xs = Inr ys \<Longrightarrow> mset ys = mset xs"
  by (auto simp: std_sort_def split: if_splits)

lemma std_sort_length: "std_sort lt xs = Inr ys \<Longrightarrow> length ys = length xs"
  by (auto simp: std_sort_def split: if_splits)

context strict_cmp begin

lemma strict_weak_order_on: "Ball (set xs) P \<Longrightarrow> strict_weak_order lt xs"
  by (auto simp: strict_weak_order_def incomparable_def lt_iff)

lemma std_sort_ok: "Ball (set xs) P \<Longrightarrow> std_sort lt xs = Inr (sort_by lt xs)"
  by (simp add: std_sort_def strict_weak_order_on)

lemma std_sort_sorted: "Ball (set xs) P \<Longrightarrow> std_sort lt xs = Inr ys \<Longrightarrow> sorted (map key ys)"
  by (auto simp: std_sort_ok sorted_sort_by)

end

section \<open>C strings\<close>

text \<open>
  \<^verbatim>\<open>c_str()\<close> read as a C string ends at the first NUL; \<^verbatim>\<open>find\<close> of one character gives
  its position, \<open>None\<close> for \<^verbatim>\<open>npos\<close>; \<open>char_at\<close> reads a subscript up to and
  including the terminating NUL.
\<close>

abbreviation NUL :: char where "NUL \<equiv> CHR 0x00"

definition c_str :: "string \<Rightarrow> string" where
  "c_str s = takeWhile (\<lambda>c. c \<noteq> NUL) s"

fun find_char :: "char \<Rightarrow> string \<Rightarrow> nat option" where
  "find_char c [] = None"
| "find_char c (x # xs) = (if x = c then Some 0 else map_option Suc (find_char c xs))"

definition char_at :: "string \<Rightarrow> nat \<Rightarrow> char result" where
  "char_at s i = (if i < length s then Inr (s ! i) else if i = length s then Inr NUL
     else Inl Out_of_bounds)"

fun is_prefix_str :: "string \<Rightarrow> string \<Rightarrow> bool" where
  "is_prefix_str [] s = True"
| "is_prefix_str (x # xs) [] = False"
| "is_prefix_str (x # xs) (y # ys) = (x = y \<and> is_prefix_str xs ys)"

lemma find_char_None [cstr_simps]: "find_char c s = None \<longleftrightarrow> c \<notin> set s"
  by (induction s) auto

lemma find_char_Some:
  "find_char c s = Some i \<longleftrightarrow> i < length s \<and> s ! i = c \<and> (\<forall>j < i. s ! j \<noteq> c)"
proof (induction s arbitrary: i)
  case Nil
  then show ?case by simp
next
  case (Cons x xs)
  then show ?case by (cases i) (auto simp: All_less_Suc2 less_Suc_eq_0_disj)
qed

lemma find_char_append:
  "c \<notin> set n \<Longrightarrow> find_char c (n @ c # r) = Some (length n)"
  by (induction n) auto

lemma find_char_split:
  "find_char c s = Some i \<Longrightarrow> s = take i s @ c # drop (Suc i) s \<and> c \<notin> set (take i s)"
  by (auto simp: find_char_Some id_take_nth_drop in_set_conv_nth)

lemma NUL_notin_c_str [simp]: "NUL \<notin> set (c_str s)"
  by (auto simp: c_str_def dest: set_takeWhileD)

lemma c_str_id [cstr_simps]: "NUL \<notin> set s \<Longrightarrow> c_str s = s"
  unfolding c_str_def by (rule iffD2[OF takeWhile_eq_all_conv]) auto

lemma c_str_idem [simp]: "c_str (c_str s) = c_str s"
  by (rule c_str_id) simp

lemma mset_concat_update:
  "j < length xss \<Longrightarrow> mset (concat (xss[j := xs])) + mset (xss ! j) = mset (concat xss) + mset xs"
proof (induction xss arbitrary: j)
  case (Cons ys xss)
  then show ?case by (cases j) (simp_all add: union_assoc union_commute union_lcomm)
qed simp

end
