(* ===== verification/Binary64.thy ===== *)
theory Binary64
  imports Complex_Main Prelude "HOL-Library.Product_Lexorder"
begin

text \<open>
  The C++ type \<^verbatim>\<open>double\<close> as IEEE 754 binary64 with rounding to nearest, ties to even:
  every arithmetic result is the exact rational result, rounded once. A finite non-zero
  value is its rational number, the two zeros are kept apart, and the payload and sign of a
  NaN are not modelled. All operations compute.
\<close>

section \<open>Rounding a positive rational\<close>

function bit_len :: "int \<Rightarrow> int" where
  "bit_len n = (if n \<le> 0 then 0 else bit_len (n div 2) + 1)"
  by pat_completeness auto
termination
  by (relation "measure nat") auto

declare bit_len.simps [simp del]

lemma bit_len_nonneg: "0 \<le> bit_len n"
proof (induction n rule: bit_len.induct)
  case (1 n)
  then show ?case by (subst bit_len.simps) simp
qed

lemma bit_len_upper: "n < 2 ^ nat (bit_len n)"
proof (induction n rule: bit_len.induct)
  case (1 n)
  show ?case
  proof (cases "n \<le> 0")
    case True
    then show ?thesis by (simp add: bit_len.simps[of n])
  next
    case False
    with 1 have "n div 2 < 2 ^ nat (bit_len (n div 2))" by simp
    then have "n < 2 * 2 ^ nat (bit_len (n div 2))" by linarith
    with False bit_len_nonneg[of "n div 2"] show ?thesis
      by (simp add: bit_len.simps[of n] nat_add_distrib)
  qed
qed

lemma bit_len_lower: "0 < n \<Longrightarrow> 2 ^ nat (bit_len n) \<le> 2 * n"
proof (induction n rule: bit_len.induct)
  case (1 n)
  show ?case
  proof (cases "n div 2 = 0")
    case True
    with 1 have "n = 1" by linarith
    then show ?thesis by (simp add: bit_len.simps)
  next
    case False
    with 1 have "2 ^ nat (bit_len (n div 2)) \<le> 2 * (n div 2)" by simp
    then have "2 * 2 ^ nat (bit_len (n div 2)) \<le> 2 * n" by linarith
    with 1 bit_len_nonneg[of "n div 2"] show ?thesis
      by (simp add: bit_len.simps[of n] nat_add_distrib)
  qed
qed

lemma of_int_less_pow2: "n < 2 ^ a \<Longrightarrow> (of_int n :: rat) < 2 ^ a"
  by (metis of_int_less_iff of_int_numeral of_int_power)

lemma pow2_le_of_int: "2 ^ a \<le> 2 * n \<Longrightarrow> (2::rat) ^ a \<le> 2 * of_int n"
  by (metis of_int_le_iff of_int_mult of_int_numeral of_int_power)

text \<open>\<open>ilog2 q\<close> is the exponent \<open>k\<close> with \<open>2\<^sup>k \<le> q < 2\<^sup>k\<^sup>+\<^sup>1\<close>.\<close>

definition ilog2 :: "rat \<Rightarrow> int" where
  "ilog2 q = (let (n, d) = quotient_of q;
                  k = bit_len n - bit_len d
              in if q < 2 powi k then k - 1 else k)"

lemma ilog2_bounds:
  assumes "0 < q"
  shows "2 powi ilog2 q \<le> q \<and> q < 2 powi (ilog2 q + 1)"
proof -
  obtain n d where nd: "quotient_of q = (n, d)" by (cases "quotient_of q")
  have d: "0 < d" using nd by (rule quotient_of_denom_pos)
  have q: "q = of_int n / of_int d" using nd by (rule quotient_of_div)
  with assms d have n: "0 < n" by (simp add: zero_less_divide_iff)
  define a b where "a = nat (bit_len n)" and "b = nat (bit_len d)"
  have ab: "bit_len n = int a" "bit_len d = int b" by (simp_all add: a_def b_def bit_len_nonneg)
  have nr: "(of_int n :: rat) < 2 ^ a" "(2::rat) ^ a \<le> 2 * of_int n"
    unfolding a_def by (rule of_int_less_pow2, rule bit_len_upper)
      (rule pow2_le_of_int, rule bit_len_lower, rule n)
  have dr: "(of_int d :: rat) < 2 ^ b" "(2::rat) ^ b \<le> 2 * of_int d"
    unfolding b_def by (rule of_int_less_pow2, rule bit_len_upper)
      (rule pow2_le_of_int, rule bit_len_lower, rule d)
  have k: "(2::rat) powi (int a - int b) = 2 ^ a / 2 ^ b"
    by (simp add: power_int_diff)
  have k_succ: "(2::rat) powi (int a - int b + 1) = 2 * (2 ^ a / 2 ^ b)"
    using power_int_add_1[of "2::rat" "int a - int b"] k by simp
  have k_pred: "(2::rat) powi (int a - int b - 1) = 2 ^ a / 2 ^ b / 2"
    using power_int_diff[of "2::rat" "int a - int b" 1] k by simp
  have dpos: "(0::rat) < of_int d" using d by simp
  have up: "q < 2 powi (int a - int b + 1)"
  proof -
    have "(of_int n :: rat) * 2 ^ b < 2 ^ a * 2 ^ b" using nr(1) by simp
    also have "\<dots> \<le> 2 ^ a * (2 * of_int d)" using dr(2) by simp
    finally show ?thesis using dpos unfolding k_succ q by (simp add: field_simps)
  qed
  have low: "2 powi (int a - int b - 1) \<le> q"
  proof -
    have "2 ^ a * of_int d \<le> 2 ^ a * (2::rat) ^ b" using dr(1) by simp
    also have "\<dots> \<le> 2 * of_int n * 2 ^ b" using nr(2) by simp
    finally show ?thesis using dpos unfolding k_pred q by (simp add: field_simps)
  qed
  show ?thesis using up low
    by (auto simp: ilog2_def nd Let_def ab not_less)
qed

lemma ilog2_less: "0 < q \<Longrightarrow> q < 2 powi (k + 1) \<Longrightarrow> ilog2 q \<le> k"
  using ilog2_bounds[of q] power_int_increasing[of "k + 1" "ilog2 q" "2::rat"]
  by (meson add1_zle_eq not_le order.strict_trans1 order_less_le_trans order_less_irrefl one_le_numeral)

lemma ilog2_ge: "2 powi k \<le> q \<Longrightarrow> k \<le> ilog2 q"
proof (rule ccontr)
  assume h: "2 powi k \<le> q" "\<not> k \<le> ilog2 q"
  have "(0::rat) < 2 powi k" by simp
  with h have "0 < q" by linarith
  then have "q < 2 powi (ilog2 q + 1)" using ilog2_bounds by blast
  also have "(2::rat) powi (ilog2 q + 1) \<le> 2 powi k" using h by (intro power_int_increasing) auto
  finally show False using h by simp
qed

definition round_half_even :: "rat \<Rightarrow> int" where
  "round_half_even x =
     (let f = \<lfloor>x\<rfloor>; r = x - of_int f
      in if r < 1 / 2 \<or> (r = 1 / 2 \<and> even f) then f else f + 1)"

lemma round_half_even_of_int [simp]: "round_half_even (of_int k) = k"
  by (simp add: round_half_even_def)

lemma round_half_even_bounds: "\<lfloor>x\<rfloor> \<le> round_half_even x \<and> round_half_even x \<le> \<lfloor>x\<rfloor> + 1"
  by (simp add: round_half_even_def Let_def)

lemma round_half_even_mono: "x \<le> y \<Longrightarrow> round_half_even x \<le> round_half_even y"
proof -
  assume h: "x \<le> y"
  then have "\<lfloor>x\<rfloor> \<le> \<lfloor>y\<rfloor>" by (rule floor_mono)
  then consider "\<lfloor>x\<rfloor> = \<lfloor>y\<rfloor>" | "\<lfloor>x\<rfloor> + 1 \<le> \<lfloor>y\<rfloor>" by linarith
  then show ?thesis
  proof cases
    case 1
    with h show ?thesis by (auto simp: round_half_even_def Let_def)
  next
    case 2
    with round_half_even_bounds[of x] round_half_even_bounds[of y] show ?thesis by linarith
  qed
qed

text \<open>The exponent of the last place: 53 significant bits, or the subnormal spacing.\<close>

definition ulp_exp :: "rat \<Rightarrow> int" where
  "ulp_exp q = max (ilog2 q - 52) (- 1074)"

definition round_mag :: "rat \<Rightarrow> rat" where
  "round_mag q = of_int (round_half_even (q / 2 powi ulp_exp q)) * 2 powi ulp_exp q"

lemma ulp_exp_upper: "0 < q \<Longrightarrow> q < 2 powi (ulp_exp q + 53)"
proof -
  assume h: "0 < q"
  have "q < 2 powi (ilog2 q + 1)" using ilog2_bounds[OF h] by simp
  also have "(2::rat) powi (ilog2 q + 1) \<le> 2 powi (ulp_exp q + 53)"
    by (rule power_int_increasing) (auto simp: ulp_exp_def)
  finally show ?thesis .
qed

lemma ulp_exp_lower: "0 < q \<Longrightarrow> - 1074 < ulp_exp q \<Longrightarrow> 2 powi (ulp_exp q + 52) \<le> q"
  using ilog2_bounds[of q] by (auto simp: ulp_exp_def max_def split: if_splits)

text \<open>Every multiple \<open>m \<cdot> 2\<^sup>e\<close> with at most 53 bits in \<open>m\<close> is kept as it is.\<close>

lemma round_mag_exact:
  assumes "0 < m" "m \<le> 2 ^ 53" "- 1074 \<le> e"
  shows "round_mag (of_int m * 2 powi e) = of_int m * 2 powi e"
proof -
  let ?v = "of_int m * 2 powi e :: rat"
  have pos: "0 < ?v" using assms by simp
  have int: "\<exists>k::int. ?v / 2 powi u = of_int k" if "u \<le> e" for u
  proof -
    have "?v / 2 powi u = of_int m * 2 powi (e - u)" by (simp add: power_int_diff)
    also have "\<dots> = of_int (m * 2 ^ nat (e - u))" using that by (simp add: power_int_def)
    finally show ?thesis by blast
  qed
  have "\<exists>k::int. ?v / 2 powi ulp_exp ?v = of_int k"
  proof (cases "m = 2 ^ 53")
    case False
    with assms have "m < 2 ^ 53" by simp
    then have "(of_int m :: rat) < of_int (2 ^ 53)" by (simp only: of_int_less_iff)
    then have "?v < 2 powi 53 * 2 powi e" by simp
    then have "?v < 2 powi (e + 52 + 1)" by (simp add: power_int_add)
    with pos have "ilog2 ?v \<le> e + 52" by (rule ilog2_less)
    with assms show ?thesis by (intro int) (simp add: ulp_exp_def)
  next
    case True
    then have v: "?v = 2 powi (e + 53)" by (simp add: power_int_add)
    have "ilog2 ?v \<le> e + 53" by (rule ilog2_less) (use pos v in \<open>simp_all add: power_int_add\<close>)
    then have "ulp_exp ?v \<le> e + 1" using assms by (simp add: ulp_exp_def)
    moreover have "?v = of_int (2 ^ 52) * 2 powi (e + 1)" by (simp add: v power_int_add)
    moreover have "\<exists>k::int. of_int (2 ^ 52) * 2 powi (e + 1) / (2::rat) powi u = of_int k"
      if "u \<le> e + 1" for u
    proof -
      have "of_int (2 ^ 52) * 2 powi (e + 1) / (2::rat) powi u = of_int (2 ^ 52) * 2 powi (e + 1 - u)"
        by (simp add: power_int_diff)
      also have "\<dots> = of_int (2 ^ 52 * 2 ^ nat (e + 1 - u))" using that by (simp add: power_int_def)
      finally show ?thesis by blast
    qed
    ultimately show ?thesis by metis
  qed
  then obtain k :: int where k: "?v / 2 powi ulp_exp ?v = of_int k" by blast
  then have "round_mag ?v = of_int k * 2 powi ulp_exp ?v"
    by (simp only: round_mag_def round_half_even_of_int)
  also have "\<dots> = ?v" by (simp flip: k)
  finally show ?thesis .
qed

lemma round_mag_scaled:
  assumes "0 < q"
  obtains m where "round_mag q = of_int m * 2 powi ulp_exp q" "0 \<le> m" "m \<le> 2 ^ 53"
    "- 1074 < ulp_exp q \<Longrightarrow> 2 ^ 52 \<le> m"
proof
  let ?m = "round_half_even (q / 2 powi ulp_exp q)"
  show "round_mag q = of_int ?m * 2 powi ulp_exp q" by (simp add: round_mag_def)
  have "round_half_even (of_int 0) \<le> ?m"
    by (rule round_half_even_mono) (use assms in simp)
  then show "0 \<le> ?m" by (simp only: round_half_even_of_int)
  have "q / 2 powi ulp_exp q \<le> of_int (2 ^ 53)"
    using ulp_exp_upper[OF assms] by (simp add: power_int_add field_simps)
  then have "?m \<le> round_half_even (of_int (2 ^ 53))" by (rule round_half_even_mono)
  then show "?m \<le> 2 ^ 53" by (simp only: round_half_even_of_int)
  show "2 ^ 52 \<le> ?m" if "- 1074 < ulp_exp q"
  proof -
    have "of_int (2 ^ 52) \<le> q / 2 powi ulp_exp q"
      using ulp_exp_lower[OF assms that] by (simp add: power_int_add field_simps)
    then have "round_half_even (of_int (2 ^ 52)) \<le> ?m" by (rule round_half_even_mono)
    then show ?thesis by (simp only: round_half_even_of_int)
  qed
qed

lemma round_mag_nonneg: "0 < q \<Longrightarrow> 0 \<le> round_mag q"
  by (erule round_mag_scaled) simp

lemma round_mag_idem: "0 < q \<Longrightarrow> round_mag q \<noteq> 0 \<Longrightarrow> round_mag (round_mag q) = round_mag q"
proof -
  assume q: "0 < q" and nz: "round_mag q \<noteq> 0"
  from q obtain m where m: "round_mag q = of_int m * 2 powi ulp_exp q" "0 \<le> m" "m \<le> 2 ^ 53"
    by (rule round_mag_scaled)
  from nz m have "0 < m" by (cases "m = 0") auto
  with m show ?thesis by (simp add: round_mag_exact ulp_exp_def)
qed

lemma ulp_exp_mono: "0 < q \<Longrightarrow> q \<le> r \<Longrightarrow> ulp_exp q \<le> ulp_exp r"
proof -
  assume h: "0 < q" "q \<le> r"
  then have "2 powi ilog2 q \<le> r" using ilog2_bounds by fastforce
  then have "ilog2 q \<le> ilog2 r" by (rule ilog2_ge)
  then show ?thesis by (simp add: ulp_exp_def)
qed

text \<open>Rounding is monotone: a larger exact result never gives a smaller double.\<close>

lemma round_mag_mono:
  assumes "0 < q" "q \<le> r"
  shows "round_mag q \<le> round_mag r"
proof (cases "ulp_exp q = ulp_exp r")
  case True
  have "q / 2 powi ulp_exp r \<le> r / 2 powi ulp_exp r"
    using assms by (simp add: divide_right_mono)
  then have "(of_int (round_half_even (q / 2 powi ulp_exp r)) :: rat)
      \<le> of_int (round_half_even (r / 2 powi ulp_exp r))"
    by (simp add: round_half_even_mono)
  then show ?thesis by (simp add: round_mag_def True)
next
  case False
  with assms ulp_exp_mono have lt: "ulp_exp q < ulp_exp r" by fastforce
  obtain m where m: "round_mag q = of_int m * 2 powi ulp_exp q" "0 \<le> m" "m \<le> 2 ^ 53"
    using assms(1) by (rule round_mag_scaled)
  have "- 1074 < ulp_exp r" using lt by (simp add: ulp_exp_def max_def split: if_splits)
  moreover have "0 < r" using assms by linarith
  ultimately obtain k where k: "round_mag r = of_int k * 2 powi ulp_exp r" "2 ^ 52 \<le> k"
    by (metis round_mag_scaled)
  have "(of_int m :: rat) \<le> of_int (2 ^ 53)" using m(3) by (simp only: of_int_le_iff)
  then have "round_mag q \<le> 2 powi 53 * 2 powi ulp_exp q" by (simp add: m(1))
  also have "\<dots> = 2 powi (53 + ulp_exp q)" by (subst power_int_add) auto
  also have "\<dots> \<le> 2 powi (52 + ulp_exp r)" using lt by (intro power_int_increasing) auto
  also have "\<dots> = 2 powi 52 * 2 powi ulp_exp r" by (subst power_int_add) auto
  also have "\<dots> \<le> round_mag r"
  proof -
    have "(of_int (2 ^ 52) :: rat) \<le> of_int k" using k(2) by (simp only: of_int_le_iff)
    then show ?thesis by (simp add: k(1))
  qed
  finally show ?thesis .
qed

section \<open>Values\<close>

datatype double = NaN | PInf | MInf | NegZero | Fin rat

fun is_nan :: "double \<Rightarrow> bool" where
  "is_nan NaN = True"
| "is_nan _ = False"

fun is_inf :: "double \<Rightarrow> bool" where
  "is_inf PInf = True"
| "is_inf MInf = True"
| "is_inf _ = False"

fun dval :: "double \<Rightarrow> rat" where
  "dval (Fin q) = q"
| "dval _ = 0"

fun sign_bit :: "double \<Rightarrow> bool" where
  "sign_bit (Fin q) = (q < 0)"
| "sign_bit NegZero = True"
| "sign_bit MInf = True"
| "sign_bit _ = False"

definition is_zero :: "double \<Rightarrow> bool" where
  "is_zero x = (x = NegZero \<or> x = Fin 0)"

definition is_finite :: "double \<Rightarrow> bool" where
  "is_finite x = (\<not> is_nan x \<and> \<not> is_inf x)"

definition signed_zero :: "bool \<Rightarrow> double" where
  "signed_zero s = (if s then NegZero else Fin 0)"

definition signed_inf :: "bool \<Rightarrow> double" where
  "signed_inf s = (if s then MInf else PInf)"

text \<open>
  The double nearest to an exact rational: overflow gives an infinity, underflow a zero
  with the sign of the exact value.
\<close>

definition fl :: "rat \<Rightarrow> double" where
  "fl q =
     (if q = 0 then Fin 0
      else let s = q < 0; v = round_mag \<bar>q\<bar>
           in if v = 0 then signed_zero s
              else if 1024 \<le> ilog2 v then signed_inf s
              else Fin (if s then - v else v))"

text \<open>The rationals that are doubles, and the type invariant of \<open>double\<close>.\<close>

definition representable :: "rat \<Rightarrow> bool" where
  "representable q = (q = 0 \<or> (round_mag \<bar>q\<bar> = \<bar>q\<bar> \<and> ilog2 \<bar>q\<bar> < 1024))"

definition wf_double :: "double \<Rightarrow> bool" where
  "wf_double x = (case x of Fin q \<Rightarrow> representable q | _ \<Rightarrow> True)"

lemma fl_representable: "representable q \<Longrightarrow> fl q = Fin q"
  by (auto simp: representable_def fl_def Let_def signed_inf_def signed_zero_def)

lemma wf_fl: "wf_double (fl q)"
proof (cases "q = 0")
  case False
  then have "round_mag \<bar>q\<bar> \<noteq> 0 \<Longrightarrow> round_mag (round_mag \<bar>q\<bar>) = round_mag \<bar>q\<bar>"
    by (simp add: round_mag_idem)
  then show ?thesis
    using False round_mag_nonneg[of "\<bar>q\<bar>"]
    by (auto simp: fl_def wf_double_def representable_def Let_def signed_inf_def signed_zero_def)
qed (simp add: fl_def wf_double_def representable_def)

text \<open>All integers up to \<open>2\<^sup>5\<^sup>3\<close> in magnitude are doubles.\<close>

lemma representable_int: "\<bar>i\<bar> \<le> 2 ^ 53 \<Longrightarrow> representable (of_int i)"
proof (cases "i = 0")
  case False
  assume h: "\<bar>i\<bar> \<le> 2 ^ 53"
  with False have "round_mag (of_int \<bar>i\<bar> * 2 powi 0) = of_int \<bar>i\<bar> * 2 powi 0"
    by (intro round_mag_exact) auto
  moreover have "ilog2 (of_int \<bar>i\<bar>) \<le> 53"
  proof (rule ilog2_less)
    show "(0::rat) < of_int \<bar>i\<bar>" using False by simp
    have "\<bar>i\<bar> < 2 ^ 54" using h by simp
    then show "(of_int \<bar>i\<bar> :: rat) < 2 powi (53 + 1)"
      using of_int_less_pow2[of "\<bar>i\<bar>" 54] by simp
  qed
  ultimately show ?thesis by (simp add: representable_def)
qed (simp add: representable_def)

definition d_of_int :: "int \<Rightarrow> double" where
  "d_of_int i = fl (of_int i)"

lemma d_of_int_exact: "\<bar>i\<bar> \<le> 2 ^ 53 \<Longrightarrow> d_of_int i = Fin (of_int i)"
  by (simp add: d_of_int_def fl_representable representable_int)

section \<open>Arithmetic\<close>

definition d_neg :: "double \<Rightarrow> double" where
  "d_neg x = (case x of NaN \<Rightarrow> NaN | PInf \<Rightarrow> MInf | MInf \<Rightarrow> PInf | NegZero \<Rightarrow> Fin 0
     | Fin q \<Rightarrow> if q = 0 then NegZero else Fin (- q))"

definition d_add :: "double \<Rightarrow> double \<Rightarrow> double" where
  "d_add x y =
     (if is_nan x \<or> is_nan y then NaN
      else if is_inf x \<and> is_inf y then (if x = y then x else NaN)
      else if is_inf x then x
      else if is_inf y then y
      else if x = NegZero \<and> y = NegZero then NegZero
      else fl (dval x + dval y))"

definition d_mul :: "double \<Rightarrow> double \<Rightarrow> double" where
  "d_mul x y =
     (let s = sign_bit x \<noteq> sign_bit y in
      if is_nan x \<or> is_nan y then NaN
      else if is_inf x \<and> is_zero y \<or> is_zero x \<and> is_inf y then NaN
      else if is_inf x \<or> is_inf y then signed_inf s
      else if is_zero x \<or> is_zero y then signed_zero s
      else fl (dval x * dval y))"

definition d_div :: "double \<Rightarrow> double \<Rightarrow> double" where
  "d_div x y =
     (let s = sign_bit x \<noteq> sign_bit y in
      if is_nan x \<or> is_nan y then NaN
      else if is_inf x \<and> is_inf y \<or> is_zero x \<and> is_zero y then NaN
      else if is_inf x \<or> is_zero y then signed_inf s
      else if is_zero x \<or> is_inf y then signed_zero s
      else fl (dval x / dval y))"

text \<open>The order of the non-NaN values; \<^verbatim>\<open>-0.0\<close> and \<^verbatim>\<open>0.0\<close> have the same rank.\<close>

definition d_rank :: "double \<Rightarrow> int \<times> rat" where
  "d_rank x = (case x of MInf \<Rightarrow> (- 1, 0) | PInf \<Rightarrow> (1, 0) | _ \<Rightarrow> (0, dval x))"

definition d_lt :: "double \<Rightarrow> double \<Rightarrow> bool" where
  "d_lt x y = (\<not> is_nan x \<and> \<not> is_nan y \<and> d_rank x < d_rank y)"

definition d_le :: "double \<Rightarrow> double \<Rightarrow> bool" where
  "d_le x y = (\<not> is_nan x \<and> \<not> is_nan y \<and> d_rank x \<le> d_rank y)"

text \<open>\<^verbatim>\<open>round()\<close> of the C library (half away from zero) and \<^verbatim>\<open>floor()\<close>.\<close>

definition c_round :: "double \<Rightarrow> double" where
  "c_round x = (case x of
      Fin q \<Rightarrow> let r = (if 0 \<le> q then \<lfloor>q + 1 / 2\<rfloor> else - \<lfloor>- q + 1 / 2\<rfloor>)
              in if r = 0 then signed_zero (q < 0) else Fin (of_int r)
    | _ \<Rightarrow> x)"

definition c_floor :: "double \<Rightarrow> double" where
  "c_floor x = (case x of Fin q \<Rightarrow> Fin (of_int \<lfloor>q\<rfloor>) | _ \<Rightarrow> x)"

text \<open>Conversion to an integer type: truncation, undefined outside the type's range.\<close>

definition truncate :: "rat \<Rightarrow> int" where
  "truncate q = (if 0 \<le> q then \<lfloor>q\<rfloor> else - \<lfloor>- q\<rfloor>)"

definition d_to_int :: "int \<Rightarrow> int \<Rightarrow> double \<Rightarrow> int result" where
  "d_to_int lo hi x =
     (if is_nan x \<or> is_inf x then Inl Bad_conversion
      else let t = truncate (dval x)
           in if lo \<le> t \<and> t \<le> hi then Inr t else Inl Bad_conversion)"

abbreviation d_to_int32 :: "double \<Rightarrow> int result" where
  "d_to_int32 \<equiv> d_to_int int_min int_max"

abbreviation d_to_uint64 :: "double \<Rightarrow> int result" where
  "d_to_uint64 \<equiv> d_to_int 0 (2 ^ 64 - 1)"

section \<open>Lemmas on the arithmetic\<close>

named_theorems double_simps

lemma is_finite_simps [double_simps, simp]:
  "is_finite NaN = False" "is_finite PInf = False" "is_finite MInf = False"
  "is_finite NegZero" "is_finite (Fin q)"
  by (simp_all add: is_finite_def)

lemma not_finite_fl: "\<not> is_nan (fl q)"
  by (simp add: fl_def Let_def signed_inf_def signed_zero_def)

lemma fl_nonneg_le:
  assumes "0 \<le> q" "q \<le> r" "representable r"
  shows "\<exists>v. fl q = Fin v \<and> 0 \<le> v \<and> v \<le> r"
proof (cases "q = 0")
  case True
  with assms show ?thesis by (simp add: fl_def)
next
  case False
  with assms have q: "0 < q" "0 < r" by linarith+
  have r: "round_mag r = r" "ilog2 r < 1024" using assms(3) q by (simp_all add: representable_def)
  have le: "round_mag q \<le> r" using round_mag_mono[OF q(1) assms(2)] r(1) by simp
  have nn: "0 \<le> round_mag q" using q(1) by (rule round_mag_nonneg)
  have "ilog2 (round_mag q) < 1024" if "round_mag q \<noteq> 0"
  proof -
    from that nn have "0 < round_mag q" by simp
    then have "2 powi ilog2 (round_mag q) \<le> r" using ilog2_bounds le by (meson order_trans)
    then have "ilog2 (round_mag q) \<le> ilog2 r" by (rule ilog2_ge)
    with r(2) show ?thesis by simp
  qed
  with q nn le assms show ?thesis
    by (cases "round_mag q = 0") (auto simp: fl_def Let_def signed_zero_def signed_inf_def)
qed

lemma d_add_Fin_int:
  "\<bar>i + j\<bar> \<le> 2 ^ 53 \<Longrightarrow> d_add (Fin (of_int i)) (Fin (of_int j)) = Fin (of_int (i + j))"
  by (simp add: d_add_def fl_representable representable_int flip: of_int_add)

lemma d_add_NaN [double_simps]: "d_add NaN x = NaN" "d_add x NaN = NaN"
  by (simp_all add: d_add_def)

lemma d_mul_NaN [double_simps]: "d_mul NaN x = NaN" "d_mul x NaN = NaN"
  by (simp_all add: d_mul_def)

lemma d_div_NaN [double_simps]: "d_div NaN x = NaN" "d_div x NaN = NaN"
  by (simp_all add: d_div_def)

lemma d_div_zero_zero [double_simps]: "d_div (Fin 0) (Fin 0) = NaN"
  by (simp add: d_div_def is_zero_def)

text \<open>Adding anything to an infinity or a NaN never gives a finite value again.\<close>

lemma d_add_not_finite: "\<not> is_finite x \<Longrightarrow> \<not> is_finite (d_add x y)"
  by (cases x; cases y) (auto simp: d_add_def)

lemma foldl_d_add_not_finite: "\<not> is_finite x \<Longrightarrow> \<not> is_finite (foldl d_add x ys)"
  by (induction ys arbitrary: x) (auto simp: d_add_not_finite)

lemma d_div_one_one: "d_div (Fin 1) (Fin 1) = Fin 1"
  using fl_representable[OF representable_int[of 1]] by (simp add: d_div_def is_zero_def)

lemma d_mul_one_int: "\<bar>i\<bar> \<le> 2 ^ 53 \<Longrightarrow> d_mul (Fin (of_int i)) (Fin 1) = Fin (of_int i)"
  using fl_representable[OF representable_int[of i]]
  by (auto simp: d_mul_def is_zero_def signed_zero_def)

text \<open>
  A quotient of integers in \<open>[0, p]\<close> and a product below an integer bound stay below it
  after rounding: the bound is itself a double and rounding is monotone.
\<close>

lemma d_div_int_bound:
  assumes "0 \<le> w" "0 < t" "w \<le> p * t" "t \<le> 2 ^ 53" "w \<le> 2 ^ 53" "0 \<le> p" "p \<le> 2 ^ 53"
  shows "\<exists>v. d_div (d_of_int w) (d_of_int t) = Fin v \<and> 0 \<le> v \<and> v \<le> of_int p"
proof -
  have wt: "d_of_int w = Fin (of_int w)" "d_of_int t = Fin (of_int t)"
    using assms by (simp_all add: d_of_int_exact)
  show ?thesis
  proof (cases "w = 0")
    case True
    with assms wt show ?thesis by (simp add: d_div_def is_zero_def signed_zero_def)
  next
    case False
    have "(of_int w :: rat) \<le> of_int (p * t)" using assms(3) by (simp only: of_int_le_iff)
    then have "of_int w / of_int t \<le> (of_int p :: rat)" using assms(2) by (simp add: divide_le_eq)
    moreover have "representable (of_int p)" using assms by (simp add: representable_int)
    ultimately have "\<exists>v. fl (of_int w / of_int t) = Fin v \<and> 0 \<le> v \<and> v \<le> of_int p"
      using assms by (intro fl_nonneg_le) simp_all
    with False assms(2) show ?thesis unfolding wt by (simp add: d_div_def is_zero_def)
  qed
qed

lemma d_mul_int_bound:
  assumes "0 \<le> x" "x \<le> of_int p" "0 \<le> k" "k \<le> 2 ^ 53" "p * k \<le> 2 ^ 53" "0 \<le> p"
  shows "\<exists>v. d_mul (Fin x) (d_of_int k) = Fin v \<and> 0 \<le> v \<and> v \<le> of_int (p * k)"
proof -
  have k: "d_of_int k = Fin (of_int k)" using assms by (simp add: d_of_int_exact)
  have pk: "0 \<le> p * k" using assms by simp
  show ?thesis
  proof (cases "x = 0 \<or> k = 0")
    case True
    have "(0::rat) \<le> of_int (p * k)" using pk by (simp only: of_int_0_le_iff)
    with True assms k show ?thesis by (auto simp: d_mul_def is_zero_def signed_zero_def)
  next
    case False
    have "x * of_int k \<le> of_int (p * k)"
      using assms by (simp add: mult_right_mono)
    moreover have "representable (of_int (p * k))"
      using assms pk by (intro representable_int) simp
    ultimately have "\<exists>v. fl (x * of_int k) = Fin v \<and> 0 \<le> v \<and> v \<le> of_int (p * k)"
      using assms by (intro fl_nonneg_le) simp_all
    with False assms show ?thesis unfolding k by (simp add: d_mul_def is_zero_def)
  qed
qed

lemma c_floor_bound:
  "0 \<le> x \<Longrightarrow> x \<le> of_int k \<Longrightarrow> \<exists>i. c_floor (Fin x) = Fin (of_int i) \<and> 0 \<le> i \<and> i \<le> k"
  by (auto simp: c_floor_def floor_le_iff intro!: exI[of _ "\<lfloor>x\<rfloor>"])

lemma c_round_bound:
  assumes "0 \<le> x" "x \<le> of_int k"
  shows "\<exists>i. c_round (Fin x) = Fin (of_int i) \<and> 0 \<le> i \<and> i \<le> k"
proof -
  have "\<lfloor>x + 1 / 2\<rfloor> \<le> \<lfloor>of_int k + 1 / 2 :: rat\<rfloor>" using assms(2) by (intro floor_mono) simp
  moreover have "\<lfloor>of_int k + 1 / 2 :: rat\<rfloor> = k" by linarith
  moreover have "0 \<le> \<lfloor>x + 1 / 2\<rfloor>" using assms(1) by simp
  ultimately show ?thesis using assms(1)
    by (auto simp: c_round_def Let_def signed_zero_def intro!: exI[of _ "\<lfloor>x + 1 / 2\<rfloor>"])
qed

lemma d_to_int_of_int:
  "lo \<le> i \<Longrightarrow> i \<le> hi \<Longrightarrow> d_to_int lo hi (Fin (of_int i)) = Inr i"
  by (auto simp: d_to_int_def truncate_def simp flip: of_int_minus)

text \<open>The type invariant is kept by every operation.\<close>

lemma wf_double_simps [simp]:
  "wf_double NaN" "wf_double PInf" "wf_double MInf" "wf_double NegZero" "wf_double (Fin 0)"
  "wf_double (signed_zero s)" "wf_double (signed_inf s)"
  by (simp_all add: wf_double_def representable_def signed_zero_def signed_inf_def)

lemma wf_d_add: "wf_double x \<Longrightarrow> wf_double y \<Longrightarrow> wf_double (d_add x y)"
  by (simp add: d_add_def wf_fl)

lemma wf_d_mul: "wf_double (d_mul x y)"
  by (simp add: d_mul_def wf_fl Let_def)

lemma wf_d_div: "wf_double (d_div x y)"
  by (simp add: d_div_def wf_fl Let_def)

lemma wf_d_of_int: "wf_double (d_of_int i)"
  by (simp add: d_of_int_def wf_fl)

interpretation dbl: strict_cmp "\<lambda>x. \<not> is_nan x" d_lt d_rank
  by unfold_locales (auto simp: d_lt_def)

lemma sorted_d_rank_nth:
  assumes "sorted (map d_rank ys)" "\<not> is_nan (ys ! i)" "\<not> is_nan (ys ! j)"
    and "i \<le> j" "j < length ys"
  shows "d_le (ys ! i) (ys ! j)"
  using sorted_nth_mono[OF assms(1), of i j] assms by (simp add: d_le_def)

end
