(* ===== verification/Cstdio.thy ===== *)
theory Cstdio
  imports Binary64
begin

text \<open>
  What the source uses of the C and C++ standard libraries for text: the directives of the
  one \<^verbatim>\<open>sscanf\<close> format, \<^verbatim>\<open>std::to_string\<close>, \<^verbatim>\<open>printf\<close>'s \<^verbatim>\<open>%u\<close>, \<^verbatim>\<open>%g\<close> and \<^verbatim>\<open>%Lf\<close>, and
  \<^verbatim>\<open>std::getline\<close>. Characters are bytes.
\<close>

section \<open>Scanning\<close>

text \<open>
  The directive \<^verbatim>\<open>%n[^c]\<close>: the longest non-empty run of at most \<open>n\<close> characters other
  than \<open>c\<close>. A literal character of the format must match exactly.
\<close>

definition scan_until :: "nat \<Rightarrow> char \<Rightarrow> string \<Rightarrow> (string \<times> string) option" where
  "scan_until n c s =
     (let t = takeWhile (\<lambda>x. x \<noteq> c) (take n s)
      in if t = [] then None else Some (t, drop (length t) s))"

fun scan_lit :: "char \<Rightarrow> string \<Rightarrow> string option" where
  "scan_lit c [] = None"
| "scan_lit c (x # xs) = (if x = c then Some xs else None)"

text \<open>
  The directive \<^verbatim>\<open>%lf\<close>: optional white space and sign, then a decimal or hexadecimal
  floating point constant, \<^verbatim>\<open>inf\<close>, \<^verbatim>\<open>infinity\<close> or \<^verbatim>\<open>nan\<close> in any case. As the C standard
  has it, the input item is the longest prefix that could begin such a constant, and an
  item that is no complete constant (\<^verbatim>\<open>1e\<close>, \<^verbatim>\<open>infi\<close>) is a matching failure.
\<close>

definition is_space :: "char \<Rightarrow> bool" where
  "is_space c = (c = CHR '' '' \<or> (let n = of_char c :: nat in 9 \<le> n \<and> n \<le> 13))"

definition lower :: "char \<Rightarrow> char" where
  "lower c = (let n = of_char c :: nat in if 65 \<le> n \<and> n \<le> 90 then char_of (n + 32) else c)"

definition is_letter :: "char \<Rightarrow> bool" where
  "is_letter c = (let n = of_char (lower c) :: nat in 97 \<le> n \<and> n \<le> 122)"

definition digit_value :: "char \<Rightarrow> nat option" where
  "digit_value c =
     (let n = of_char c :: nat
      in if 48 \<le> n \<and> n \<le> 57 then Some (n - 48)
         else if 97 \<le> n \<and> n \<le> 102 then Some (n - 87)
         else if 65 \<le> n \<and> n \<le> 70 then Some (n - 55)
         else None)"

definition is_digit_of :: "nat \<Rightarrow> char \<Rightarrow> bool" where
  "is_digit_of b c = (case digit_value c of None \<Rightarrow> False | Some d \<Rightarrow> d < b)"

definition digits_value :: "nat \<Rightarrow> string \<Rightarrow> int" where
  "digits_value b ds =
     foldl (\<lambda>a c. int b * a + int (case digit_value c of None \<Rightarrow> 0 | Some d \<Rightarrow> d)) 0 ds"

definition scan_sign :: "string \<Rightarrow> bool \<times> string" where
  "scan_sign s = (case s of c # r \<Rightarrow> if c = CHR ''-'' then (True, r)
       else if c = CHR ''+'' then (False, r) else (False, s) | [] \<Rightarrow> (False, []))"

text \<open>The exponent part: absent (0), complete, or begun and incomplete (\<open>None\<close>).\<close>

definition scan_exponent :: "char \<Rightarrow> string \<Rightarrow> int option" where
  "scan_exponent mark s =
     (case s of [] \<Rightarrow> Some 0
      | c # r \<Rightarrow>
         if lower c = mark then
           (let (neg, r') = scan_sign r; ds = takeWhile (is_digit_of 10) r'
            in if ds = [] then None
               else Some (if neg then - digits_value 10 ds else digits_value 10 ds))
         else Some 0)"

definition scan_constant :: "nat \<Rightarrow> char \<Rightarrow> rat \<Rightarrow> string \<Rightarrow> rat option" where
  "scan_constant b mark base s =
     (let ip = takeWhile (is_digit_of b) s; r = dropWhile (is_digit_of b) s;
          (fp, r') = (case r of c # q \<Rightarrow>
             if c = CHR ''.'' then (takeWhile (is_digit_of b) q, dropWhile (is_digit_of b) q)
             else ([], r) | [] \<Rightarrow> ([], []))
      in if ip = [] \<and> fp = [] then None
         else map_option
           (\<lambda>e. of_int (digits_value b (ip @ fp)) / of_nat b ^ length fp * base powi e)
           (scan_exponent mark r'))"

definition common_prefix :: "string \<Rightarrow> string \<Rightarrow> nat" where
  "common_prefix w s = length (takeWhile (\<lambda>(x, y). x = lower y) (zip w s))"

definition scan_lf :: "string \<Rightarrow> double option" where
  "scan_lf s =
     (let (neg, r) = scan_sign (dropWhile is_space s);
          finish = (\<lambda>q. if q = 0 then signed_zero neg else fl (if neg then - q else q))
      in if common_prefix ''i'' r = 1 then
           (if common_prefix ''infinity'' r \<in> {3, 8} then Some (signed_inf neg) else None)
         else if common_prefix ''n'' r = 1 then
           (if common_prefix ''nan'' r = 3 then
              (case drop 3 r of
                 c # q \<Rightarrow> if c \<noteq> CHR ''('' then Some NaN
                   else (case dropWhile (\<lambda>x. is_digit_of 10 x \<or> x = CHR ''_'' \<or> is_letter x) q of
                      d # _ \<Rightarrow> if d = CHR '')'' then Some NaN else None | [] \<Rightarrow> None)
               | [] \<Rightarrow> Some NaN)
            else None)
         else if common_prefix ''0x'' r = 2 then
           map_option finish (scan_constant 16 (CHR ''p'') 2 (drop 2 r))
         else map_option finish (scan_constant 10 (CHR ''e'') 10 r))"

section \<open>Printing\<close>

definition digit_char :: "nat \<Rightarrow> char" where
  "digit_char d = char_of (48 + d)"

text \<open>Decimal digits of a natural number, as \<^verbatim>\<open>%u\<close> and \<^verbatim>\<open>to_string\<close> print them.\<close>

function nat_digits :: "int \<Rightarrow> string" where
  "nat_digits n = (if n < 10 then [digit_char (nat n)]
     else nat_digits (n div 10) @ [digit_char (nat (n mod 10))])"
  by pat_completeness auto
termination
  by (relation "measure nat") auto

declare nat_digits.simps [simp del]

lemma digit_value_digit_char: "d < 10 \<Longrightarrow> digit_value (digit_char d) = Some d"
  by (simp add: digit_value_def digit_char_def)

lemma digit_char_not_dot: "d < 10 \<Longrightarrow> digit_char d \<noteq> CHR ''.''"
proof
  assume "d < 10" "digit_char d = CHR ''.''"
  then have "digit_value CHR ''.'' = Some d" using digit_value_digit_char by metis
  then show False by (simp add: digit_value_def)
qed

text \<open>Reading the digits back gives the number, so two numbers never print alike.\<close>

lemma digits_value_snoc:
  "digits_value b (ds @ [c]) = int b * digits_value b ds + int (case digit_value c of None \<Rightarrow> 0 | Some d \<Rightarrow> d)"
  by (simp add: digits_value_def)

lemma digits_value_nat_digits: "0 \<le> n \<Longrightarrow> digits_value 10 (nat_digits n) = n"
proof (induction n rule: nat_digits.induct)
  case (1 n)
  show ?case
  proof (cases "n < 10")
    case True
    with 1(2) show ?thesis
      by (subst nat_digits.simps) (simp add: digits_value_def digit_value_digit_char)
  next
    case False
    with 1 have "digits_value 10 (nat_digits (n div 10)) = n div 10" by simp
    with False show ?thesis
      by (subst nat_digits.simps) (simp add: digits_value_snoc digit_value_digit_char)
  qed
qed

lemma nat_digits_inj: "nat_digits a = nat_digits b \<Longrightarrow> 0 \<le> a \<Longrightarrow> 0 \<le> b \<Longrightarrow> a = b"
  using digits_value_nat_digits by metis

lemma nat_digits_chars: "0 \<le> n \<Longrightarrow> \<forall>c \<in> set (nat_digits n). \<exists>d < 10. c = digit_char d"
proof (induction n rule: nat_digits.induct)
  case (1 n)
  show ?case
  proof (cases "n < 10")
    case True
    with 1(2) show ?thesis by (subst nat_digits.simps) (auto intro!: exI[of _ "nat n"])
  next
    case False
    with 1 have "\<forall>c \<in> set (nat_digits (n div 10)). \<exists>d < 10. c = digit_char d" by simp
    moreover have "\<exists>d < 10. digit_char (nat (n mod 10)) = digit_char d"
      by (rule exI[of _ "nat (n mod 10)"]) (simp add: nat_less_iff)
    ultimately show ?thesis using False by (subst nat_digits.simps) simp
  qed
qed

definition show_int :: "int \<Rightarrow> string" where
  "show_int i = (if i < 0 then CHR ''-'' # nat_digits (- i) else nat_digits i)"

text \<open>
  \<^verbatim>\<open>std::to_string(long double)\<close>, that is \<^verbatim>\<open>%Lf\<close>: six digits after the point, the exact
  value rounded half to even.
\<close>

definition pad_left :: "nat \<Rightarrow> string \<Rightarrow> string" where
  "pad_left n s = replicate (n - length s) (CHR ''0'') @ s"

definition to_string_ld :: "double \<Rightarrow> string" where
  "to_string_ld x =
     (if is_nan x then ''nan''
      else (if sign_bit x then ''-'' else []) @
        (if is_inf x then ''inf''
         else let n = round_half_even (\<bar>dval x\<bar> * 10 ^ 6)
              in nat_digits (n div 10 ^ 6) @ ''.'' @ pad_left 6 (nat_digits (n mod 10 ^ 6))))"

text \<open>
  \<^verbatim>\<open>%g\<close> of a non-negative integral value: plain digits below \<open>10\<^sup>6\<close>, otherwise six
  significant digits in exponent form without trailing zeros.
\<close>

definition strip_zeros :: "string \<Rightarrow> string" where
  "strip_zeros s = rev (dropWhile (\<lambda>c. c = CHR ''0'') (rev s))"

definition print_g_int :: "int \<Rightarrow> string" where
  "print_g_int n =
     (if n < 10 ^ 6 then nat_digits n
      else let k = length (nat_digits n) - 1;
               m = round_half_even (of_int n / 10 ^ (k - 5));
               (m', k') = (if m = 10 ^ 6 then (10 ^ 5, k + 1) else (m, k));
               ds = nat_digits m'; frac = strip_zeros (tl ds)
           in take 1 ds @ (if frac = [] then [] else ''.'' @ frac) @ ''e+'' @
              pad_left 2 (nat_digits (int k')))"

section \<open>getline\<close>

text \<open>
  The lines \<^verbatim>\<open>while (std::getline(pkt, metric))\<close> sees: the pieces between newlines, without
  an empty last piece.
\<close>

fun split_on :: "char \<Rightarrow> string \<Rightarrow> string list" where
  "split_on c [] = [[]]"
| "split_on c (x # xs) =
     (if x = c then [] # split_on c xs
      else (case split_on c xs of [] \<Rightarrow> [[x]] | y # ys \<Rightarrow> (x # y) # ys))"

definition newline :: char where "newline = CHR 0x0A"

definition getlines :: "string \<Rightarrow> string list" where
  "getlines s = (let ls = split_on newline s in if last ls = [] then butlast ls else ls)"

end
