(* ===== verification/Ledger.thy ===== *)
theory Ledger
  imports Cstdio "HOL-Library.Word"
begin

text \<open>
  The statsd ledger of \<^verbatim>\<open>include/statsdcc/ledger.h\<close> and \<^verbatim>\<open>src/ledger.cc\<close>: \<open>buffer\<close> parses one
  metric line into the tables, \<open>process\<close> computes the aggregates of a flush interval.
  \<^verbatim>\<open>boost::lexical_cast<double>\<close> is the parameter \<open>lexcast\<close> (\<open>None\<close>: it throws); the two clock
  readings of \<open>process\<close> are arguments; log output is left out. Counts that the code keeps
  in 64-bit integers are unbounded here.
\<close>

section \<open>State\<close>

text \<open>\<^verbatim>\<open>enum class MetricType { counter, timer, gauge, set }\<close>\<close>

datatype metric_type = Counter | Timer | Gauge | MSet

record ledger =
  frequency :: "(string, int) umap"
  counters :: "(string, double) umap"
  timers :: "(string, double list) umap"
  timer_counters :: "(string, double) umap"
  gauges :: "(string, double) umap"
  sets :: "(string, string list) umap"
  counter_rates :: "(string, double) umap"
  timer_data :: "(string, (string, double) umap) umap"
  statsd_metrics :: "(string, int) umap"

definition new_ledger :: ledger where
  "new_ledger = \<lparr>frequency = [], counters = [], timers = [], timer_counters = [], gauges = [],
     sets = [], counter_rates = [], timer_data = [], statsd_metrics = []\<rparr>"

text \<open>The copy constructor: its initialiser list leaves \<^verbatim>\<open>frequency\<close> out.\<close>

definition copy_ledger :: "ledger \<Rightarrow> ledger" where
  "copy_ledger l =
     \<lparr>frequency = [], counters = counters l, timers = timers l, timer_counters = timer_counters l,
      gauges = gauges l, sets = sets l, counter_rates = counter_rates l, timer_data = timer_data l,
      statsd_metrics = statsd_metrics l\<rparr>"

section \<open>Parsing a line\<close>

text \<open>
  The buffers after \<^verbatim>\<open>sscanf(line, "%1496[^:]:%1496[^|]|%2[^|]|@%lf", ...)\<close>: the scan stops at
  the first directive that fails and leaves the later buffers as they were initialised.
\<close>

record scanned =
  name_buffer :: string
  metric_value_buffer :: string
  type_buffer :: string
  sample_rate :: double

definition scan_metric :: "string \<Rightarrow> scanned" where
  "scan_metric s =
     (case scan_until 1496 CHR '':'' s of
        None \<Rightarrow> \<lparr>name_buffer = [], metric_value_buffer = [], type_buffer = [], sample_rate = Fin 1\<rparr>
      | Some (n, r1) \<Rightarrow>
     (case Option.bind (scan_lit CHR '':'' r1) (scan_until 1496 CHR ''|'') of
        None \<Rightarrow> \<lparr>name_buffer = n, metric_value_buffer = [], type_buffer = [], sample_rate = Fin 1\<rparr>
      | Some (v, r2) \<Rightarrow>
     (case Option.bind (scan_lit CHR ''|'' r2) (scan_until 2 CHR ''|'') of
        None \<Rightarrow> \<lparr>name_buffer = n, metric_value_buffer = v, type_buffer = [], sample_rate = Fin 1\<rparr>
      | Some (t, r3) \<Rightarrow>
     (case Option.bind (Option.bind (scan_lit CHR ''|'' r3) (scan_lit CHR ''@'')) scan_lf of
        None \<Rightarrow> \<lparr>name_buffer = n, metric_value_buffer = v, type_buffer = t, sample_rate = Fin 1\<rparr>
      | Some d \<Rightarrow> \<lparr>name_buffer = n, metric_value_buffer = v, type_buffer = t, sample_rate = d\<rparr>))))"

definition trim_leading :: "string \<Rightarrow> string" where
  "trim_leading t = dropWhile (\<lambda>c. c = CHR '' '') t"

text \<open>\<^verbatim>\<open>-std::numeric_limits<double>::max()\<close>, the value a set member keeps.\<close>

definition lowest_double :: double where
  "lowest_double = Fin (- ((2 ^ 53 - 1) * 2 ^ 971))"

text \<open>The type and value of a line; \<open>None\<close> is a bad line. The order of the tests is the code's.\<close>

definition classify :: "(string \<Rightarrow> double option) \<Rightarrow> string \<Rightarrow> string \<Rightarrow> (metric_type \<times> double) option" where
  "classify lexcast metric_type_str value =
     (if metric_type_str = [] then None
      else if is_prefix_str ''ms'' metric_type_str then map_option (Pair Timer) (lexcast value)
      else if is_prefix_str ''c'' metric_type_str then map_option (Pair Counter) (lexcast value)
      else if is_prefix_str ''g'' metric_type_str then map_option (Pair Gauge) (lexcast value)
      else if is_prefix_str ''s'' metric_type_str then Some (MSet, lowest_double)
      else map_option (Pair Counter) (lexcast value))"

text \<open>\<^verbatim>\<open>metric_csty[metric.find_first_of(":") + 1]\<close>; \<^verbatim>\<open>npos + 1\<close> is 0.\<close>

definition char_after_colon :: "string \<Rightarrow> char" where
  "char_after_colon metric =
     (metric @ [NUL]) ! (case find_char CHR '':'' metric of None \<Rightarrow> 0 | Some i \<Rightarrow> Suc i)"

record sample =
  sm_name :: string
  sm_type :: metric_type
  sm_value :: double
  sm_rate :: double
  sm_signed :: bool
  sm_text :: string

datatype parsed = Bad | Good sample

definition parse_metric :: "(string \<Rightarrow> double option) \<Rightarrow> string \<Rightarrow> parsed" where
  "parse_metric lexcast metric =
     (let sc = scan_metric (c_str metric) in
      case classify lexcast (trim_leading (type_buffer sc)) (metric_value_buffer sc) of
        None \<Rightarrow> Bad
      | Some (ty, v) \<Rightarrow>
          Good \<lparr>sm_name = name_buffer sc, sm_type = ty, sm_value = v, sm_rate = sample_rate sc,
                sm_signed = (char_after_colon metric = CHR ''+'' \<or> char_after_colon metric = CHR ''-''),
                sm_text = metric_value_buffer sc\<rparr>)"

section \<open>buffer\<close>

abbreviation zero :: double where "zero \<equiv> Fin 0"
abbreviation one :: double where "one \<equiv> Fin 1"

definition bad_lines_key :: "string \<Rightarrow> string" where
  "bad_lines_key name = name @ ''.bad_lines_seen''"

definition insert_member :: "string \<Rightarrow> string list \<Rightarrow> string list" where
  "insert_member v vs = (if v \<in> set vs then vs else vs @ [v])"

definition set_gauge :: "sample \<Rightarrow> double \<Rightarrow> double" where
  "set_gauge s g = (if sm_signed s then d_add g (sm_value s) else sm_value s)"

text \<open>What a parsed line does to the tables; \<open>name\<close> is \<^verbatim>\<open>config->name\<close>.\<close>

definition record_metric :: "string \<Rightarrow> parsed \<Rightarrow> ledger \<Rightarrow> ledger" where
  "record_metric name p l =
     (case p of
        Bad \<Rightarrow> l\<lparr>counters := umap_upd zero (\<lambda>x. d_add x one) (bad_lines_key name) (counters l)\<rparr>
      | Good s \<Rightarrow>
          (let l = l\<lparr>frequency := umap_upd 0 (\<lambda>n. n + 1) (sm_name s) (frequency l)\<rparr> in
           case sm_type s of
             Timer \<Rightarrow>
               l\<lparr>timer_counters := umap_upd zero (\<lambda>x. d_add x (d_div one (sm_rate s)))
                   (sm_name s) (timer_counters l),
                 timers := umap_upd [] (\<lambda>vs. vs @ [sm_value s]) (sm_name s) (timers l)\<rparr>
           | Gauge \<Rightarrow> l\<lparr>gauges := umap_upd zero (set_gauge s) (sm_name s) (gauges l)\<rparr>
           | MSet \<Rightarrow> l\<lparr>sets := umap_upd [] (insert_member (sm_text s)) (sm_name s) (sets l)\<rparr>
           | Counter \<Rightarrow>
               l\<lparr>counters := umap_upd zero (\<lambda>x. d_add x (d_mul (sm_value s) (d_div one (sm_rate s))))
                   (sm_name s) (counters l)\<rparr>))"

definition buffer :: "(string \<Rightarrow> double option) \<Rightarrow> string \<Rightarrow> string \<Rightarrow> ledger \<Rightarrow> ledger" where
  "buffer lexcast name metric l =
     record_metric name (parse_metric lexcast metric)
       (l\<lparr>statsd_metrics := umap_upd 0 (\<lambda>n. n + 1) ''metrics_processed'' (statsd_metrics l)\<rparr>)"

definition buffer_all :: "(string \<Rightarrow> double option) \<Rightarrow> string \<Rightarrow> string list \<Rightarrow> ledger \<Rightarrow> ledger" where
  "buffer_all lexcast name lines l = fold (buffer lexcast name) lines l"

section \<open>process\<close>

text \<open>One percentile of one timer: \<^verbatim>\<open>pct\<close> and its printed form.\<close>

definition pct_value :: "int \<Rightarrow> double result" where
  "pct_value p = (if p < 0 then (if p = int_min then Inl Signed_overflow else Inr (d_of_int (- p)))
     else Inr (d_of_int p))"

definition clean_pct :: "int \<Rightarrow> string" where
  "clean_pct p = map (\<lambda>c. if c = CHR ''.'' then CHR ''_'' else c) (print_g_int \<bar>p\<bar>)"

definition sum_first :: "double list \<Rightarrow> int \<Rightarrow> double result" where
  "sum_first values n =
     fold_result (\<lambda>i acc. bind_result (vec_at values (int i)) (\<lambda>v. Inr (d_add acc v))) [0..<nat n] zero"

definition num_in_threshold :: "double \<Rightarrow> int \<Rightarrow> int result" where
  "num_in_threshold pct cnt =
     d_to_uint64 (c_round (d_mul (d_div pct (d_of_int 100)) (d_of_int cnt)))"

definition put_pct ::
  "double list \<Rightarrow> int \<Rightarrow> int \<Rightarrow> double \<Rightarrow> (string, double) umap \<Rightarrow> (double \<times> (string, double) umap) result"
where
  "put_pct values p num boundary data =
     bind_result (sum_first values num) (\<lambda>pct_sum.
       let pct_mean = d_div pct_sum (d_of_int num); c = clean_pct p in
       Inr (boundary,
         umap_put (''mean_'' @ c) pct_mean
          (umap_put (''sum_'' @ c) pct_sum
           (umap_put (''count_'' @ c) (d_of_int num)
            (umap_put (''upper_'' @ c) boundary data)))))"

definition percentile_step ::
  "double list \<Rightarrow> int \<Rightarrow> int \<Rightarrow> double \<times> (string, double) umap \<Rightarrow> (double \<times> (string, double) umap) result"
where
  "percentile_step values cnt p = (\<lambda>(boundary, data).
     bind_result (pct_value p) (\<lambda>pct.
       if 1 < cnt then
         bind_result (num_in_threshold pct cnt) (\<lambda>num.
           if num = 0 then Inr (boundary, data)
           else bind_result (vec_at values (num - 1)) (\<lambda>b. put_pct values p num b data))
       else put_pct values p 0 boundary data))"

definition sum_values :: "double list \<Rightarrow> double" where
  "sum_values vs = foldl d_add zero vs"

text \<open>The data of one timer; \<open>tc\<close> is \<^verbatim>\<open>timer_counters[key]\<close>.\<close>

definition timer_summary :: "int list \<Rightarrow> string \<Rightarrow> double list \<Rightarrow> double \<Rightarrow> (string, double) umap result" where
  "timer_summary percentiles key vals tc =
     (if key = [] then Inr (umap_put ''count'' zero (umap_put ''count_ps'' zero []))
      else bind_result (std_sort d_lt vals) (\<lambda>values.
        if values = [] then Inl Empty_access
        else (let cnt = wrap_int32 (int (length values)); mn = hd values; mx = last values;
                  mean = d_div (sum_values values) (d_of_int cnt)
              in bind_result (fold_result (percentile_step values cnt) percentiles (mx, []))
                   (\<lambda>(_, data). Inr
                     (umap_put ''mean'' mean (umap_put ''count'' tc
                       (umap_put ''lower'' mn (umap_put ''upper'' mx data))))))))"

text \<open>\<^verbatim>\<open>this->timer_counters[key]\<close> creates the entry of an absent key.\<close>

definition process_timer :: "int list \<Rightarrow> string \<times> double list \<Rightarrow> ledger \<Rightarrow> ledger result" where
  "process_timer percentiles kv l =
     (let key = fst kv;
          l = (if key = [] then l
               else l\<lparr>timer_counters := umap_upd zero (\<lambda>x. x) key (timer_counters l)\<rparr>)
      in bind_result (timer_summary percentiles key (snd kv) (umap_at zero (timer_counters l) key))
           (\<lambda>data. Inr (l\<lparr>timer_data := umap_put key data (timer_data l)\<rparr>)))"

definition process_counters :: "int \<Rightarrow> ledger \<Rightarrow> ledger" where
  "process_counters freq l =
     l\<lparr>counter_rates := fold (\<lambda>kv. umap_put (fst kv) (d_div (snd kv) (d_of_int freq)))
         (counters l) (counter_rates l)\<rparr>"

text \<open>
  \<open>freq\<close> and \<open>percentiles\<close> come from the configuration; \<open>start\<close> and \<open>stop\<close> are the two
  readings of the millisecond clock, whose unsigned difference is stored as a signed one.
\<close>

definition process :: "64 word \<Rightarrow> 64 word \<Rightarrow> int \<Rightarrow> int list \<Rightarrow> ledger \<Rightarrow> ledger result" where
  "process start stop freq percentiles l =
     bind_result (fold_result (process_timer percentiles) (timers l) (process_counters freq l))
       (\<lambda>l. Inr (l\<lparr>statsd_metrics := umap_put ''processing_time'' (sint (stop - start)) (statsd_metrics l)\<rparr>))"

definition bad_lines_seen :: "string \<Rightarrow> ledger \<Rightarrow> int result" where
  "bad_lines_seen name l =
     (case map_of (counters l) (bad_lines_key name) of None \<Rightarrow> Inr 0 | Some x \<Rightarrow> d_to_int32 x)"

end
