(* ===== verification/Ledger_Buffer.thy ===== *)
theory Ledger_Buffer
  imports Ledger
begin

text \<open>
  What \<open>buffer\<close> does: the lines the parser accepts and what it makes of them, the
  invariant of the tables, and the contents of every table as a function of the history of
  lines alone. \<open>new_ledger\<close> is the ledger a worker starts an interval with.
\<close>

section \<open>Scanning\<close>

lemma scan_until_app:
  assumes "t \<noteq> []" "length t \<le> n" "c \<notin> set t" "r = [] \<or> hd r = c \<or> length t = n"
  shows "scan_until n c (t @ r) = Some (t, r)"
proof -
  have "takeWhile (\<lambda>x. x \<noteq> c) (take (n - length t) r) = []"
    using assms by (cases r; cases "n - length t") auto
  moreover have "takeWhile (\<lambda>x. x \<noteq> c) (t @ take (n - length t) r) =
      t @ takeWhile (\<lambda>x. x \<noteq> c) (take (n - length t) r)"
    by (rule takeWhile_append2) (use assms(3) in auto)
  ultimately have "takeWhile (\<lambda>x. x \<noteq> c) (take n (t @ r)) = t" using assms(2) by simp
  with assms show ?thesis by (simp add: scan_until_def)
qed

lemma scan_until_Some:
  assumes "scan_until n c s = Some (t, r)"
  shows "s = t @ r \<and> t \<noteq> [] \<and> length t \<le> n \<and> c \<notin> set t"
proof -
  from assms have t: "t = takeWhile (\<lambda>x. x \<noteq> c) (take n s)" "r = drop (length t) s" "t \<noteq> []"
    by (auto simp: scan_until_def Let_def split: if_splits)
  have le: "length t \<le> length (take n s)" unfolding t(1) by (rule length_takeWhile_le)
  have "take (length t) (take n s) = t"
    using takeWhile_eq_take[of "\<lambda>x. x \<noteq> c" "take n s"] by (simp only: t(1)[symmetric])
  moreover have "take (length t) (take n s) = take (length t) s" using le by (simp add: min_absorb1)
  ultimately have "take (length t) s = t" by simp
  then have "s = t @ r" by (metis append_take_drop_id t(2))
  moreover have "c \<notin> set t" unfolding t(1) by (auto dest: set_takeWhileD)
  ultimately show ?thesis using t(3) le by simp
qed

lemma scan_lit_Some: "scan_lit c s = Some r \<longleftrightarrow> s = c # r"
  by (cases s) auto

text \<open>A line whose type was scanned begins with its name and a colon.\<close>

lemma scan_metric_name:
  assumes "type_buffer (scan_metric s) \<noteq> []"
  shows "\<exists>r. s = name_buffer (scan_metric s) @ CHR '':'' # r \<and> name_buffer (scan_metric s) \<noteq> []
    \<and> length (name_buffer (scan_metric s)) \<le> 1496 \<and> CHR '':'' \<notin> set (name_buffer (scan_metric s))"
proof -
  from assms obtain n r1 where n: "scan_until 1496 CHR '':'' s = Some (n, r1)"
    by (auto simp: scan_metric_def split: option.splits)
  with assms obtain r2 where r2: "scan_lit CHR '':'' r1 = Some r2"
    by (auto simp: scan_metric_def split: option.splits Option.bind_splits)
  have "name_buffer (scan_metric s) = n"
    using n by (auto simp: scan_metric_def split: option.splits)
  with scan_until_Some[OF n] r2 show ?thesis by (auto simp: scan_lit_Some)
qed

lemma parse_Good:
  assumes "parse_metric lexcast metric = Good s"
  shows "sm_name s \<noteq> [] \<and> length (sm_name s) \<le> 1496 \<and> CHR '':'' \<notin> set (sm_name s)
    \<and> (\<exists>r. c_str metric = sm_name s @ CHR '':'' # r)"
proof -
  let ?sc = "scan_metric (c_str metric)"
  from assms have n: "sm_name s = name_buffer ?sc"
    and t: "trim_leading (type_buffer ?sc) \<noteq> []"
    by (auto simp: parse_metric_def classify_def Let_def split: option.splits if_splits)
  from t have "type_buffer ?sc \<noteq> []" by (auto simp: trim_leading_def)
  then show ?thesis unfolding n by (rule scan_metric_name[THEN exE]) auto
qed

section \<open>The invariant of the tables\<close>

definition tables_ok :: "ledger \<Rightarrow> bool" where
  "tables_ok l =
     (umap_ok (frequency l) \<and> umap_ok (counters l) \<and> umap_ok (timers l) \<and> umap_ok (timer_counters l)
      \<and> umap_ok (gauges l) \<and> umap_ok (sets l) \<and> umap_ok (counter_rates l) \<and> umap_ok (timer_data l)
      \<and> umap_ok (statsd_metrics l))"

text \<open>
  Every timer has a name and at least one value, exactly the timers have a count, and the
  members of a set are distinct.
\<close>

definition timer_entry_ok :: "string \<Rightarrow> double list option \<Rightarrow> double option \<Rightarrow> bool" where
  "timer_entry_ok k vo co = (case vo of None \<Rightarrow> co = None | Some vs \<Rightarrow> k \<noteq> [] \<and> vs \<noteq> [] \<and> co \<noteq> None)"

definition set_entry_ok :: "string list option \<Rightarrow> bool" where
  "set_entry_ok vo = (case vo of None \<Rightarrow> True | Some vs \<Rightarrow> vs \<noteq> [] \<and> distinct vs)"

definition timers_ok :: "ledger \<Rightarrow> bool" where
  "timers_ok l = (\<forall>k. timer_entry_ok k (map_of (timers l) k) (map_of (timer_counters l) k))"

definition sets_ok :: "ledger \<Rightarrow> bool" where
  "sets_ok l = (\<forall>k. set_entry_ok (map_of (sets l) k))"

definition ledger_ok :: "ledger \<Rightarrow> bool" where
  "ledger_ok l = (tables_ok l \<and> timers_ok l \<and> sets_ok l)"

lemma new_ledger_tables [simp]:
  "counters new_ledger = []" "timers new_ledger = []" "timer_counters new_ledger = []"
  "gauges new_ledger = []" "sets new_ledger = []" "frequency new_ledger = []"
  "counter_rates new_ledger = []" "timer_data new_ledger = []" "statsd_metrics new_ledger = []"
  by (simp_all add: new_ledger_def)

lemma ledger_ok_new: "ledger_ok new_ledger"
  by (simp add: ledger_ok_def tables_ok_def timers_ok_def sets_ok_def new_ledger_def table_simps
      timer_entry_ok_def set_entry_ok_def)

lemma tables_ok_record: "tables_ok l \<Longrightarrow> tables_ok (record_metric name p l)"
  by (auto simp: tables_ok_def record_metric_def Let_def umap_ok_upd split: parsed.split metric_type.split)

lemma timers_ok_record:
  assumes "timers_ok l" "\<And>s. p = Good s \<Longrightarrow> sm_name s \<noteq> []"
  shows "timers_ok (record_metric name p l)"
proof (cases "\<exists>s. p = Good s \<and> sm_type s = Timer")
  case True
  then obtain s where s: "p = Good s" "sm_type s = Timer" by blast
  with assms(2) have "sm_name s \<noteq> []" by simp
  with assms(1) s show ?thesis
    by (simp add: timers_ok_def record_metric_def Let_def map_of_umap_upd timer_entry_ok_def[of _ "Some _" "Some _"])
next
  case False
  then have "timers (record_metric name p l) = timers l"
    "timer_counters (record_metric name p l) = timer_counters l"
    by (auto simp: record_metric_def Let_def split: parsed.split metric_type.split)
  with assms(1) show ?thesis by (simp add: timers_ok_def)
qed

lemma sets_ok_record:
  assumes "sets_ok l"
  shows "sets_ok (record_metric name p l)"
proof (cases "\<exists>s. p = Good s \<and> sm_type s = MSet")
  case True
  then obtain s where s: "p = Good s" "sm_type s = MSet" by blast
  have "set_entry_ok (map_of (sets l) (sm_name s))" using assms by (simp add: sets_ok_def)
  then have "set_entry_ok (Some (insert_member (sm_text s) (umap_at [] (sets l) (sm_name s))))"
    by (auto simp: set_entry_ok_def umap_at_def insert_member_def split: option.splits)
  with assms s show ?thesis
    by (simp add: sets_ok_def record_metric_def Let_def map_of_umap_upd)
next
  case False
  then have "sets (record_metric name p l) = sets l"
    by (auto simp: record_metric_def Let_def split: parsed.split metric_type.split)
  with assms show ?thesis by (simp add: sets_ok_def)
qed

lemma ledger_ok_record:
  "ledger_ok l \<Longrightarrow> (\<And>s. p = Good s \<Longrightarrow> sm_name s \<noteq> []) \<Longrightarrow> ledger_ok (record_metric name p l)"
  by (simp add: ledger_ok_def tables_ok_record timers_ok_record sets_ok_record)

lemma ledger_ok_buffer: "ledger_ok l \<Longrightarrow> ledger_ok (buffer lexcast name metric l)"
  unfolding buffer_def by (rule ledger_ok_record)
    (simp_all add: ledger_ok_def tables_ok_def timers_ok_def sets_ok_def umap_ok_upd parse_Good cong: option.case_cong)

lemma buffer_all_Nil [simp]: "buffer_all lexcast name [] l = l"
  by (simp add: buffer_all_def)

lemma buffer_all_snoc [simp]:
  "buffer_all lexcast name (lines @ [m]) l = buffer lexcast name m (buffer_all lexcast name lines l)"
  by (simp add: buffer_all_def)

lemma ledger_ok_buffer_all: "ledger_ok l \<Longrightarrow> ledger_ok (buffer_all lexcast name lines l)"
  by (induction lines rule: rev_induct) (simp_all add: ledger_ok_buffer)

section \<open>The tables as functions of the history\<close>

text \<open>
  A table whose entry of \<open>n\<close> each line extends by the terms it contributes: after a history
  the entry is the fold of all terms, and there is none when no line contributed.
\<close>

definition entry :: "'a list \<Rightarrow> 'b \<Rightarrow> 'b option" where
  "entry xs v = (if xs = [] then None else Some v)"

definition contribs :: "(parsed \<Rightarrow> 'a list) \<Rightarrow> (string \<Rightarrow> double option) \<Rightarrow> string list \<Rightarrow> 'a list" where
  "contribs contrib lexcast lines = concat (map (contrib \<circ> parse_metric lexcast) lines)"

lemma contribs_Nil [simp]: "contribs contrib lexcast [] = []"
  by (simp add: contribs_def)

lemma contribs_append [simp]:
  "contribs contrib lexcast (xs @ ys) = contribs contrib lexcast xs @ contribs contrib lexcast ys"
  by (simp add: contribs_def)

lemma contribs_Cons [simp]:
  "contribs contrib lexcast (x # xs) = contrib (parse_metric lexcast x) @ contribs contrib lexcast xs"
  by (simp add: contribs_def)

lemma history_table:
  assumes "tab new_ledger = []"
    and "\<And>m l. map_of (tab (buffer lexcast name m l)) n =
      (let ts = contrib (parse_metric lexcast m)
       in if ts = [] then map_of (tab l) n else Some (foldl f (umap_at d (tab l) n) ts))"
  shows "map_of (tab (buffer_all lexcast name lines new_ledger)) n =
    (let ts = contribs contrib lexcast lines in entry ts (foldl f d ts))"
proof (induction lines rule: rev_induct)
  case Nil
  then show ?case by (simp add: assms(1) entry_def contribs_def)
next
  case (snoc m lines)
  then show ?case
    by (simp add: assms(2) entry_def umap_at_def Let_def)
qed

text \<open>The samples of \<open>n\<close> of one type, and the terms added to the counter of \<open>n\<close>.\<close>

definition sample_of :: "metric_type \<Rightarrow> string \<Rightarrow> parsed \<Rightarrow> sample list" where
  "sample_of ty n p = (case p of Bad \<Rightarrow> []
     | Good s \<Rightarrow> if sm_type s = ty \<and> sm_name s = n then [s] else [])"

definition counter_term :: "string \<Rightarrow> string \<Rightarrow> parsed \<Rightarrow> double list" where
  "counter_term name n p = (case p of
       Bad \<Rightarrow> if n = bad_lines_key name then [one] else []
     | Good s \<Rightarrow> if sm_type s = Counter \<and> sm_name s = n
         then [d_mul (sm_value s) (d_div one (sm_rate s))] else [])"

definition samples :: "(string \<Rightarrow> double option) \<Rightarrow> metric_type \<Rightarrow> string \<Rightarrow> string list \<Rightarrow> sample list" where
  "samples lexcast ty n lines = contribs (sample_of ty n) lexcast lines"

definition counter_terms :: "(string \<Rightarrow> double option) \<Rightarrow> string \<Rightarrow> string \<Rightarrow> string list \<Rightarrow> double list" where
  "counter_terms lexcast name n lines = contribs (counter_term name n) lexcast lines"

named_theorems step_simps

lemmas [step_simps] = buffer_def record_metric_def map_of_umap_upd Let_def

lemma step_counters:
  "map_of (counters (buffer lexcast name m l)) n =
     (let ts = counter_term name n (parse_metric lexcast m)
      in if ts = [] then map_of (counters l) n else Some (foldl d_add (umap_at zero (counters l) n) ts))"
  by (simp add: step_simps counter_term_def split: parsed.split metric_type.split)

lemma step_timers:
  "map_of (timers (buffer lexcast name m l)) n =
     (let ss = sample_of Timer n (parse_metric lexcast m)
      in if ss = [] then map_of (timers l) n
         else Some (foldl (\<lambda>vs s. vs @ [sm_value s]) (umap_at [] (timers l) n) ss))"
  by (simp add: step_simps sample_of_def split: parsed.split metric_type.split)

lemma step_timer_counters:
  "map_of (timer_counters (buffer lexcast name m l)) n =
     (let ss = sample_of Timer n (parse_metric lexcast m)
      in if ss = [] then map_of (timer_counters l) n
         else Some (foldl (\<lambda>x s. d_add x (d_div one (sm_rate s))) (umap_at zero (timer_counters l) n) ss))"
  by (simp add: step_simps sample_of_def split: parsed.split metric_type.split)

lemma step_gauges:
  "map_of (gauges (buffer lexcast name m l)) n =
     (let ss = sample_of Gauge n (parse_metric lexcast m)
      in if ss = [] then map_of (gauges l) n
         else Some (foldl (\<lambda>g s. set_gauge s g) (umap_at zero (gauges l) n) ss))"
  by (simp add: step_simps sample_of_def split: parsed.split metric_type.split)

lemma step_sets:
  "map_of (sets (buffer lexcast name m l)) n =
     (let ss = sample_of MSet n (parse_metric lexcast m)
      in if ss = [] then map_of (sets l) n
         else Some (foldl (\<lambda>vs s. insert_member (sm_text s) vs) (umap_at [] (sets l) n) ss))"
  by (simp add: step_simps sample_of_def split: parsed.split metric_type.split)

lemma foldl_append_map: "foldl (\<lambda>vs s. vs @ [f s]) acc ss = acc @ map f ss"
  by (induction ss arbitrary: acc) auto

lemma foldl_insert_member:
  "set (foldl (\<lambda>vs s. insert_member (f s) vs) acc ss) = set acc \<union> f ` set ss"
  by (induction ss arbitrary: acc) (auto simp: insert_member_def)

lemma foldl_map_arg: "foldl g acc (map f ss) = foldl (\<lambda>x s. g x (f s)) acc ss"
  by (induction ss arbitrary: acc) auto

lemmas history_counters =
  history_table[of counters, OF new_ledger_tables(1) step_counters, folded counter_terms_def]
lemmas history_timers =
  history_table[of timers, OF new_ledger_tables(2) step_timers, folded samples_def, unfolded foldl_append_map append_Nil]
lemmas history_timer_counters =
  history_table[of timer_counters, OF new_ledger_tables(3) step_timer_counters, folded samples_def foldl_map_arg]
lemmas history_gauges =
  history_table[of gauges, OF new_ledger_tables(4) step_gauges, folded samples_def]
lemmas history_sets =
  history_table[of sets, OF new_ledger_tables(5) step_sets, folded samples_def]

section \<open>Well-formed lines\<close>

text \<open>A token of the wire format: non-empty, at most 1496 bytes, without its delimiter or NUL.\<close>

definition token :: "char \<Rightarrow> string \<Rightarrow> bool" where
  "token c t = (t \<noteq> [] \<and> length t \<le> 1496 \<and> c \<notin> set t \<and> NUL \<notin> set t)"

definition metric_line :: "string \<Rightarrow> string \<Rightarrow> string \<Rightarrow> string" where
  "metric_line n v rest = n @ CHR '':'' # v @ CHR ''|'' # rest"

lemma scan_metric_line:
  assumes "token CHR '':'' n" "token CHR ''|'' v"
  shows "scan_metric (metric_line n v rest) =
    (case scan_until 2 CHR ''|'' rest of
       None \<Rightarrow> \<lparr>name_buffer = n, metric_value_buffer = v, type_buffer = [], sample_rate = Fin 1\<rparr>
     | Some (t, r3) \<Rightarrow> \<lparr>name_buffer = n, metric_value_buffer = v, type_buffer = t,
         sample_rate = (case Option.bind (Option.bind (scan_lit CHR ''|'' r3) (scan_lit CHR ''@'')) scan_lf of
            None \<Rightarrow> Fin 1 | Some d \<Rightarrow> d)\<rparr>)"
proof -
  have "scan_until 1496 CHR '':'' (metric_line n v rest) = Some (n, CHR '':'' # v @ CHR ''|'' # rest)"
    unfolding metric_line_def by (rule scan_until_app) (use assms(1) in \<open>auto simp: token_def\<close>)
  moreover have "scan_until 1496 CHR ''|'' (v @ CHR ''|'' # rest) = Some (v, CHR ''|'' # rest)"
    by (rule scan_until_app) (use assms(2) in \<open>auto simp: token_def\<close>)
  ultimately show ?thesis
    by (simp add: scan_metric_def split: option.split)
qed

lemma c_str_metric_line:
  assumes "token CHR '':'' n" "token CHR ''|'' v" "NUL \<notin> set rest"
  shows "c_str (metric_line n v rest) = metric_line n v rest"
  by (rule c_str_id) (use assms in \<open>auto simp: metric_line_def token_def\<close>)

lemma char_after_colon_line:
  assumes "token CHR '':'' n" "token CHR ''|'' v"
  shows "char_after_colon (metric_line n v rest) = hd v"
proof -
  from assms(2) obtain c v' where "v = c # v'" by (cases v) (auto simp: token_def)
  moreover from assms(1) have "CHR '':'' \<notin> set n" by (simp add: token_def)
  ultimately show ?thesis
    by (simp add: char_after_colon_def metric_line_def find_char_append nth_append)
qed

lemma parse_line:
  assumes "token CHR '':'' n" "token CHR ''|'' v" "NUL \<notin> set rest"
    and "scan_until 2 CHR ''|'' rest = Some (t, r3)"
  shows "parse_metric lexcast (metric_line n v rest) =
    (case classify lexcast (trim_leading t) v of None \<Rightarrow> Bad
     | Some (ty, x) \<Rightarrow> Good \<lparr>sm_name = n, sm_type = ty, sm_value = x,
         sm_rate = (case Option.bind (Option.bind (scan_lit CHR ''|'' r3) (scan_lit CHR ''@'')) scan_lf of
            None \<Rightarrow> Fin 1 | Some d \<Rightarrow> d),
         sm_signed = (hd v \<in> {CHR ''+'', CHR ''-''}), sm_text = v\<rparr>)"
  using assms(4)
  by (cases "classify lexcast (trim_leading t) v")
    (auto simp: parse_metric_def Let_def c_str_metric_line[OF assms(1-3)] scan_metric_line[OF assms(1,2)]
      char_after_colon_line[OF assms(1,2)])

text \<open>The four type tags of the documentation.\<close>

fun type_tag :: "metric_type \<Rightarrow> string" where
  "type_tag Counter = ''c''"
| "type_tag Timer = ''ms''"
| "type_tag Gauge = ''g''"
| "type_tag MSet = ''s''"

definition tag_value :: "(string \<Rightarrow> double option) \<Rightarrow> metric_type \<Rightarrow> string \<Rightarrow> double option" where
  "tag_value lexcast ty v = (if ty = MSet then Some lowest_double else lexcast v)"

lemma classify_tag:
  "classify lexcast (trim_leading (type_tag ty)) v = map_option (Pair ty) (tag_value lexcast ty v)"
  by (cases ty) (simp_all add: classify_def trim_leading_def tag_value_def)

lemma scan_tag:
  assumes "rest = [] \<or> hd rest = CHR ''|''"
  shows "scan_until 2 CHR ''|'' (type_tag ty @ rest) = Some (type_tag ty, rest)"
  by (rule scan_until_app) (use assms in \<open>cases ty; auto\<close>)+

section \<open>Properties\<close>

text \<open>
  C28. Every ledger a worker can reach by buffering lines is well formed: all tables have one
  entry per key, exactly the timers have a sample count, no timer is empty or unnamed, no set
  is empty or holds a member twice.
\<close>

theorem buffer_keeps_invariant: "ledger_ok (buffer_all lexcast name lines new_ledger)"
  by (simp add: ledger_ok_buffer_all ledger_ok_new)

text \<open>
  A line made of a name, a value and one of the four type tags, without a sample rate, is
  accepted exactly when its value is (the value of a set is never parsed), with all its
  fields and rate 1; the sign is that of the value text.
\<close>

theorem well_formed_line_parsed:
  assumes "token CHR '':'' n" "token CHR ''|'' v"
  shows "parse_metric lexcast (metric_line n v (type_tag ty)) =
    (case tag_value lexcast ty v of None \<Rightarrow> Bad
     | Some x \<Rightarrow> Good \<lparr>sm_name = n, sm_type = ty, sm_value = x, sm_rate = Fin 1,
         sm_signed = (hd v \<in> {CHR ''+'', CHR ''-''}), sm_text = v\<rparr>)"
proof -
  have "NUL \<notin> set (type_tag ty)" by (cases ty) simp_all
  then show ?thesis
    using parse_line[OF assms, of "type_tag ty" "type_tag ty" "[]"] scan_tag[of "[]" ty]
    by (cases "tag_value lexcast ty v") (simp_all add: classify_tag)
qed

theorem well_formed_line_parsed_witness:
  "parse_metric (\<lambda>v. if v = ''-5'' then Some (Fin (- 5)) else None)
     (metric_line ''a.b'' ''-5'' (type_tag Gauge)) =
   Good \<lparr>sm_name = ''a.b'', sm_type = Gauge, sm_value = Fin (- 5), sm_rate = Fin 1,
     sm_signed = True, sm_text = ''-5''\<rparr>"
  using well_formed_line_parsed[of "''a.b''" "''-5''" "\<lambda>v. if v = ''-5'' then Some (Fin (- 5)) else None" Gauge]
  by (simp add: token_def tag_value_def)

text \<open>
  With \<open>|@r\<close> after the tag, the sample rate is the number \<open>r\<close> begins with; a rate that
  does not scan leaves the rate at 1.
\<close>

theorem sample_rate_parsed:
  assumes "token CHR '':'' n" "token CHR ''|'' v" "NUL \<notin> set r"
  shows "parse_metric lexcast (metric_line n v (type_tag ty @ ''|@'' @ r)) =
    (case tag_value lexcast ty v of None \<Rightarrow> Bad
     | Some x \<Rightarrow> Good \<lparr>sm_name = n, sm_type = ty, sm_value = x,
         sm_rate = (case scan_lf r of None \<Rightarrow> Fin 1 | Some d \<Rightarrow> d),
         sm_signed = (hd v \<in> {CHR ''+'', CHR ''-''}), sm_text = v\<rparr>)"
proof -
  have "NUL \<notin> set (type_tag ty @ ''|@'' @ r)" using assms(3) by (cases ty) simp_all
  then show ?thesis
    using parse_line[OF assms(1,2), of "type_tag ty @ ''|@'' @ r" "type_tag ty" "''|@'' @ r"]
      scan_tag[of "''|@'' @ r" ty]
    by (cases "tag_value lexcast ty v") (simp_all add: classify_tag)
qed

theorem sample_rate_parsed_witness:
  "parse_metric (\<lambda>v. if v = ''32.5'' then Some (Fin (65 / 2)) else None)
     (metric_line ''t'' ''32.5'' (type_tag Timer @ ''|@'' @ ''0.5'')) =
   Good \<lparr>sm_name = ''t'', sm_type = Timer, sm_value = Fin (65 / 2), sm_rate = Fin (1 / 2),
     sm_signed = False, sm_text = ''32.5''\<rparr>"
proof -
  have "scan_lf ''0.5'' = Some (Fin (1 / 2))" by code_simp
  then show ?thesis
    using sample_rate_parsed[of "''t''" "''32.5''" "''0.5''" "\<lambda>v. if v = ''32.5'' then Some (Fin (65 / 2)) else None" Timer]
    by (simp add: token_def tag_value_def)
qed

text \<open>
  The class comment of \<^verbatim>\<open>include/statsdcc/ledger.h\<close> documents counters and timers with
  sampling as \<open>name:value|c@rate\<close> and \<open>name:value|ms@rate\<close>. Such a line is accepted, and its
  rate is ignored: the sample has rate 1 whatever follows the \<open>@\<close>.
\<close>

theorem documented_rate_ignored:
  assumes "token CHR '':'' n" "token CHR ''|'' v" "NUL \<notin> set r" "ty = Counter \<or> ty = Timer"
    and "CHR ''|'' \<notin> set r"
  shows "parse_metric lexcast (metric_line n v (type_tag ty @ ''@'' @ r)) =
    parse_metric lexcast (metric_line n v (type_tag ty))"
proof -
  have "\<exists>t r3. scan_until 2 CHR ''|'' (type_tag ty @ ''@'' @ r) = Some (t, r3)
      \<and> classify lexcast (trim_leading t) v = classify lexcast (trim_leading (type_tag ty)) v
      \<and> scan_lit CHR ''|'' r3 = None"
  proof (cases "ty = Counter")
    case True
    have "scan_until 2 CHR ''|'' (''c@'' @ r) = Some (''c@'', r)" by (rule scan_until_app) auto
    with True assms(5) show ?thesis
      by (cases r) (auto simp: classify_def trim_leading_def)
  next
    case False
    with assms(4) have "ty = Timer" by simp
    moreover have "scan_until 2 CHR ''|'' (''ms'' @ ''@'' @ r) = Some (''ms'', ''@'' @ r)"
      by (rule scan_until_app) auto
    ultimately show ?thesis by simp
  qed
  then obtain t r3 where t: "scan_until 2 CHR ''|'' (type_tag ty @ ''@'' @ r) = Some (t, r3)"
    "classify lexcast (trim_leading t) v = classify lexcast (trim_leading (type_tag ty)) v"
    "scan_lit CHR ''|'' r3 = None" by blast
  have nul: "NUL \<notin> set (type_tag ty @ ''@'' @ r)" "NUL \<notin> set (type_tag ty)"
    using assms(3) by (cases ty; simp)+
  have "scan_until 2 CHR ''|'' (type_tag ty) = Some (type_tag ty, [])"
    using scan_tag[of "[]" ty] by simp
  note lines = parse_line[OF assms(1,2) nul(1) t(1)] parse_line[OF assms(1,2) nul(2) this]
  show ?thesis unfolding lines t(2)
    by (cases "classify lexcast (trim_leading (type_tag ty)) v") (auto simp: t(3))
qed

theorem documented_rate_ignored_witness:
  "parse_metric (\<lambda>v. Some (Fin 1)) (metric_line ''hits'' ''1'' (''c'' @ ''@'' @ ''0.1'')) =
   parse_metric (\<lambda>v. Some (Fin 1)) (metric_line ''hits'' ''1'' ''c'')"
  using documented_rate_ignored[of "''hits''" "''1''" "''0.1''" Counter "\<lambda>v. Some (Fin 1)"]
  by (simp add: token_def)

text \<open>
  The scan keeps two characters of the type before leading spaces are dropped, so the
  timer line \<open>name:value| ms\<close> has type \<open>m\<close>, which falls through to the last branch: the
  value is added to a counter and no timer is recorded.
\<close>

theorem spaced_timer_is_counter:
  assumes "token CHR '':'' n" "token CHR ''|'' v" "lexcast v = Some x"
  shows "record_metric name (parse_metric lexcast (metric_line n v '' ms'')) l =
    l\<lparr>frequency := umap_upd 0 (\<lambda>i. i + 1) n (frequency l),
      counters := umap_upd zero (\<lambda>c. d_add c (d_mul x (d_div one one))) n (counters l)\<rparr>"
proof -
  have "scan_until 2 CHR ''|'' '' ms'' = Some ('' m'', ''s'')" by (simp add: scan_until_def)
  moreover have "trim_leading '' m'' = ''m''" by (simp add: trim_leading_def)
  moreover have "classify lexcast ''m'' v = Some (Counter, x)" by (simp add: classify_def assms(3))
  ultimately show ?thesis
    using parse_line[OF assms(1,2), of "'' ms''" "'' m''" "''s''"] by (simp add: record_metric_def)
qed

theorem spaced_timer_is_counter_witness:
  "timers (record_metric ''st'' (parse_metric (\<lambda>_. Some (Fin 320)) (metric_line ''t'' ''320'' '' ms'')) new_ledger) = []
   \<and> counters (record_metric ''st'' (parse_metric (\<lambda>_. Some (Fin 320)) (metric_line ''t'' ''320'' '' ms'')) new_ledger)
     = umap_upd zero (\<lambda>c. d_add c (d_mul (Fin 320) (d_div one one))) ''t'' []"
  using spaced_timer_is_counter[of "''t''" "''320''" "\<lambda>_. Some (Fin 320)" "Fin 320" "''st''" new_ledger]
  by (simp add: token_def)

text \<open>
  C29. The counter of a name after any history of lines is the sum, in order of arrival, of
  \<open>value * (1 / rate)\<close> over the counter lines of that name (and 1 for each bad line, for the
  name \<open><config name>.bad_lines_seen\<close>), and there is no entry for a name no line contributed to.
\<close>

theorem counters_history:
  "map_of (counters (buffer_all lexcast name lines new_ledger)) n =
     entry (counter_terms lexcast name n lines) (foldl d_add zero (counter_terms lexcast name n lines))"
  using history_counters[of lexcast name lines n] by (simp add: Let_def)

text \<open>
  C30. The timer of a name holds the values of its timer lines in order of arrival, and its
  count is the sum of \<open>1 / rate\<close> over the same lines.
\<close>

theorem timers_history:
  "map_of (timers (buffer_all lexcast name lines new_ledger)) n =
     entry (samples lexcast Timer n lines) (map sm_value (samples lexcast Timer n lines))
   \<and> map_of (timer_counters (buffer_all lexcast name lines new_ledger)) n =
     entry (samples lexcast Timer n lines)
       (foldl d_add zero (map (\<lambda>s. d_div one (sm_rate s)) (samples lexcast Timer n lines)))"
  using history_timers[of lexcast name lines n] history_timer_counters[of lexcast name lines n]
  by (simp add: Let_def foldl_map_arg)

lemma foldl_set_gauge_signed:
  "\<forall>s \<in> set ss. sm_signed s \<Longrightarrow> foldl (\<lambda>g s. set_gauge s g) g ss = foldl d_add g (map sm_value ss)"
  by (induction ss arbitrary: g) (simp_all add: set_gauge_def)

text \<open>
  C31. A gauge is the last value set without a sign plus, in order, the signed changes that
  came after it; with signed changes only, they are added to 0.
\<close>

theorem gauges_history:
  assumes "samples lexcast Gauge n lines = before @ after" "\<forall>s \<in> set after. sm_signed s"
    and "before \<noteq> [] \<Longrightarrow> \<not> sm_signed (last before)"
  shows "map_of (gauges (buffer_all lexcast name lines new_ledger)) n =
    entry (before @ after)
      (foldl d_add (if before = [] then zero else sm_value (last before)) (map sm_value after))"
proof -
  have "foldl (\<lambda>g s. set_gauge s g) zero before = (if before = [] then zero else sm_value (last before))"
  proof (cases before rule: rev_cases)
    case (snoc xs s)
    with assms(3) show ?thesis by (simp add: set_gauge_def)
  qed simp
  then show ?thesis
    using history_gauges[of lexcast name lines n]
    by (simp add: Let_def assms(1) foldl_set_gauge_signed[OF assms(2)])
qed

theorem gauges_history_witness:
  "map_of (gauges (buffer_all (\<lambda>v. Some (if v = ''500'' then Fin 500 else Fin (- 100))) ''st''
       [metric_line ''m'' ''500'' ''g'', metric_line ''m'' ''-100'' ''g''] new_ledger)) ''m'' =
   Some (d_add (Fin 500) (Fin (- 100)))"
proof -
  let ?lex = "\<lambda>v. Some (if v = ''500'' then Fin 500 else Fin (- 100))"
  have p: "parse_metric ?lex (metric_line ''m'' ''500'' ''g'') = Good \<lparr>sm_name = ''m'', sm_type = Gauge,
      sm_value = Fin 500, sm_rate = Fin 1, sm_signed = False, sm_text = ''500''\<rparr>"
    "parse_metric ?lex (metric_line ''m'' ''-100'' ''g'') = Good \<lparr>sm_name = ''m'', sm_type = Gauge,
      sm_value = Fin (- 100), sm_rate = Fin 1, sm_signed = True, sm_text = ''-100''\<rparr>"
    by code_simp+
  show ?thesis
    using gauges_history[of ?lex "''m''" "[metric_line ''m'' ''500'' ''g'', metric_line ''m'' ''-100'' ''g'']"
        "[\<lparr>sm_name = ''m'', sm_type = Gauge, sm_value = Fin 500, sm_rate = Fin 1, sm_signed = False, sm_text = ''500''\<rparr>]"
        "[\<lparr>sm_name = ''m'', sm_type = Gauge, sm_value = Fin (- 100), sm_rate = Fin 1, sm_signed = True, sm_text = ''-100''\<rparr>]"
        "''st''"]
    by (simp add: samples_def sample_of_def p entry_def)
qed

text \<open>
  A set holds exactly the value texts of its lines.
\<close>

theorem sets_history:
  "rel_option (\<lambda>vs ts. set vs = set ts) (map_of (sets (buffer_all lexcast name lines new_ledger)) n)
     (entry (samples lexcast MSet n lines) (map sm_text (samples lexcast MSet n lines)))"
  using history_sets[of lexcast name lines n]
  by (simp add: Let_def entry_def foldl_insert_member)

section \<open>Accounting\<close>

definition is_bad :: "(string \<Rightarrow> double option) \<Rightarrow> string \<Rightarrow> bool" where
  "is_bad lexcast m = (parse_metric lexcast m = Bad)"

definition sum_values_of :: "('k, int) umap \<Rightarrow> int" where
  "sum_values_of m = sum_list (map snd m)"

lemma sum_values_of_upd:
  assumes "umap_ok m"
  shows "sum_values_of (umap_upd 0 (\<lambda>i. i + 1) k m) = sum_values_of m + 1"
  using assms
proof (induction m)
  case Nil
  then show ?case by (simp add: sum_values_of_def umap_upd_def umap_put_def umap_at_def)
next
  case (Cons p m)
  obtain k' v where p: "p = (k', v)" by fastforce
  show ?case
  proof (cases "k' = k")
    case True
    then show ?thesis by (simp add: p sum_values_of_def umap_upd_def umap_put_def umap_at_def)
  next
    case False
    with Cons show ?thesis
      by (simp add: p sum_values_of_def umap_upd_def umap_put_def umap_at_def umap_ok_def)
  qed
qed

lemma frequency_buffer:
  "frequency (buffer lexcast name m l) = (case parse_metric lexcast m of Bad \<Rightarrow> frequency l
     | Good s \<Rightarrow> umap_upd 0 (\<lambda>i. i + 1) (sm_name s) (frequency l))"
  by (simp add: step_simps split: parsed.split metric_type.split)

lemma metrics_processed_buffer:
  "statsd_metrics (buffer lexcast name m l) =
     umap_upd 0 (\<lambda>i. i + 1) ''metrics_processed'' (statsd_metrics l)"
  by (simp add: step_simps split: parsed.split metric_type.split)

lemma ledger_ok_frequency: "ledger_ok l \<Longrightarrow> umap_ok (frequency l)"
  by (simp add: ledger_ok_def tables_ok_def)

text \<open>
  C32. Nothing is lost or counted twice: after a history of lines, \<open>metrics_processed\<close> is the
  number of lines, the frequencies add up to the number of accepted lines, and accepted and
  bad lines together are all lines.
\<close>

theorem buffer_accounting:
  "umap_at 0 (statsd_metrics (buffer_all lexcast name lines new_ledger)) ''metrics_processed'' = int (length lines)
   \<and> sum_values_of (frequency (buffer_all lexcast name lines new_ledger))
       + int (length (filter (is_bad lexcast) lines)) = int (length lines)"
proof (induction lines rule: rev_induct)
  case Nil
  then show ?case by (simp add: umap_at_def sum_values_of_def)
next
  case (snoc m lines)
  let ?l = "buffer_all lexcast name lines new_ledger"
  have "umap_ok (frequency ?l)" by (simp add: ledger_ok_frequency ledger_ok_buffer_all ledger_ok_new)
  with snoc show ?case
    by (cases "parse_metric lexcast m")
      (simp_all add: frequency_buffer metrics_processed_buffer is_bad_def umap_at_upd sum_values_of_upd)
qed

section \<open>Exactness and its limits\<close>

definition whole :: "sample \<Rightarrow> int" where
  "whole s = \<lfloor>dval (sm_value s)\<rfloor>"

definition unit_count :: "sample \<Rightarrow> bool" where
  "unit_count s = (sm_value s = Fin (of_int (whole s)) \<and> sm_rate s = Fin 1)"

lemma sum_list_abs_le: "\<bar>sum_list ks\<bar> \<le> sum_list (map abs ks)" for ks :: "int list"
  by (induction ks) auto

lemma foldl_d_add_exact:
  fixes ks :: "int list"
  assumes "\<bar>i\<bar> + sum_list (map abs ks) \<le> 2 ^ 53"
  shows "foldl d_add (Fin (of_int i)) (map (\<lambda>k. Fin (of_int k)) ks) = Fin (of_int (i + sum_list ks))"
  using assms
proof (induction ks arbitrary: i)
  case Nil
  then show ?case by simp
next
  case (Cons k ks)
  have "0 \<le> sum_list (map abs ks)" by (intro sum_list_nonneg) auto
  with Cons.prems have ik: "\<bar>i + k\<bar> \<le> 2 ^ 53" by simp
  have "foldl d_add (Fin (of_int (i + k))) (map (\<lambda>k. Fin (of_int k)) ks) =
      Fin (of_int (i + k + sum_list ks))"
    by (rule Cons.IH) (use Cons.prems in simp)
  then show ?case using d_add_Fin_int[OF ik] by (simp add: add.assoc)
qed

lemma contribs_map:
  "(\<And>p. c p = map g (c' p)) \<Longrightarrow> contribs c lexcast lines = map g (contribs c' lexcast lines)"
  by (induction lines) auto

lemma counter_terms_samples:
  assumes "n \<noteq> bad_lines_key name"
  shows "counter_terms lexcast name n lines =
    map (\<lambda>s. d_mul (sm_value s) (d_div one (sm_rate s))) (samples lexcast Counter n lines)"
  unfolding counter_terms_def samples_def
  by (rule contribs_map) (use assms in \<open>simp add: counter_term_def sample_of_def split: parsed.split\<close>)

lemma member_le_sum_list_abs: "k \<in> set ks \<Longrightarrow> \<bar>k\<bar> \<le> sum_list (map abs ks)" for k :: int
proof (induction ks)
  case (Cons j ks)
  have "0 \<le> sum_list (map abs ks)" by (intro sum_list_nonneg) auto
  with Cons show ?case by auto
qed simp

text \<open>
  C33. Counters are exact in the usual case: while the counter lines of a name carry whole
  numbers without sampling and their magnitudes add up to at most \<open>2\<^sup>5\<^sup>3\<close>, the counter is the
  exact integer sum, whatever the order and the lines in between.
\<close>

theorem counter_exact:
  assumes "n \<noteq> bad_lines_key name" "\<forall>s \<in> set (samples lexcast Counter n lines). unit_count s"
    and "samples lexcast Counter n lines \<noteq> []"
    and "sum_list (map (\<lambda>s. \<bar>whole s\<bar>) (samples lexcast Counter n lines)) \<le> 2 ^ 53"
  shows "map_of (counters (buffer_all lexcast name lines new_ledger)) n =
    Some (Fin (of_int (sum_list (map whole (samples lexcast Counter n lines)))))"
proof -
  let ?ss = "samples lexcast Counter n lines"
  have "counter_terms lexcast name n lines = map (\<lambda>k. Fin (of_int k)) (map whole ?ss)"
    unfolding counter_terms_samples[OF assms(1)] map_map
  proof (rule map_cong[OF refl], unfold comp_def)
    fix s assume s: "s \<in> set ?ss"
    with assms(2) have u: "sm_value s = Fin (of_int (whole s))" "sm_rate s = Fin 1"
      by (auto simp: unit_count_def)
    from s have "whole s \<in> set (map whole ?ss)" by simp
    from member_le_sum_list_abs[OF this] assms(4) have "\<bar>whole s\<bar> \<le> 2 ^ 53" by (simp add: comp_def)
    from d_mul_one_int[OF this]
    show "d_mul (sm_value s) (d_div one (sm_rate s)) = Fin (of_int (whole s))"
      by (simp only: u d_div_one_one)
  qed
  moreover have "foldl d_add (Fin (of_int 0)) (map (\<lambda>k. Fin (of_int k)) (map whole ?ss)) =
      Fin (of_int (0 + sum_list (map whole ?ss)))"
    by (rule foldl_d_add_exact) (use assms(4) in \<open>simp add: comp_def\<close>)
  ultimately show ?thesis
    using history_counters[of lexcast name lines n] assms(3) by (simp add: Let_def entry_def)
qed

text \<open>A ten-fold counter line and a bad one between them.\<close>

abbreviation sample_lex :: "string \<Rightarrow> double option" where
  "sample_lex \<equiv> (\<lambda>v. if v = ''1'' then Some (Fin 1) else if v = ''4'' then Some (Fin 4) else None)"

definition sample_lines :: "string list" where
  "sample_lines = [''hits:1|c'', ''hits:x|c'', ''hits:4|c'']"

definition hit :: "double \<Rightarrow> double \<Rightarrow> string \<Rightarrow> sample" where
  "hit v r t = \<lparr>sm_name = ''hits'', sm_type = Counter, sm_value = v, sm_rate = r, sm_signed = False, sm_text = t\<rparr>"

lemma sample_lines_samples:
  "samples sample_lex Counter ''hits'' sample_lines = [hit (Fin 1) (Fin 1) ''1'', hit (Fin 4) (Fin 1) ''4'']"
proof -
  have "parse_metric sample_lex ''hits:1|c'' = Good (hit (Fin 1) (Fin 1) ''1'')"
    "parse_metric sample_lex ''hits:x|c'' = Bad"
    "parse_metric sample_lex ''hits:4|c'' = Good (hit (Fin 4) (Fin 1) ''4'')"
    unfolding hit_def by code_simp+
  then show ?thesis by (simp add: samples_def sample_lines_def sample_of_def hit_def)
qed

theorem counter_exact_witness:
  "map_of (counters (buffer_all sample_lex ''st'' sample_lines new_ledger)) ''hits'' = Some (Fin 5)"
  using counter_exact[of "''hits''" "''st''" sample_lex sample_lines]
  by (simp add: sample_lines_samples unit_count_def whole_def hit_def bad_lines_key_def)

lemma d_add_not_finite2: "\<not> is_finite y \<Longrightarrow> \<not> is_finite (d_add x y)"
  by (cases x; cases y) (auto simp: d_add_def)

lemma foldl_d_add_poisoned:
  "y \<in> set ys \<Longrightarrow> \<not> is_finite y \<Longrightarrow> \<not> is_finite (foldl d_add x ys)"
  by (induction ys arbitrary: x) (auto simp: foldl_d_add_not_finite d_add_not_finite2)

lemma d_mul_by_reciprocal_of_zero:
  assumes "is_zero r"
  shows "\<not> is_finite (d_mul v (d_div one r))"
proof -
  from assms consider "r = NegZero" | "r = Fin 0" by (auto simp: is_zero_def)
  then have "d_div one r = PInf \<or> d_div one r = MInf"
    by cases (simp_all add: d_div_def is_zero_def signed_inf_def)
  then show ?thesis
    by (cases v) (auto simp: d_mul_def is_zero_def signed_inf_def Let_def split: if_splits)
qed

text \<open>
  A single counter line with sample rate 0 (\<open>name:value|c|@0\<close>) makes the counter of its
  name an infinity or a NaN for the rest of the flush interval: the rate is a divisor, and the
  parser does not check it.
\<close>

theorem zero_rate_poisons_counter:
  assumes "s \<in> set (samples lexcast Counter n lines)" "is_zero (sm_rate s)" "n \<noteq> bad_lines_key name"
  shows "\<exists>c. map_of (counters (buffer_all lexcast name lines new_ledger)) n = Some c \<and> \<not> is_finite c"
proof -
  let ?ts = "counter_terms lexcast name n lines"
  from assms(1) have "d_mul (sm_value s) (d_div one (sm_rate s)) \<in> set ?ts"
    by (auto simp: counter_terms_samples[OF assms(3)])
  with foldl_d_add_poisoned[OF this d_mul_by_reciprocal_of_zero[OF assms(2)]]
  show ?thesis
    using history_counters[of lexcast name lines n] by (auto simp: Let_def entry_def)
qed

theorem zero_rate_poisons_counter_witness:
  "\<exists>c. map_of (counters (buffer_all sample_lex ''st'' [''hits:1|c'', ''hits:4|c|@0''] new_ledger)) ''hits'' = Some c
     \<and> \<not> is_finite c"
proof -
  have p: "parse_metric sample_lex ''hits:1|c'' = Good (hit (Fin 1) (Fin 1) ''1'')"
    "parse_metric sample_lex ''hits:4|c|@0'' = Good (hit (Fin 4) (Fin 0) ''4'')"
    unfolding hit_def by code_simp+
  show ?thesis
    by (rule zero_rate_poisons_counter[of "hit (Fin 4) (Fin 0) ''4''"])
      (simp_all add: samples_def sample_of_def p, simp_all add: hit_def bad_lines_key_def is_zero_def)
qed

lemma bad_terms:
  assumes "samples lexcast Counter (bad_lines_key name) lines = []"
  shows "counter_terms lexcast name (bad_lines_key name) lines =
    map (\<lambda>k. Fin (of_int k)) (map (\<lambda>_. 1) (filter (is_bad lexcast) lines))"
  using assms
  by (induction lines)
    (auto simp: counter_terms_def samples_def counter_term_def sample_of_def is_bad_def
      split: parsed.splits if_splits)

lemma bad_lines_value:
  assumes "samples lexcast Counter (bad_lines_key name) lines = []"
    and "int (length (filter (is_bad lexcast) lines)) \<le> int_max"
    and "counters l = counters (buffer_all lexcast name lines new_ledger)"
  shows "bad_lines_seen name l = Inr (int (length (filter (is_bad lexcast) lines)))"
proof -
  let ?k = "int (length (filter (is_bad lexcast) lines))"
  have "foldl d_add (Fin (of_int 0)) (map (\<lambda>k. Fin (of_int k)) (map (\<lambda>_. 1) (filter (is_bad lexcast) lines))) =
      Fin (of_int (0 + ?k))"
    using foldl_d_add_exact[of 0 "map (\<lambda>_. 1) (filter (is_bad lexcast) lines)"] assms(2)
    by (simp add: sum_list_triv comp_def)
  then show ?thesis
    using history_counters[of lexcast name lines "bad_lines_key name"] assms(2)
      d_to_int_of_int[of "int_min" ?k int_max]
    by (simp add: assms(3) bad_lines_seen_def bad_terms[OF assms(1)] Let_def entry_def)
qed

text \<open>
  \<open>bad_lines_seen\<close> is the number of bad lines, as long as it fits an \<open>int\<close> and no client
  sends a counter of that very name.
\<close>

theorem bad_lines_counted:
  assumes "samples lexcast Counter (bad_lines_key name) lines = []"
    and "int (length (filter (is_bad lexcast) lines)) \<le> int_max"
  shows "bad_lines_seen name (buffer_all lexcast name lines new_ledger) =
    Inr (int (length (filter (is_bad lexcast) lines)))"
  by (rule bad_lines_value[OF assms refl])

theorem bad_lines_counted_witness:
  "bad_lines_seen ''st'' (buffer_all sample_lex ''st'' [''hits:x|c'', ''nothing''] new_ledger) = Inr 2"
proof -
  have p: "parse_metric sample_lex ''hits:x|c'' = Bad" "parse_metric sample_lex ''nothing'' = Bad"
    by code_simp+
  show ?thesis
    using bad_lines_counted[of sample_lex "''st''" "[''hits:x|c'', ''nothing'']"]
    by (simp add: is_bad_def p samples_def sample_of_def)
qed

end
