(* ===== verification/Ledger_Process.thy ===== *)
theory Ledger_Process
  imports Ledger_Buffer
begin

text \<open>
  What \<open>process\<close> computes: the per-second rate of every counter and, for every timer, the
  extremes, the mean and the percentile figures over its sorted values; when it runs without
  a fault, and the inputs on which it does not.
\<close>

section \<open>Percentiles\<close>

definition pct_ok :: "int \<Rightarrow> bool" where
  "pct_ok p = (\<bar>p\<bar> \<le> 100)"

lemma pct_value_ok: "pct_ok p \<Longrightarrow> pct_value p = Inr (d_of_int \<bar>p\<bar>)"
  by (auto simp: pct_ok_def pct_value_def)

lemma clean_pct_digits: "pct_ok p \<Longrightarrow> clean_pct p = nat_digits \<bar>p\<bar>"
proof -
  assume p: "pct_ok p"
  have "map (\<lambda>c. if c = CHR ''.'' then CHR ''_'' else c) (nat_digits \<bar>p\<bar>) = nat_digits \<bar>p\<bar>"
    using nat_digits_chars[of "\<bar>p\<bar>"] digit_char_not_dot by (intro map_idI) fastforce
  with p show ?thesis by (simp add: clean_pct_def print_g_int_def pct_ok_def)
qed

lemma clean_pct_inj: "pct_ok p \<Longrightarrow> pct_ok q \<Longrightarrow> clean_pct p = clean_pct q \<Longrightarrow> \<bar>p\<bar> = \<bar>q\<bar>"
  using nat_digits_inj[of "\<bar>p\<bar>" "\<bar>q\<bar>"] by (simp add: clean_pct_digits)

text \<open>The rank of a percentile up to 100 is a subscript of the sorted values, or 0.\<close>

lemma num_in_threshold_ok:
  assumes "pct_ok p" "0 \<le> cnt" "cnt \<le> int_max"
  shows "\<exists>num. num_in_threshold (d_of_int \<bar>p\<bar>) cnt = Inr num \<and> 0 \<le> num \<and> num \<le> cnt"
proof -
  from d_div_int_bound[of "\<bar>p\<bar>" 100 1] assms(1)
  obtain x where x: "d_div (d_of_int \<bar>p\<bar>) (d_of_int 100) = Fin x" "0 \<le> x" "x \<le> of_int 1"
    by (auto simp: pct_ok_def)
  from d_mul_int_bound[OF x(2,3), of cnt] assms(2,3)
  obtain y where y: "d_mul (Fin x) (d_of_int cnt) = Fin y" "0 \<le> y" "y \<le> of_int cnt" by auto
  from c_round_bound[OF y(2,3)]
  obtain i where i: "c_round (Fin y) = Fin (of_int i)" "0 \<le> i" "i \<le> cnt" by auto
  from i assms(3) have "d_to_uint64 (Fin (of_int i)) = Inr i"
    by (simp add: d_to_int_of_int)
  with x y i show ?thesis by (simp add: num_in_threshold_def)
qed

lemma sum_first_ok:
  assumes "0 \<le> n" "n \<le> int (length values)"
  shows "sum_first values n = Inr (foldl d_add zero (take (nat n) values))"
proof -
  have "m \<le> length values \<Longrightarrow>
    fold_result (\<lambda>i acc. bind_result (vec_at values (int i)) (\<lambda>v. Inr (d_add acc v))) [0..<m] zero
      = Inr (foldl d_add zero (take m values))" for m
    by (induction m) (simp_all add: fold_result_append take_Suc_conv_app_nth)
  then show ?thesis using assms by (simp add: sum_first_def)
qed

lemma put_pct_ok:
  assumes "0 \<le> n" "n \<le> int (length values)"
  shows "put_pct values p n b data = Inr (b,
     umap_put (''mean_'' @ clean_pct p) (d_div (foldl d_add zero (take (nat n) values)) (d_of_int n))
      (umap_put (''sum_'' @ clean_pct p) (foldl d_add zero (take (nat n) values))
       (umap_put (''count_'' @ clean_pct p) (d_of_int n)
        (umap_put (''upper_'' @ clean_pct p) b data))))"
  by (simp add: put_pct_def sum_first_ok[OF assms] Let_def)

text \<open>The rank the code uses: 0 for a single value, \<open>round(pct / 100 * count)\<close> otherwise.\<close>

definition rank_of :: "int \<Rightarrow> int \<Rightarrow> int" where
  "rank_of cnt p = (if 1 < cnt then
     (case num_in_threshold (d_of_int \<bar>p\<bar>) cnt of Inl _ \<Rightarrow> 0 | Inr num \<Rightarrow> num) else 0)"

lemma rank_of_bounds:
  assumes "pct_ok p" "0 \<le> cnt" "cnt \<le> int_max"
  shows "0 \<le> rank_of cnt p \<and> rank_of cnt p \<le> cnt"
  using num_in_threshold_ok[OF assms] by (auto simp: rank_of_def)

text \<open>A step that is skipped, and one that writes the four figures of its percentile.\<close>

lemma percentile_step_ok:
  assumes "pct_ok p" "values \<noteq> []" "cnt = int (length values)" "cnt \<le> int_max"
  shows "percentile_step values cnt p (b, data) =
    (if 1 < cnt \<and> rank_of cnt p = 0 then Inr (b, data)
     else put_pct values p (rank_of cnt p)
       (if 1 < cnt then values ! nat (rank_of cnt p - 1) else b) data)"
proof (cases "1 < cnt")
  case True
  from num_in_threshold_ok[OF assms(1), of cnt] assms(3,4)
  obtain num where num: "num_in_threshold (d_of_int \<bar>p\<bar>) cnt = Inr num" "0 \<le> num" "num \<le> cnt" by auto
  then have r: "rank_of cnt p = num" using True by (simp add: rank_of_def)
  have "num \<noteq> 0 \<Longrightarrow> vec_at values (num - 1) = Inr (values ! nat (num - 1))"
    using num assms(3) by (simp add: vec_at_def)
  with True num r show ?thesis
    by (simp add: percentile_step_def pct_value_ok[OF assms(1)])
next
  case False
  then show ?thesis by (simp add: percentile_step_def pct_value_ok[OF assms(1)] rank_of_def)
qed

text \<open>The four figures of a percentile in the data of a timer.\<close>

type_synonym figures = "double option \<times> double option \<times> double option \<times> double option"

definition pct_figures :: "(string, double) umap \<Rightarrow> int \<Rightarrow> figures" where
  "pct_figures data p =
     (map_of data (''upper_'' @ clean_pct p), map_of data (''count_'' @ clean_pct p),
      map_of data (''sum_'' @ clean_pct p), map_of data (''mean_'' @ clean_pct p))"

definition expected_figures :: "double list \<Rightarrow> int \<Rightarrow> double \<Rightarrow> int \<Rightarrow> figures" where
  "expected_figures values cnt mx p =
     (let r = rank_of cnt p; s = foldl d_add zero (take (nat r) values)
      in if 1 < cnt \<and> r = 0 then (None, None, None, None)
         else (Some (if 1 < cnt then values ! nat (r - 1) else mx), Some (d_of_int r), Some s,
               Some (d_div s (d_of_int r))))"

lemma pct_figures_Nil: "pct_figures [] p = (None, None, None, None)"
  by (simp add: pct_figures_def)

text \<open>The values of a timer with their count as the code has it, an \<^verbatim>\<open>int\<close>.\<close>

definition counted :: "double list \<Rightarrow> int \<Rightarrow> bool" where
  "counted values cnt = (values \<noteq> [] \<and> cnt = int (length values) \<and> cnt \<le> int_max)"

lemma step_ok:
  "counted values cnt \<Longrightarrow> pct_ok p \<Longrightarrow> percentile_step values cnt p (b, data) =
    (if 1 < cnt \<and> rank_of cnt p = 0 then Inr (b, data)
     else put_pct values p (rank_of cnt p)
       (if 1 < cnt then values ! nat (rank_of cnt p - 1) else b) data)"
  by (rule percentile_step_ok) (auto simp: counted_def)

lemma put_rank:
  assumes "counted values cnt" "pct_ok p"
  shows "put_pct values p (rank_of cnt p) b data = Inr (b,
     umap_put (''mean_'' @ clean_pct p)
        (d_div (foldl d_add zero (take (nat (rank_of cnt p)) values)) (d_of_int (rank_of cnt p)))
      (umap_put (''sum_'' @ clean_pct p) (foldl d_add zero (take (nat (rank_of cnt p)) values))
       (umap_put (''count_'' @ clean_pct p) (d_of_int (rank_of cnt p))
        (umap_put (''upper_'' @ clean_pct p) b data))))"
  by (rule put_pct_ok) (use assms rank_of_bounds[of p cnt] in \<open>auto simp: counted_def\<close>)

lemmas steps = step_ok put_rank

lemma percentiles_ok:
  assumes "counted values cnt" "\<forall>p \<in> set ps. pct_ok p"
  shows "\<exists>st. fold_result (percentile_step values cnt) ps st0 = Inr st"
proof -
  have "\<exists>v. percentile_step values cnt p u = Inr v" if "p \<in> set ps" for p u
    using assms that by (cases u) (auto simp: steps)
  then have "\<exists>st. fold_result (percentile_step values cnt) ps st0 = Inr st \<and> True"
    by (intro fold_result_total) auto
  then show ?thesis by simp
qed

lemma step_boundary:
  assumes "counted values cnt" "pct_ok p" "cnt \<le> 1" "percentile_step values cnt p st = Inr st'"
  shows "fst st' = fst st"
  using assms(3,4) by (cases st) (auto simp: steps[OF assms(1,2)])

lemma step_figures_same:
  assumes "counted values cnt" "pct_ok p" "percentile_step values cnt p st = Inr st'"
    and "cnt \<le> 1 \<Longrightarrow> fst st = mx" "pct_figures (snd st) p = (None, None, None, None)"
  shows "pct_figures (snd st') p = expected_figures values cnt mx p"
proof -
  obtain b data where st: "st = (b, data)" by fastforce
  show ?thesis
  proof (cases "1 < cnt \<and> rank_of cnt p = 0")
    case True
    with assms(3,5) show ?thesis by (simp add: st steps[OF assms(1,2)] expected_figures_def)
  next
    case False
    with assms(3) have "snd st' = snd (projr (put_pct values p (rank_of cnt p)
       (if 1 < cnt then values ! nat (rank_of cnt p - 1) else b) data))"
      by (auto simp: st step_ok[OF assms(1,2)])
    moreover have "\<not> 1 < cnt \<Longrightarrow> b = mx" using assms(4) by (simp add: st)
    ultimately show ?thesis using False
      by (simp add: put_rank[OF assms(1,2)] pct_figures_def expected_figures_def Let_def table_simps)
  qed
qed

lemma step_figures_other:
  assumes "counted values cnt" "pct_ok q" "pct_ok p" "\<bar>q\<bar> \<noteq> \<bar>p\<bar>"
    and "percentile_step values cnt q st = Inr st'"
  shows "pct_figures (snd st') p = pct_figures (snd st) p"
proof -
  obtain b data where st: "st = (b, data)" by fastforce
  from assms(2-4) have "clean_pct p \<noteq> clean_pct q" using clean_pct_inj by metis
  with assms(5) show ?thesis
    by (auto simp: st steps[OF assms(1,2)] pct_figures_def table_simps split: if_splits)
qed

lemma fold_figures_other:
  assumes "fold_result (percentile_step values cnt) qs st = Inr st'"
    and "counted values cnt" "pct_ok p" "\<forall>q \<in> set qs. pct_ok q \<and> \<bar>q\<bar> \<noteq> \<bar>p\<bar>"
  shows "pct_figures (snd st') p = pct_figures (snd st) p"
  by (rule fold_result_invariant[OF assms(1), where P = "\<lambda>u. pct_figures (snd u) p = pct_figures (snd st) p"])
    (use assms(2-4) step_figures_other in auto)

lemma percentiles_figures:
  assumes "fold_result (percentile_step values cnt) ps (mx, []) = Inr st"
    and "counted values cnt" "\<forall>p \<in> set ps. pct_ok p" "distinct (map abs ps)" "p \<in> set ps"
  shows "pct_figures (snd st) p = expected_figures values cnt mx p"
proof -
  from assms(5) obtain xs bs where ps: "ps = xs @ p # bs" by (auto simp: in_set_conv_decomp)
  from assms(1) obtain st1 st2 where
    1: "fold_result (percentile_step values cnt) xs (mx, []) = Inr st1" and
    2: "percentile_step values cnt p st1 = Inr st2" and
    3: "fold_result (percentile_step values cnt) bs st2 = Inr st"
    by (auto simp: ps fold_result_append bind_result_Inr_iff)
  have others: "\<forall>q \<in> set xs. pct_ok q \<and> \<bar>q\<bar> \<noteq> \<bar>p\<bar>" "\<forall>q \<in> set bs. pct_ok q \<and> \<bar>q\<bar> \<noteq> \<bar>p\<bar>"
    and p: "pct_ok p"
  proof -
    have d: "\<bar>p\<bar> \<notin> abs ` set xs" "\<bar>p\<bar> \<notin> abs ` set bs" using assms(4) by (simp_all add: ps)
    have "\<bar>q\<bar> \<noteq> \<bar>p\<bar>" if "q \<in> set xs \<or> q \<in> set bs" for q
      using d that imageI[of q _ abs] by metis
    with assms(3) show "\<forall>q \<in> set xs. pct_ok q \<and> \<bar>q\<bar> \<noteq> \<bar>p\<bar>" "\<forall>q \<in> set bs. pct_ok q \<and> \<bar>q\<bar> \<noteq> \<bar>p\<bar>" "pct_ok p"
      by (simp_all add: ps)
  qed
  have b: "cnt \<le> 1 \<Longrightarrow> fst st1 = mx"
    by (rule fold_result_invariant[OF 1, where P = "\<lambda>u. fst u = mx"]) (use others step_boundary[OF assms(2)] in auto)
  have "pct_figures (snd st1) p = (None, None, None, None)"
    using fold_figures_other[OF 1 assms(2) p others(1)] by (simp add: pct_figures_Nil)
  from step_figures_same[OF assms(2) p 2 b this] show ?thesis using fold_figures_other[OF 3 assms(2) p others(2)] by simp
qed

section \<open>One timer\<close>

text \<open>Values the sort and the \<^verbatim>\<open>int\<close> count can take.\<close>

definition values_ok :: "double list \<Rightarrow> bool" where
  "values_ok vs = (vs \<noteq> [] \<and> int (length vs) \<le> int_max \<and> (\<forall>v \<in> set vs. \<not> is_nan v))"

lemma counted_sort: "values_ok vs \<Longrightarrow> counted (sort_by d_lt vs) (wrap_int32 (int (length vs)))"
proof -
  assume h: "values_ok vs"
  then have "0 < length vs" by (simp add: values_ok_def)
  then have "0 < length (sort_by d_lt vs)" by simp
  then have "sort_by d_lt vs \<noteq> []" using length_greater_0_conv by blast
  with h show ?thesis unfolding counted_def by (auto simp: values_ok_def wrap_int32_id in_int32_def)
qed

lemma timer_summary_sorted:
  assumes "key \<noteq> []" "values_ok vs"
  shows "timer_summary ps key vs tc =
    (let values = sort_by d_lt vs; cnt = int (length vs) in
     bind_result (fold_result (percentile_step values cnt) ps (last values, [])) (\<lambda>(_, data). Inr
       (umap_put ''mean'' (d_div (sum_values values) (d_of_int cnt)) (umap_put ''count'' tc
         (umap_put ''lower'' (hd values) (umap_put ''upper'' (last values) data))))))"
proof -
  have "std_sort d_lt vs = Inr (sort_by d_lt vs)"
    by (rule dbl.std_sort_ok) (use assms(2) in \<open>simp add: values_ok_def\<close>)
  moreover have "sort_by d_lt vs \<noteq> []" "wrap_int32 (int (length vs)) = int (length vs)"
    using counted_sort[OF assms(2)] assms(2)
    by (simp_all add: counted_def values_ok_def wrap_int32_id in_int32_def)
  ultimately show ?thesis using assms(1) by (simp add: timer_summary_def Let_def)
qed

text \<open>
  What the data of a timer must be: the figures of \<open>ys\<close>, a permutation of the values in
  ascending order.
\<close>

definition ascending :: "double list \<Rightarrow> bool" where
  "ascending ys = (\<forall>i j. i \<le> j \<and> j < length ys \<longrightarrow> d_le (ys ! i) (ys ! j))"

definition summary_of :: "int list \<Rightarrow> double list \<Rightarrow> double \<Rightarrow> (string, double) umap \<Rightarrow> bool" where
  "summary_of ps ys tc data =
     (map_of data ''upper'' = Some (last ys) \<and> map_of data ''lower'' = Some (hd ys)
      \<and> map_of data ''count'' = Some tc
      \<and> map_of data ''mean'' = Some (d_div (foldl d_add zero ys) (d_of_int (int (length ys))))
      \<and> (\<forall>p \<in> set ps. pct_figures data p = expected_figures ys (int (length ys)) (last ys) p))"

lemma ascending_sort:
  assumes "\<forall>v \<in> set vs. \<not> is_nan v"
  shows "ascending (sort_by d_lt vs)"
  unfolding ascending_def
proof (intro allI impI)
  fix i j assume h: "i \<le> j \<and> j < length (sort_by d_lt vs)"
  have "sorted (map d_rank (sort_by d_lt vs))"
    by (rule dbl.sorted_sort_by) (use assms in simp)
  moreover have "\<not> is_nan (sort_by d_lt vs ! i)" "\<not> is_nan (sort_by d_lt vs ! j)"
    using nth_mem[of i "sort_by d_lt vs"] nth_mem[of j "sort_by d_lt vs"] h assms by auto
  ultimately show "d_le (sort_by d_lt vs ! i) (sort_by d_lt vs ! j)"
    using h by (intro sorted_d_rank_nth) auto
qed

lemma timer_summary_ok:
  assumes "key \<noteq> []" "values_ok vs" "\<forall>p \<in> set ps. pct_ok p"
  shows "\<exists>data. timer_summary ps key vs tc = Inr data"
proof -
  have "counted (sort_by d_lt vs) (int (length vs))"
    using counted_sort[OF assms(2)] by (simp add: counted_def)
  from percentiles_ok[OF this assms(3)] obtain st where
    "fold_result (percentile_step (sort_by d_lt vs) (int (length vs))) ps (last (sort_by d_lt vs), []) = Inr st" ..
  then show ?thesis
    by (cases st) (simp add: timer_summary_sorted[OF assms(1,2)] Let_def)
qed

lemma timer_summary_spec:
  assumes "key \<noteq> []" "values_ok vs" "\<forall>p \<in> set ps. pct_ok p" "distinct (map abs ps)"
    and "timer_summary ps key vs tc = Inr data"
  shows "\<exists>ys. mset ys = mset vs \<and> ascending ys \<and> summary_of ps ys tc data"
proof (intro exI conjI)
  let ?ys = "sort_by d_lt vs" and ?cnt = "int (length vs)"
  have c: "counted ?ys ?cnt" using counted_sort[OF assms(2)] by (simp add: counted_def)
  from assms(5) obtain b d where
    st: "fold_result (percentile_step ?ys ?cnt) ps (last ?ys, []) = Inr (b, d)" and
    data: "data = umap_put ''mean'' (d_div (sum_values ?ys) (d_of_int ?cnt)) (umap_put ''count'' tc
         (umap_put ''lower'' (hd ?ys) (umap_put ''upper'' (last ?ys) d)))"
    by (auto simp: timer_summary_sorted[OF assms(1,2)] Let_def bind_result_Inr_iff)
  have "pct_figures data p = pct_figures d p" for p
    by (simp add: data pct_figures_def table_simps)
  with percentiles_figures[OF st c assms(3,4)] show "summary_of ps ?ys tc data"
    by (simp add: summary_of_def data table_simps sum_values_def)
  show "mset ?ys = mset vs" by simp
  show "ascending ?ys" by (rule ascending_sort) (use assms(2) in \<open>simp add: values_ok_def\<close>)
qed

section \<open>The loop over the timers\<close>

definition timer_ready :: "string \<times> double list \<Rightarrow> bool" where
  "timer_ready kv = (fst kv \<noteq> [] \<and> values_ok (snd kv))"

lemma process_timer_ok:
  assumes "timer_ready kv" "\<forall>p \<in> set ps. pct_ok p"
  shows "\<exists>data. timer_summary ps (fst kv) (snd kv) (umap_at zero (timer_counters l) (fst kv)) = Inr data
    \<and> process_timer ps kv l = Inr (l\<lparr>
        timer_counters := umap_upd zero (\<lambda>x. x) (fst kv) (timer_counters l),
        timer_data := umap_put (fst kv) data (timer_data l)\<rparr>)"
proof -
  from assms obtain data where
    "timer_summary ps (fst kv) (snd kv) (umap_at zero (timer_counters l) (fst kv)) = Inr data"
    using timer_summary_ok by (metis timer_ready_def)
  moreover from this have "timer_summary ps (fst kv) (snd kv)
      (umap_at zero (umap_upd zero (\<lambda>x. x) (fst kv) (timer_counters l)) (fst kv)) = Inr data"
    by (simp add: umap_at_upd)
  ultimately show ?thesis using assms(1) by (simp add: process_timer_def timer_ready_def Let_def)
qed

text \<open>The tables the loop leaves alone.\<close>

definition kept :: "ledger \<Rightarrow> ledger \<Rightarrow> bool" where
  "kept l l' = (frequency l' = frequency l \<and> counters l' = counters l \<and> timers l' = timers l
     \<and> gauges l' = gauges l \<and> sets l' = sets l \<and> counter_rates l' = counter_rates l
     \<and> statsd_metrics l' = statsd_metrics l)"

lemma kept_refl [simp]: "kept l l"
  by (simp add: kept_def)

lemma kept_trans [trans]: "kept l l' \<Longrightarrow> kept l' l'' \<Longrightarrow> kept l l''"
  by (simp add: kept_def)

lemma process_timers_ok:
  assumes "\<forall>kv \<in> set kvs. timer_ready kv" "\<forall>p \<in> set ps. pct_ok p" "distinct (map fst kvs)"
  shows "\<exists>l'. fold_result (process_timer ps) kvs l = Inr l' \<and> kept l l'
    \<and> (\<forall>k. umap_at zero (timer_counters l') k = umap_at zero (timer_counters l) k)
    \<and> (\<forall>k. k \<notin> fst ` set kvs \<longrightarrow> map_of (timer_data l') k = map_of (timer_data l) k)
    \<and> (\<forall>kv \<in> set kvs. \<exists>data. map_of (timer_data l') (fst kv) = Some data
        \<and> timer_summary ps (fst kv) (snd kv) (umap_at zero (timer_counters l) (fst kv)) = Inr data)"
  using assms(1,3)
proof (induction kvs arbitrary: l)
  case Nil
  then show ?case by simp
next
  case (Cons kv kvs)
  from process_timer_ok[of kv ps l] Cons.prems(1) assms(2) obtain data where
    d: "timer_summary ps (fst kv) (snd kv) (umap_at zero (timer_counters l) (fst kv)) = Inr data" and
    step: "process_timer ps kv l = Inr (l\<lparr>
        timer_counters := umap_upd zero (\<lambda>x. x) (fst kv) (timer_counters l),
        timer_data := umap_put (fst kv) data (timer_data l)\<rparr>)" by auto
  let ?l1 = "l\<lparr>timer_counters := umap_upd zero (\<lambda>x. x) (fst kv) (timer_counters l),
        timer_data := umap_put (fst kv) data (timer_data l)\<rparr>"
  have tc: "umap_at zero (umap_upd zero (\<lambda>x. x) (fst kv) (timer_counters l)) k = umap_at zero (timer_counters l) k" for k
    by (simp add: umap_at_upd)
  from Cons.IH[of ?l1] Cons.prems obtain l' where
    l': "fold_result (process_timer ps) kvs ?l1 = Inr l'" "kept ?l1 l'"
      "\<forall>k. umap_at zero (timer_counters l') k = umap_at zero (timer_counters ?l1) k"
      "\<forall>k. k \<notin> fst ` set kvs \<longrightarrow> map_of (timer_data l') k = map_of (timer_data ?l1) k"
      "\<forall>kv \<in> set kvs. \<exists>data. map_of (timer_data l') (fst kv) = Some data
        \<and> timer_summary ps (fst kv) (snd kv) (umap_at zero (timer_counters ?l1) (fst kv)) = Inr data"
    by auto
  have "map_of (timer_data l') (fst kv) = Some data"
    using l'(4) Cons.prems(2) by (simp add: table_simps)
  moreover have "kept l l'" using l'(2) by (simp add: kept_def)
  moreover have "\<forall>k. k \<notin> fst ` set (kv # kvs) \<longrightarrow> map_of (timer_data l') k = map_of (timer_data l) k"
    using l'(4) by (simp add: table_simps)
  ultimately show ?case using l'(1,3,5) d step by (simp add: tc)
qed

section \<open>process as a whole\<close>

definition processable :: "int list \<Rightarrow> ledger \<Rightarrow> bool" where
  "processable ps l = (ledger_ok l \<and> (\<forall>p \<in> set ps. pct_ok p) \<and> (\<forall>kv \<in> set (timers l). timer_ready kv))"

lemma process_counters_tables:
  "counters (process_counters freq l) = counters l" "timers (process_counters freq l) = timers l"
  "timer_counters (process_counters freq l) = timer_counters l" "gauges (process_counters freq l) = gauges l"
  "sets (process_counters freq l) = sets l" "timer_data (process_counters freq l) = timer_data l"
  "frequency (process_counters freq l) = frequency l"
  "statsd_metrics (process_counters freq l) = statsd_metrics l"
  by (simp_all add: process_counters_def)

lemma counter_rates_process_counters:
  assumes "umap_ok (counters l)"
  shows "map_of (counter_rates (process_counters freq l)) n =
    (case map_of (counters l) n of None \<Rightarrow> map_of (counter_rates l) n
     | Some c \<Rightarrow> Some (d_div c (d_of_int freq)))"
proof -
  let ?go = "fold (\<lambda>kv. umap_put (fst kv) (d_div (snd kv) (d_of_int freq))) (counters l) (counter_rates l)"
  show ?thesis
  proof (cases "map_of (counters l) n")
    case None
    then have "n \<notin> fst ` set (counters l)" by (simp add: map_of_eq_None_iff)
    from um.find_fold_notin[OF this] None show ?thesis by (simp add: process_counters_def)
  next
    case (Some c)
    then have "(n, c) \<in> set (counters l)" by (rule map_of_SomeD)
    from um.find_fold_in[OF _ this, where key = fst and val = "\<lambda>kv. d_div (snd kv) (d_of_int freq)"] assms Some show ?thesis
      by (simp add: process_counters_def umap_ok_def)
  qed
qed

lemma process_ok:
  assumes "processable ps l"
  shows "\<exists>l'. process start stop freq ps l = Inr l'
    \<and> kept (process_counters freq l) (l'\<lparr>statsd_metrics := statsd_metrics l\<rparr>)
    \<and> statsd_metrics l' = umap_put ''processing_time'' (sint (stop - start)) (statsd_metrics l)
    \<and> (\<forall>kv \<in> set (timers l). \<exists>data. map_of (timer_data l') (fst kv) = Some data
        \<and> timer_summary ps (fst kv) (snd kv) (umap_at zero (timer_counters l) (fst kv)) = Inr data)
    \<and> (\<forall>k. map_of (timers l) k = None \<longrightarrow> map_of (timer_data l') k = map_of (timer_data l) k)"
proof -
  have d: "distinct (map fst (timers l))" and r: "\<forall>kv \<in> set (timers l). timer_ready kv" "\<forall>p \<in> set ps. pct_ok p"
    using assms by (simp_all add: processable_def ledger_ok_def tables_ok_def umap_ok_def)
  from process_timers_ok[OF r d, of "process_counters freq l"] obtain l1 where
    l1: "fold_result (process_timer ps) (timers l) (process_counters freq l) = Inr l1"
      "kept (process_counters freq l) l1"
      "\<forall>k. k \<notin> fst ` set (timers l) \<longrightarrow> map_of (timer_data l1) k = map_of (timer_data l) k"
      "\<forall>kv \<in> set (timers l). \<exists>data. map_of (timer_data l1) (fst kv) = Some data
        \<and> timer_summary ps (fst kv) (snd kv) (umap_at zero (timer_counters l) (fst kv)) = Inr data"
    by (auto simp: process_counters_tables)
  then show ?thesis
    by (simp add: process_def kept_def process_counters_tables map_of_eq_None_iff)
qed

text \<open>
  \<^verbatim>\<open>boost::lexical_cast\<close> accepts \<open>nan\<close>, so a client can send one; these are the lines of clients
  that send none as the value of a timer. Counters, gauges and sets may hold any value.
\<close>

definition timers_clean :: "(string \<Rightarrow> double option) \<Rightarrow> string list \<Rightarrow> bool" where
  "timers_clean lexcast lines = (\<forall>l \<in> set lines. case parse_metric lexcast l of
     Bad \<Rightarrow> True | Good s \<Rightarrow> sm_type s = Timer \<longrightarrow> \<not> is_nan (sm_value s))"

lemma timers_clean_append:
  "timers_clean lexcast (xs @ ys) \<longleftrightarrow> timers_clean lexcast xs \<and> timers_clean lexcast ys"
  by (auto simp: timers_clean_def)

lemma timers_clean_sample:
  "timers_clean lexcast lines \<Longrightarrow> s \<in> set (samples lexcast Timer n lines) \<Longrightarrow> \<not> is_nan (sm_value s)"
  by (induction lines)
    (auto simp: timers_clean_def samples_def sample_of_def split: parsed.splits if_splits)

lemma timers_clean_parser: "(\<And>v x. lexcast v = Some x \<Longrightarrow> \<not> is_nan x) \<Longrightarrow> timers_clean lexcast lines"
  by (auto simp: timers_clean_def parse_metric_def classify_def Let_def
      split: parsed.splits if_splits option.splits)

lemma length_samples: "length (samples lexcast ty n lines) \<le> length lines"
  by (induction lines) (auto simp: samples_def sample_of_def split: parsed.split)

text \<open>What a history of lines leaves is processable.\<close>

lemma history_processable:
  assumes "timers_clean lexcast lines"
    and "int (length lines) \<le> int_max" "\<forall>p \<in> set ps. pct_ok p"
  shows "processable ps (buffer_all lexcast name lines new_ledger)"
proof -
  let ?l = "buffer_all lexcast name lines new_ledger"
  have l: "ledger_ok ?l" by (simp add: ledger_ok_buffer_all ledger_ok_new)
  have "timer_ready (k, vs)" if "(k, vs) \<in> set (timers ?l)" for k vs
  proof -
    from l that have m: "map_of (timers ?l) k = Some vs"
      by (simp add: ledger_ok_def tables_ok_def umap_ok_mem)
    then have vs: "vs = map sm_value (samples lexcast Timer k lines)" "vs \<noteq> []"
      using history_timers[of lexcast name lines k] by (auto simp: Let_def entry_def split: if_splits)
    have "timer_entry_ok k (Some vs) (map_of (timer_counters ?l) k)"
      using l m by (simp add: ledger_ok_def timers_ok_def) metis
    then have "k \<noteq> []" by (simp add: timer_entry_ok_def)
    moreover have "\<not> is_nan v" if "v \<in> set vs" for v
    proof -
      from that obtain s where s: "s \<in> set (samples lexcast Timer k lines)" "v = sm_value s"
        by (auto simp: vs(1))
      with timers_clean_sample[OF assms(1) s(1)] show ?thesis by simp
    qed
    moreover have "int (length vs) \<le> int_max"
      using length_samples[of lexcast Timer k lines] assms(2) by (simp add: vs(1))
    ultimately show ?thesis using vs(2) by (simp add: timer_ready_def values_ok_def)
  qed
  with l assms(3) show ?thesis by (auto simp: processable_def)
qed

section \<open>Properties\<close>

text \<open>
  A flush never faults: whatever lines were buffered, as long as no timer
  has a NaN as a value, the percentiles lie between -100 and 100, and the lines of an interval
  fit an \<^verbatim>\<open>int\<close>, \<open>process\<close> returns a ledger: no subscript is out of range, no conversion
  undefined, no sort given an invalid order, no empty vector asked for its front.
\<close>

theorem flush_never_faults:
  assumes "timers_clean lexcast lines"
    and "int (length lines) \<le> int_max" "\<forall>p \<in> set ps. pct_ok p"
  shows "\<exists>l'. process start stop freq ps (buffer_all lexcast name lines new_ledger) = Inr l'"
proof -
  have "processable ps (buffer_all lexcast name lines new_ledger)"
    by (rule history_processable) (use assms in auto)
  from process_ok[OF this] show ?thesis by blast
qed

theorem flush_never_faults_witness:
  "\<exists>l'. process 0 5 10 [90, - 50, 100]
     (buffer_all (\<lambda>v. if v = ''1'' then Some (Fin 1) else None) ''st'' [''t:1|ms'', ''t:1|ms'', ''bad''] new_ledger) = Inr l'"
  by (rule flush_never_faults) (auto intro!: timers_clean_parser simp: pct_ok_def split: if_splits)

text \<open>
  After \<open>process\<close> every counter has its rate, the counter divided by the flush frequency;
  names without a counter keep what they had, and the tables of raw data are untouched.
\<close>

theorem process_counter_rates:
  assumes "processable ps l" "process start stop freq ps l = Inr l'"
  shows "map_of (counter_rates l') n =
      (case map_of (counters l) n of None \<Rightarrow> map_of (counter_rates l) n
       | Some c \<Rightarrow> Some (d_div c (d_of_int freq)))
    \<and> counters l' = counters l \<and> timers l' = timers l \<and> gauges l' = gauges l \<and> sets l' = sets l"
proof -
  have "umap_ok (counters l)" using assms(1) by (simp add: processable_def ledger_ok_def tables_ok_def)
  from counter_rates_process_counters[OF this, of freq n] process_ok[OF assms(1), of start stop freq] assms(2)
  show ?thesis by (auto simp: kept_def process_counters_tables)
qed

lemma counter_sample_processable:
  "processable [90] (buffer_all sample_lex ''st'' [''hits:4|c'', ''t:4|ms'', ''t:1|ms''] new_ledger)"
  by (rule history_processable) (auto intro!: timers_clean_parser simp: pct_ok_def split: if_splits)

definition tick :: "double \<Rightarrow> string \<Rightarrow> sample" where
  "tick v t = \<lparr>sm_name = ''t'', sm_type = Timer, sm_value = v, sm_rate = Fin 1, sm_signed = False, sm_text = t\<rparr>"

lemma counter_sample_parsed:
  "parse_metric sample_lex ''hits:4|c'' = Good (hit (Fin 4) (Fin 1) ''4'')"
  "parse_metric sample_lex ''t:4|ms'' = Good (tick (Fin 4) ''4'')"
  "parse_metric sample_lex ''t:1|ms'' = Good (tick (Fin 1) ''1'')"
  unfolding hit_def tick_def by code_simp+

lemma counter_sample_tables:
  "map_of (counters (buffer_all sample_lex ''st'' [''hits:4|c'', ''t:4|ms'', ''t:1|ms''] new_ledger)) ''hits'' = Some (Fin 4)"
  "map_of (timers (buffer_all sample_lex ''st'' [''hits:4|c'', ''t:4|ms'', ''t:1|ms''] new_ledger)) ''t'' = Some [Fin 4, Fin 1]"
  "map_of (timer_counters (buffer_all sample_lex ''st'' [''hits:4|c'', ''t:4|ms'', ''t:1|ms''] new_ledger)) ''t'' = Some (Fin 2)"
proof -
  let ?ls = "[''hits:4|c'', ''t:4|ms'', ''t:1|ms'']"
  have "counter_terms sample_lex ''st'' ''hits'' ?ls = [d_mul (Fin 4) (d_div one one)]"
    by (simp add: counter_terms_def counter_sample_parsed counter_term_def hit_def tick_def)
  moreover have "d_add zero (d_mul (Fin 4) (d_div one one)) = Fin 4" by code_simp
  ultimately show "map_of (counters (buffer_all sample_lex ''st'' ?ls new_ledger)) ''hits'' = Some (Fin 4)"
    using history_counters[of sample_lex "''st''" ?ls "''hits''"] by (simp add: Let_def entry_def)
  have s: "samples sample_lex Timer ''t'' ?ls = [tick (Fin 4) ''4'', tick (Fin 1) ''1'']"
    by (simp add: samples_def counter_sample_parsed sample_of_def hit_def tick_def)
  then show "map_of (timers (buffer_all sample_lex ''st'' ?ls new_ledger)) ''t'' = Some [Fin 4, Fin 1]"
    using history_timers[of sample_lex "''st''" ?ls "''t''"] by (simp add: Let_def entry_def tick_def)
  have "d_add (d_add zero (d_div one one)) (d_div one one) = Fin 2" by code_simp
  with s show "map_of (timer_counters (buffer_all sample_lex ''st'' ?ls new_ledger)) ''t'' = Some (Fin 2)"
    using history_timer_counters[of sample_lex "''st''" ?ls "''t''"] by (simp add: Let_def entry_def tick_def)
qed

theorem process_counter_rates_witness:
  "\<exists>l'. process 0 5 10 [90] (buffer_all sample_lex ''st'' [''hits:4|c'', ''t:4|ms'', ''t:1|ms''] new_ledger) = Inr l'
     \<and> map_of (counter_rates l') ''hits'' = Some (d_div (Fin 4) (d_of_int 10))"
proof -
  from process_ok[OF counter_sample_processable, of 0 5 10] obtain l' where
    l': "process 0 5 10 [90] (buffer_all sample_lex ''st'' [''hits:4|c'', ''t:4|ms'', ''t:1|ms''] new_ledger) = Inr l'"
    by blast
  with process_counter_rates[OF counter_sample_processable this, of "''hits''"]
  show ?thesis by (simp add: counter_sample_tables)
qed

text \<open>
  C11. After \<open>process\<close> every timer has its aggregates: there is a permutation of its values in
  ascending order whose first and last elements are \<open>lower\<close> and \<open>upper\<close>, whose sum over its
  length is \<open>mean\<close>, and whose first \<open>round(p / 100 * count)\<close> values give the four figures of
  every configured percentile \<open>p\<close>, even when later percentiles are processed; \<open>count\<close> is the
  sample count.
\<close>

theorem timers_aggregated:
  assumes "processable ps l" "distinct (map abs ps)" "process start stop freq ps l = Inr l'"
    and "map_of (timers l) k = Some vs"
  shows "\<exists>data ys. map_of (timer_data l') k = Some data \<and> mset ys = mset vs \<and> ascending ys
    \<and> summary_of ps ys (umap_at zero (timer_counters l) k) data"
proof -
  from assms(4) have kv: "(k, vs) \<in> set (timers l)" by (rule map_of_SomeD)
  with process_ok[OF assms(1), of start stop freq] assms(3) obtain data where
    data: "map_of (timer_data l') k = Some data"
      "timer_summary ps k vs (umap_at zero (timer_counters l) k) = Inr data" by fastforce
  from assms(1) kv have r: "timer_ready (k, vs)" "\<forall>p \<in> set ps. pct_ok p"
    by (auto simp: processable_def)
  with timer_summary_spec[OF _ _ r(2) assms(2) data(2)] data(1) show ?thesis
    by (auto simp: timer_ready_def)
qed

theorem timers_aggregated_witness:
  "\<exists>l' data ys. process 0 5 10 [90] (buffer_all sample_lex ''st'' [''hits:4|c'', ''t:4|ms'', ''t:1|ms''] new_ledger) = Inr l'
     \<and> map_of (timer_data l') ''t'' = Some data \<and> mset ys = {#Fin 4, Fin 1#} \<and> ascending ys
     \<and> summary_of [90] ys (Fin 2) data"
proof -
  from process_ok[OF counter_sample_processable, of 0 5 10] obtain l' where
    l': "process 0 5 10 [90] (buffer_all sample_lex ''st'' [''hits:4|c'', ''t:4|ms'', ''t:1|ms''] new_ledger) = Inr l'"
    by blast
  from timers_aggregated[OF counter_sample_processable _ this counter_sample_tables(2)] l'
  show ?thesis by (simp add: umap_at_def counter_sample_tables(3))
qed

text \<open>
  A timer with a single value gets, for every percentile, the figures \<open>count\<close> 0, \<open>sum\<close> 0
  and \<open>mean\<close> NaN (0 divided by 0) beside its right \<open>upper\<close>: the threshold rank is computed
  only when there is more than one value.
\<close>

theorem single_value_percentiles:
  assumes "key \<noteq> []" "\<not> is_nan v" "\<forall>p \<in> set ps. pct_ok p" "distinct (map abs ps)" "p \<in> set ps"
  shows "\<exists>data. timer_summary ps key [v] tc = Inr data
    \<and> pct_figures data p = (Some v, Some (Fin 0), Some (Fin 0), Some NaN)
    \<and> map_of data ''mean'' = Some (d_div (d_add zero v) one)"
proof -
  have v: "values_ok [v]" using assms(2) by (simp add: values_ok_def)
  from timer_summary_ok[OF assms(1) v assms(3), of tc] obtain data where
    data: "timer_summary ps key [v] tc = Inr data" ..
  from timer_summary_spec[OF assms(1) v assms(3,4) data] obtain ys where
    "mset ys = mset [v]" "summary_of ps ys tc data" by blast
  then have s: "summary_of ps [v] tc data" by simp
  have "rank_of 1 p = 0" by (simp add: rank_of_def)
  with s assms(5) have "pct_figures data p = (Some v, Some (Fin 0), Some (Fin 0), Some NaN)"
    by (simp add: summary_of_def expected_figures_def Let_def d_of_int_def fl_def d_div_zero_zero)
  moreover have "map_of data ''mean'' = Some (d_div (d_add zero v) one)"
    using s d_of_int_exact[of 1] by (simp add: summary_of_def)
  ultimately show ?thesis using data by blast
qed

theorem single_value_percentiles_witness:
  "\<exists>data. timer_summary [90] ''t'' [Fin 320] one = Inr data
    \<and> pct_figures data 90 = (Some (Fin 320), Some (Fin 0), Some (Fin 0), Some NaN)
    \<and> map_of data ''mean'' = Some (d_div (d_add zero (Fin 320)) one)"
  using single_value_percentiles[of "''t''" "Fin 320" "[90]" 90 one] by (simp add: pct_ok_def)

lemma num_in_threshold_200:
  assumes "0 \<le> cnt" "cnt \<le> 2 ^ 30"
  shows "num_in_threshold (d_of_int 200) cnt = Inr (2 * cnt)"
proof -
  have "d_div (d_of_int 200) (d_of_int 100) = Fin 2" by code_simp
  moreover have "d_mul (Fin 2) (d_of_int cnt) = Fin (of_int (2 * cnt))"
    using representable_int[of "2 * cnt"] fl_representable[of "of_int (2 * cnt)"] assms
    by (simp add: d_of_int_exact d_mul_def is_zero_def signed_zero_def)
  moreover have "c_round (Fin (of_int (2 * cnt))) = Fin (of_int (2 * cnt))"
    using assms by (simp add: c_round_def signed_zero_def Let_def) linarith
  ultimately show ?thesis using assms d_to_int_of_int[of 0 "2 * cnt" "2 ^ 64 - 1"]
    by (simp add: num_in_threshold_def)
qed

text \<open>
  A configured percentile of 200 reads past the end of the sorted values of every timer
  with two values or more: its rank is twice their number. Nothing checks the percentiles.
\<close>

theorem percentile_200_out_of_bounds:
  assumes "key \<noteq> []" "values_ok vs" "2 \<le> length vs" "length vs \<le> 2 ^ 30"
  shows "timer_summary (200 # ps) key vs tc = Inl Out_of_bounds"
proof -
  let ?ys = "sort_by d_lt vs" and ?cnt = "int (length vs)"
  have "pct_value 200 = Inr (d_of_int 200)" by (simp add: pct_value_def)
  moreover have "num_in_threshold (d_of_int 200) ?cnt = Inr (2 * ?cnt)"
    using assms(4) by (intro num_in_threshold_200) auto
  moreover have "vec_at ?ys (2 * ?cnt - 1) = Inl Out_of_bounds"
    using assms(3) by (intro vec_at_out) (cases vs; simp)
  moreover have "vs \<noteq> []" using assms(3) by auto
  ultimately have "percentile_step ?ys ?cnt 200 (last ?ys, []) = Inl Out_of_bounds"
    using assms(3) by (simp add: percentile_step_def)
  then show ?thesis by (simp add: timer_summary_sorted[OF assms(1,2)] Let_def)
qed

theorem percentile_200_out_of_bounds_witness:
  "timer_summary [200] ''t'' [Fin 1, Fin 2] (Fin 2) = Inl Out_of_bounds"
  using percentile_200_out_of_bounds[of "''t''" "[Fin 1, Fin 2]" "[]"] by (simp add: values_ok_def)

text \<open>
  \<^verbatim>\<open>boost::lexical_cast<double>\<close> accepts the text \<open>nan\<close>. One NaN among the values of a
  timer that also holds two different numbers leaves \<^verbatim>\<open>std::sort\<close> without a strict weak
  order, which is undefined behaviour a client can cause.
\<close>

theorem nan_value_breaks_sort:
  assumes "NaN \<in> set vs" "a \<in> set vs" "b \<in> set vs" "d_lt a b" "key \<noteq> []"
  shows "timer_summary ps key vs tc = Inl Bad_comparator"
proof -
  have "incomparable d_lt a NaN" "incomparable d_lt NaN b" "\<not> incomparable d_lt a b"
    using assms(4) by (simp_all add: incomparable_def d_lt_def)
  then have "\<not> strict_weak_order d_lt vs"
    using assms(1-3) unfolding strict_weak_order_def by blast
  then show ?thesis using assms(5) by (simp add: timer_summary_def std_sort_def)
qed

theorem nan_value_breaks_sort_witness:
  "timer_summary [90] ''t'' [Fin 1, NaN, Fin 2] (Fin 3) = Inl Bad_comparator"
  by (rule nan_value_breaks_sort[of _ "Fin 1" "Fin 2"]) (simp_all add: d_lt_def d_rank_def)

text \<open>
  A copied ledger carries every table but \<open>frequency\<close>, which starts empty.
\<close>

theorem copy_drops_frequency:
  "copy_ledger l = l\<lparr>frequency := []\<rparr> \<and> (copy_ledger l = l \<longleftrightarrow> frequency l = [])"
proof -
  have "copy_ledger l = l\<lparr>frequency := []\<rparr>" by (simp add: copy_ledger_def)
  moreover have "l\<lparr>frequency := []\<rparr> = l \<longleftrightarrow> frequency l = []" by (cases l) auto
  ultimately show ?thesis by simp
qed

end
