(* ===== verification/Worker.thy ===== *)
theory Worker
  imports Ledger_Process
begin

text \<open>
  The aggregator's worker thread, \<^verbatim>\<open>include/statsdcc/workers/aggregator/worker.h\<close> and
  \<^verbatim>\<open>src/workers/aggregator/worker.cc\<close>, as a state machine: other threads submit metrics and
  raise the interrupt flag, the worker's own loop pops, flushes and buffers.
  The lock-free queue is the pair of parameters \<open>push\<close>, \<open>pop\<close>. The test of \<^verbatim>\<open>done\<close>, the rest of
  an iteration up to the start of its flush, and the part after it are steps of their own, since
  other threads may act in between. Between the pop and the test of the interrupt flag nothing
  they do makes a difference: an interrupt has the effect it has before the pop, a submission and
  \<^verbatim>\<open>done\<close> that of one after the step.
\<close>

section \<open>The work queue\<close>

text \<open>
  What boost documents of \<^verbatim>\<open>lockfree::queue\<close> with a fixed capacity: first in, first out; a
  push is refused only when the capacity is used up, a pop only when the queue is empty.
\<close>

definition fifo_queue ::
  "nat \<Rightarrow> (string \<Rightarrow> 'q \<Rightarrow> 'q option) \<Rightarrow> ('q \<Rightarrow> (string \<times> 'q) option) \<Rightarrow> ('q \<Rightarrow> string list) \<Rightarrow> bool"
where
  "fifo_queue cap push pop items =
     (\<forall>x q. (case push x q of Some q' \<Rightarrow> length (items q) < cap \<and> items q' = items q @ [x]
               | None \<Rightarrow> cap \<le> length (items q))
          \<and> (case pop q of Some (y, q') \<Rightarrow> items q = y # items q' | None \<Rightarrow> items q = []))"

locale queue_client =
  fixes push :: "string \<Rightarrow> 'q \<Rightarrow> 'q option" and pop :: "'q \<Rightarrow> (string \<times> 'q) option"
    and items :: "'q \<Rightarrow> string list" and cap :: nat
  assumes push_Some: "push x q = Some q' \<Longrightarrow> length (items q) < cap \<and> items q' = items q @ [x]"
    and push_None: "push x q = None \<Longrightarrow> cap \<le> length (items q)"
    and pop_Some: "pop q = Some (y, q') \<Longrightarrow> items q = y # items q'"
    and pop_None: "pop q = None \<Longrightarrow> items q = []"
begin

lemma pop_iff: "pop q = None \<longleftrightarrow> items q = []"
  using pop_None pop_Some by (cases "pop q") force+

lemma push_iff: "push x q = None \<longleftrightarrow> cap \<le> length (items q)"
  using push_None push_Some by (cases "push x q") force+

lemma pop_items: "items q = y # ys \<Longrightarrow> \<exists>q'. pop q = Some (y, q') \<and> items q' = ys"
  using pop_None pop_Some by (cases "pop q") force+

lemma within_capacity: "push x q = Some q' \<Longrightarrow> length (items q') \<le> cap"
  using push_Some by fastforce

end

text \<open>A list with a bound is such a queue.\<close>

definition list_push :: "nat \<Rightarrow> 'a \<Rightarrow> 'a list \<Rightarrow> 'a list option" where
  "list_push cap x q = (if length q < cap then Some (q @ [x]) else None)"

fun list_pop :: "'a list \<Rightarrow> ('a \<times> 'a list) option" where
  "list_pop [] = None"
| "list_pop (x # q) = Some (x, q)"

lemma list_pop_Some: "list_pop q = Some (x, q') \<longleftrightarrow> q = x # q'"
  by (cases q) auto

lemma list_pop_None: "list_pop q = None \<longleftrightarrow> q = []"
  by (cases q) auto

interpretation list_queue: queue_client "list_push cap" list_pop "\<lambda>q. q" cap for cap
  by unfold_locales (auto simp: list_push_def list_pop_Some list_pop_None split: if_splits)

lemma fifo_queue_client:
  assumes "fifo_queue cap push pop items"
  shows "queue_client push pop items cap"
proof
  fix x y q q'
  from assms have laws: "case push x q of Some q' \<Rightarrow> length (items q) < cap \<and> items q' = items q @ [x]
      | None \<Rightarrow> cap \<le> length (items q)"
    "case pop q of Some (y, q') \<Rightarrow> items q = y # items q' | None \<Rightarrow> items q = []"
    unfolding fifo_queue_def by blast+
  show "push x q = Some q' \<Longrightarrow> length (items q) < cap \<and> items q' = items q @ [x]"
    "push x q = None \<Longrightarrow> cap \<le> length (items q)"
    "pop q = Some (y, q') \<Longrightarrow> items q = y # items q'" "pop q = None \<Longrightarrow> items q = []"
    using laws by simp_all
qed

lemma fifo_list_queue: "fifo_queue cap (list_push cap) list_pop (\<lambda>q. q)"
proof -
  have "case pop q of Some (y, q') \<Rightarrow> q = y # q' | None \<Rightarrow> q = []" if "pop = list_pop"
    for q :: "string list" and pop by (cases q) (simp_all add: that)
  then show ?thesis by (simp add: fifo_queue_def list_push_def)
qed

section \<open>State and operations\<close>

text \<open>
  \<^verbatim>\<open>metrics_dropped\<close>, \<^verbatim>\<open>metrics_rate\<close> and \<^verbatim>\<open>bad_lines_seen\<close> are atomics that the constructor
  does not initialise: their first values are arguments of \<open>new_worker\<close>. \<open>cnt\<close> is the local
  \<^verbatim>\<open>count\<close> of \<^verbatim>\<open>process\<close>, \<open>in_loop\<close> says that \<^verbatim>\<open>done\<close> has been tested for the iteration,
  \<open>pending\<close> is the popped metric while its flush is under way, and
  \<open>flushed\<close> the calls of \<^verbatim>\<open>BackendContainer::flush\<close> started so far.
\<close>

record 'q worker =
  wid :: int
  work_queue :: 'q
  current_ledger :: ledger
  interrupt_flag :: bool
  is_done :: bool
  cnt :: int
  in_loop :: bool
  pending :: "string option"
  metrics_dropped :: int
  metrics_rate :: int
  seen_bad :: int
  metrics_frequency :: "(string, int) umap"
  flushed :: "(ledger \<times> int) list"

definition new_worker :: "int \<Rightarrow> 'q \<Rightarrow> int \<Rightarrow> int \<Rightarrow> int \<Rightarrow> 'q worker" where
  "new_worker i q dropped rate bad =
     \<lparr>wid = i, work_queue = q, current_ledger = new_ledger, interrupt_flag = False, is_done = False,
      cnt = 0, in_loop = False, pending = None, metrics_dropped = dropped, metrics_rate = rate, seen_bad = bad,
      metrics_frequency = [], flushed = []\<rparr>"

definition submit :: "(string \<Rightarrow> 'q \<Rightarrow> 'q option) \<Rightarrow> string \<Rightarrow> 'q worker \<Rightarrow> 'q worker" where
  "submit push metric w =
     (case push metric (work_queue w) of
        None \<Rightarrow> w\<lparr>metrics_dropped := (metrics_dropped w + 1) mod 2 ^ 64\<rparr>
      | Some q \<Rightarrow> w\<lparr>work_queue := q\<rparr>)"

definition interrupt :: "'q worker \<Rightarrow> 'q worker" where
  "interrupt w = w\<lparr>interrupt_flag := True\<rparr>"

definition stop_worker :: "'q worker \<Rightarrow> 'q worker" where
  "stop_worker w = w\<lparr>is_done := True\<rparr>"

text \<open>
  The constructor takes the next number from the static \<^verbatim>\<open>max_id\<close>, also when its thread cannot be
  started and the exception leaves it.
\<close>

definition construct_worker ::
  "bool \<Rightarrow> 'q \<Rightarrow> int \<Rightarrow> int \<Rightarrow> int \<Rightarrow> int \<Rightarrow> int \<times> 'q worker option"
where
  "construct_worker up q dropped rate bad max_id =
     (max_id + 1, if up then Some (new_worker (max_id + 1) q dropped rate bad) else None)"

text \<open>The figures of the status page are read and written under a mutex of their own.\<close>

definition get_metrics_frequency :: "'q worker \<Rightarrow> (string, int) umap" where
  "get_metrics_frequency w = metrics_frequency w"

definition set_metrics_frequency :: "(string, int) umap \<Rightarrow> 'q worker \<Rightarrow> 'q worker" where
  "set_metrics_frequency freq w = w\<lparr>metrics_frequency := freq\<rparr>"

declare get_metrics_frequency_def [simp] set_metrics_frequency_def [simp]

text \<open>Integer division of C, and the conversion of its result to \<^verbatim>\<open>unsigned long\<close>.\<close>

definition div_int :: "int \<Rightarrow> int \<Rightarrow> int result" where
  "div_int a b = (if b = 0 then Inl Division_by_zero else Inr (sgn a * sgn b * (\<bar>a\<bar> div \<bar>b\<bar>)))"

text \<open>The settings a worker reads: \<open>config->name\<close>, \<open>frequency\<close> and \<open>percentiles\<close>.\<close>

record settings =
  set_name :: string
  set_frequency :: int
  set_percentiles :: "int list"

text \<open>The end of an iteration: the metric goes into the current ledger.\<close>

definition buffer_metric :: "(string \<Rightarrow> double option) \<Rightarrow> settings \<Rightarrow> string \<Rightarrow> 'q worker \<Rightarrow> 'q worker result" where
  "buffer_metric lexcast st metric w =
     bind_result (add_int32 (cnt w) 1) (\<lambda>c. Inr
       (w\<lparr>current_ledger := buffer lexcast (set_name st) metric (current_ledger w), cnt := c\<rparr>))"

text \<open>
  The flush of an interrupted worker: aggregate, hand a copy to the backends, publish the
  figures of the status page, start a new ledger. \<open>start\<close> and \<open>stop\<close> are the clock readings
  of \<open>process\<close>.
\<close>

definition flush_ledger :: "64 word \<Rightarrow> 64 word \<Rightarrow> settings \<Rightarrow> 'q worker \<Rightarrow> 'q worker result" where
  "flush_ledger start stop st w =
     bind_result (process start stop (set_frequency st) (set_percentiles st) (current_ledger w)) (\<lambda>l.
       bind_result (bad_lines_seen (set_name st) l) (\<lambda>bad. Inr
         ((set_metrics_frequency (frequency l)
             (w\<lparr>flushed := flushed w @ [(copy_ledger l, wid w)], seen_bad := bad\<rparr>))\<lparr>current_ledger := new_ledger\<rparr>)))"

definition finish_flush :: "settings \<Rightarrow> 'q worker \<Rightarrow> 'q worker result" where
  "finish_flush st w =
     bind_result (div_int (cnt w) (set_frequency st)) (\<lambda>r. Inr
       (w\<lparr>metrics_rate := r mod 2 ^ 64, cnt := 0, interrupt_flag := False\<rparr>))"

text \<open>
  One step of the loop of \<^verbatim>\<open>Worker::process\<close>: the test of \<^verbatim>\<open>done\<close>, an iteration up to the flush, or
  the rest of an iteration that flushed. An empty queue is a sleep and the end of the iteration.
  A thread that has seen \<^verbatim>\<open>done\<close> has left the loop.
\<close>

definition work ::
  "(string \<Rightarrow> double option) \<Rightarrow> ('q \<Rightarrow> (string \<times> 'q) option) \<Rightarrow> settings \<Rightarrow> 64 word \<Rightarrow> 64 word \<Rightarrow>
    'q worker \<Rightarrow> 'q worker result"
where
  "work lexcast pop st start stop w =
     (case pending w of
        Some metric \<Rightarrow> bind_result (finish_flush st (w\<lparr>pending := None\<rparr>)) (buffer_metric lexcast st metric)
      | None \<Rightarrow>
          if \<not> in_loop w then Inr (w\<lparr>in_loop := \<not> is_done w\<rparr>)
          else (case pop (work_queue w) of
                  None \<Rightarrow> Inr (w\<lparr>in_loop := False\<rparr>)
                | Some (metric, q) \<Rightarrow>
                    let w = w\<lparr>work_queue := q, in_loop := False\<rparr> in
                    if interrupt_flag w then flush_ledger start stop st (w\<lparr>pending := Some metric\<rparr>)
                    else buffer_metric lexcast st metric w))"

text \<open>What a step that does not fault can have been, and what its parts leave.\<close>

lemma work_cases:
  assumes "work lexcast pop st start stop w = Inr w'"
  obtains (idle) b where "w' = w\<lparr>in_loop := b\<rparr>" "pending w = None"
      "if in_loop w then \<not> b \<and> pop (work_queue w) = None else b \<longleftrightarrow> \<not> is_done w"
  | (buffered) m q where "pending w = None" "pop (work_queue w) = Some (m, q)" "\<not> interrupt_flag w"
      "in_loop w" "buffer_metric lexcast st m (w\<lparr>work_queue := q, in_loop := False\<rparr>) = Inr w'"
  | (flushing) m q where "pending w = None" "pop (work_queue w) = Some (m, q)" "interrupt_flag w"
      "in_loop w" "flush_ledger start stop st (w\<lparr>work_queue := q, in_loop := False, pending := Some m\<rparr>) = Inr w'"
  | (finishing) m w1 where "pending w = Some m" "finish_flush st (w\<lparr>pending := None\<rparr>) = Inr w1"
      "buffer_metric lexcast st m w1 = Inr w'"
proof (cases "pending w")
  case (Some m)
  with assms show ?thesis by (auto simp: work_def bind_result_Inr_iff intro: finishing)
next
  case None
  show ?thesis
  proof (cases "in_loop w")
    case False
    with None assms show ?thesis by (intro idle[of "\<not> is_done w"]) (auto simp: work_def)
  next
    case True
    show ?thesis
    proof (cases "pop (work_queue w)")
      case empty: None
      with None True assms show ?thesis by (intro idle[of False]) (auto simp: work_def)
    next
      case (Some x)
      then obtain m q where "pop (work_queue w) = Some (m, q)" by (cases x) auto
      with None True assms show ?thesis
        by (cases "interrupt_flag w") (auto simp: work_def intro: buffered flushing)
    qed
  qed
qed

lemma buffer_metric_Inr:
  "buffer_metric lexcast st m w = Inr w' \<Longrightarrow> in_int32 (cnt w + 1)
    \<and> w' = w\<lparr>current_ledger := buffer lexcast (set_name st) m (current_ledger w), cnt := cnt w + 1\<rparr>"
  by (auto simp: buffer_metric_def add_int32_def split: if_splits)

lemma finish_flush_Inr:
  "finish_flush st w = Inr w' \<Longrightarrow> \<exists>r. w' = w\<lparr>metrics_rate := r, cnt := 0, interrupt_flag := False\<rparr>"
  by (auto simp: finish_flush_def bind_result_Inr_iff)

lemma flush_ledger_Inr:
  "flush_ledger start stop st w = Inr w' \<Longrightarrow> \<exists>l bad.
    process start stop (set_frequency st) (set_percentiles st) (current_ledger w) = Inr l
    \<and> w' = w\<lparr>flushed := flushed w @ [(copy_ledger l, wid w)], seen_bad := bad,
            metrics_frequency := frequency l, current_ledger := new_ledger\<rparr>"
  by (auto simp: flush_ledger_def bind_result_Inr_iff)

lemma work_frame:
  assumes "work lexcast pop st start stop w = Inr w'"
  shows "metrics_dropped w' = metrics_dropped w \<and> wid w' = wid w \<and> is_done w' = is_done w
    \<and> (work_queue w' = work_queue w \<or> (\<exists>m. pop (work_queue w) = Some (m, work_queue w')))"
  using assms
proof (cases rule: work_cases)
  case (buffered m q)
  then show ?thesis by (auto dest: buffer_metric_Inr)
next
  case (flushing m q)
  then show ?thesis by (auto dest: flush_ledger_Inr)
next
  case (finishing m w1)
  then show ?thesis by (auto dest!: buffer_metric_Inr finish_flush_Inr)
qed simp

text \<open>Workers constructed one after the other are numbered from 1.\<close>

fun construct_workers :: "nat \<Rightarrow> 'q \<Rightarrow> int \<Rightarrow> 'q worker list" where
  "construct_workers 0 q max_id = []"
| "construct_workers (Suc n) q max_id =
     (case construct_worker True q 0 0 0 max_id of
        (max_id, Some w) \<Rightarrow> w # construct_workers n q max_id
      | (max_id, None) \<Rightarrow> [])"

lemma construct_workers_numbers:
  "construct_workers n q k = map (\<lambda>i. new_worker (k + int i + 1) q 0 0 0) [0..<n]"
proof (induction n arbitrary: k)
  case (Suc n)
  have "[0..<Suc n] = 0 # map Suc [0..<n]" by (simp add: map_Suc_upt upt_conv_Cons del: upt_Suc)
  then have "map (\<lambda>i. new_worker (k + int i + 1) q 0 0 0) [0..<Suc n]
      = new_worker (k + 1) q 0 0 0 # map (\<lambda>i. new_worker (k + 1 + int i + 1) q 0 0 0) [0..<n]"
    by (simp add: algebra_simps del: upt_Suc)
  with Suc.IH[of "k + 1"] show ?case by (simp add: construct_worker_def)
qed simp

section \<open>Executions\<close>

text \<open>
  What can happen to a worker, with the metrics that were submitted so far and whether each
\<close>

type_synonym submissions = "(string \<times> bool) list"

definition accepted :: "submissions \<Rightarrow> string list" where
  "accepted subs = map fst (filter snd subs)"

definition rejected :: "submissions \<Rightarrow> string list" where
  "rejected subs = map fst (filter (\<lambda>s. \<not> snd s) subs)"

lemma accepted_simps [simp]:
  "accepted [] = []" "accepted (s @ [(m, True)]) = accepted s @ [m]"
  "accepted (s @ [(m, False)]) = accepted s"
  "rejected [] = []" "rejected (s @ [(m, False)]) = rejected s @ [m]"
  "rejected (s @ [(m, True)]) = rejected s"
  by (simp_all add: accepted_def rejected_def)

inductive reach ::
  "(string \<Rightarrow> double option) \<Rightarrow> (string \<Rightarrow> 'q \<Rightarrow> 'q option) \<Rightarrow> ('q \<Rightarrow> (string \<times> 'q) option) \<Rightarrow> settings \<Rightarrow>
    'q worker \<Rightarrow> submissions \<Rightarrow> 'q worker \<Rightarrow> bool"
  for lexcast push pop st w0
where
  start: "reach lexcast push pop st w0 [] w0"
| submit: "reach lexcast push pop st w0 subs w \<Longrightarrow>
    reach lexcast push pop st w0 (subs @ [(m, push m (work_queue w) \<noteq> None)]) (submit push m w)"
| interrupt: "reach lexcast push pop st w0 subs w \<Longrightarrow> reach lexcast push pop st w0 subs (interrupt w)"
| stop: "reach lexcast push pop st w0 subs w \<Longrightarrow> reach lexcast push pop st w0 subs (stop_worker w)"
| work: "reach lexcast push pop st w0 subs w \<Longrightarrow> work lexcast pop st start stop w = Inr w' \<Longrightarrow>
    reach lexcast push pop st w0 subs w'"


inductive_cases reach_work: "reach lexcast push pop st w0 subs w"

section \<open>The ledger stream\<close>

text \<open>
  The abstract view of a worker: the accepted metrics, in order, are cut into the intervals
  that were flushed, the interval under way, the metric whose flush is under way, and the
  metrics still queued.
\<close>

definition flush_of ::
  "(string \<Rightarrow> double option) \<Rightarrow> settings \<Rightarrow> int \<Rightarrow> string list \<Rightarrow> ledger \<times> int \<Rightarrow> bool"
where
  "flush_of lexcast st i lines f =
     (\<exists>start stop l. process start stop (set_frequency st) (set_percentiles st)
         (buffer_all lexcast (set_name st) lines new_ledger) = Inr l \<and> f = (copy_ledger l, i))"

definition stream_inv ::
  "(string \<Rightarrow> double option) \<Rightarrow> settings \<Rightarrow> ('q \<Rightarrow> string list) \<Rightarrow> string list \<Rightarrow> 'q worker \<Rightarrow> bool"
where
  "stream_inv lexcast st items acc w =
     (\<exists>intervals cur. acc = concat intervals @ cur @ (case pending w of None \<Rightarrow> [] | Some m \<Rightarrow> [m])
           @ items (work_queue w)
       \<and> current_ledger w = buffer_all lexcast (set_name st) cur new_ledger
       \<and> list_all2 (flush_of lexcast st (wid w)) intervals (flushed w)
       \<and> (pending w = None \<longrightarrow> cnt w = int (length cur)) \<and> (pending w \<noteq> None \<longrightarrow> cur = []))"

lemma stream_inv_in_loop [simp]: "stream_inv lexcast st items acc (w\<lparr>in_loop := b\<rparr>) = stream_inv lexcast st items acc w"
  by (simp add: stream_inv_def)

context queue_client begin

lemma stream_inv_submit:
  assumes "stream_inv lexcast st items acc w"
  shows "stream_inv lexcast st items (if push m (work_queue w) = None then acc else acc @ [m]) (submit push m w)"
proof (cases "push m (work_queue w)")
  case None
  with assms show ?thesis by (simp add: stream_inv_def submit_def)
next
  case (Some q)
  with push_Some[OF Some] assms show ?thesis
    by (simp add: stream_inv_def submit_def)
qed

lemma stream_inv_buffer:
  assumes "acc = concat intervals @ cur @ m # items (work_queue w)"
    and "current_ledger w = buffer_all lexcast (set_name st) cur new_ledger"
    and "list_all2 (flush_of lexcast st (wid w)) intervals (flushed w)" "pending w = None"
    and "cnt w = int (length cur)"
    and "buffer_metric lexcast st m w = Inr w'"
  shows "stream_inv lexcast st items acc w'"
proof -
  from buffer_metric_Inr[OF assms(6)]
  have w': "w' = w\<lparr>current_ledger := buffer lexcast (set_name st) m (current_ledger w), cnt := cnt w + 1\<rparr>" ..
  show ?thesis unfolding stream_inv_def
    by (intro exI[of _ intervals] exI[of _ "cur @ [m]"]) (use assms(1-5) in \<open>simp add: w'\<close>)
qed

lemma stream_inv_flush:
  assumes "acc = concat intervals @ cur @ m # items (work_queue w)"
    and "current_ledger w = buffer_all lexcast (set_name st) cur new_ledger"
    and "list_all2 (flush_of lexcast st (wid w)) intervals (flushed w)" "pending w = Some m"
    and "flush_ledger start stop st w = Inr w'"
  shows "stream_inv lexcast st items acc w'"
proof -
  from assms(5) obtain l bad where
    l: "process start stop (set_frequency st) (set_percentiles st) (current_ledger w) = Inr l" and
    w': "w' = w\<lparr>flushed := flushed w @ [(copy_ledger l, wid w)], seen_bad := bad,
            metrics_frequency := frequency l, current_ledger := new_ledger\<rparr>"
    by (auto simp: flush_ledger_def bind_result_Inr_iff)
  from l assms(2) have "flush_of lexcast st (wid w) cur (copy_ledger l, wid w)"
    by (auto simp: flush_of_def)
  with assms(3) have "list_all2 (flush_of lexcast st (wid w)) (intervals @ [cur]) (flushed w')"
    by (simp add: w' list_all2_appendI)
  then show ?thesis unfolding stream_inv_def
    by (intro exI[of _ "intervals @ [cur]"] exI[of _ "[]"]) (use assms(1,4) in \<open>simp add: w'\<close>)
qed

lemma stream_inv_work:
  assumes inv: "stream_inv lexcast st items acc w" and step: "work lexcast pop st start stop w = Inr w'"
  shows "stream_inv lexcast st items acc w'"
proof -
  from inv obtain ints cur where
    acc: "acc = concat ints @ cur @ (case pending w of None \<Rightarrow> [] | Some m \<Rightarrow> [m]) @ items (work_queue w)" and
    cur: "current_ledger w = buffer_all lexcast (set_name st) cur new_ledger" and
    ints: "list_all2 (flush_of lexcast st (wid w)) ints (flushed w)" and
    pend: "pending w = None \<longrightarrow> cnt w = int (length cur)" "pending w \<noteq> None \<longrightarrow> cur = []"
    by (auto simp: stream_inv_def)
  from step show ?thesis
  proof (cases rule: work_cases)
    case idle
    with inv show ?thesis by simp
  next
    case (buffered m q)
    show ?thesis
      by (rule stream_inv_buffer[OF _ _ _ _ _ buffered(5)]) (use acc cur ints pend buffered(1) pop_Some[OF buffered(2)] in auto)
  next
    case (flushing m q)
    show ?thesis
      by (rule stream_inv_flush[OF _ _ _ _ flushing(5)]) (use acc cur ints flushing(1) pop_Some[OF flushing(2)] in auto)
  next
    case (finishing m w1)
    from finish_flush_Inr[OF finishing(2)] show ?thesis
      by (intro stream_inv_buffer[OF _ _ _ _ _ finishing(3)]) (use acc cur ints pend finishing(1) in auto)
  qed
qed

lemma stream_inv_reach:
  assumes "reach lexcast push pop st w0 subs w" "w0 = new_worker i q0 d r b" "items q0 = []"
  shows "stream_inv lexcast st items (accepted subs) w"
  using assms
proof (induction rule: reach.induct)
  case start
  then show ?case by (simp add: stream_inv_def new_worker_def)
next
  case (submit subs w m)
  then show ?case
    using stream_inv_submit[of lexcast st "accepted subs" w m]
    by (cases "push m (work_queue w)") (simp_all split: if_splits)
next
  case (interrupt subs w)
  then show ?case by (simp add: stream_inv_def interrupt_def)
next
  case (stop subs w)
  then show ?case by (simp add: stream_inv_def stop_worker_def)
next
  case (work subs w start stop w')
  then show ?case using stream_inv_work by blast
qed

lemma capacity_reach:
  assumes "reach lexcast push pop st w0 subs w" "length (items (work_queue w0)) \<le> cap"
  shows "length (items (work_queue w)) \<le> cap"
  using assms
proof (induction rule: reach.induct)
  case (submit subs w m)
  then show ?case
    by (cases "push m (work_queue w)") (auto simp: submit_def dest: within_capacity)
next
  case (work subs w start stop w')
  with work_frame[OF work.hyps(2)] show ?case by (auto dest!: pop_Some)
qed (simp_all add: interrupt_def stop_worker_def)

lemma idle_reach:
  assumes "reach lexcast push pop st w subs w'" "subs = []" "items (work_queue w) = []" "pending w = None"
  shows "flushed w' = flushed w \<and> current_ledger w' = current_ledger w \<and> cnt w' = cnt w
    \<and> work_queue w' = work_queue w \<and> pending w' = None"
  using assms
proof (induction rule: reach.induct)
  case (work subs u start stop u')
  then have "pop (work_queue u) = None" "pending u = None" by (simp_all add: pop_iff)
  with work.hyps(2) obtain b where "u' = u\<lparr>in_loop := b\<rparr>" by (auto elim: work_cases)
  with work show ?case by simp
qed (simp_all add: interrupt_def stop_worker_def)

end

lemma dropped_reach:
  assumes "reach lexcast push pop st w0 subs w"
  shows "metrics_dropped w mod 2 ^ 64 = (metrics_dropped w0 + int (length (rejected subs))) mod 2 ^ 64"
  using assms
proof (induction rule: reach.induct)
  case (submit subs w m)
  have "(metrics_dropped w + 1) mod 2 ^ 64 mod 2 ^ 64 =
      (metrics_dropped w0 + int (length (rejected subs)) + 1) mod 2 ^ 64"
    using submit.IH by (metis mod_add_left_eq mod_mod_trivial)
  with submit.IH show ?case
    by (cases "push m (work_queue w)") (simp_all add: submit_def algebra_simps)
next
  case (work subs w start stop w')
  with work_frame[OF work.hyps(2)] show ?case by simp
qed (simp_all add: interrupt_def stop_worker_def)

section \<open>Steps without a fault\<close>

definition settings_ok :: "settings \<Rightarrow> bool" where
  "settings_ok st = (set_frequency st \<noteq> 0 \<and> (\<forall>p \<in> set (set_percentiles st). pct_ok p))"

text \<open>No client sends a counter that carries the name of the bad line counter.\<close>

definition unforged :: "(string \<Rightarrow> double option) \<Rightarrow> settings \<Rightarrow> string list \<Rightarrow> bool" where
  "unforged lexcast st lines = (samples lexcast Counter (bad_lines_key (set_name st)) lines = [])"

lemma samples_append:
  "samples lexcast ty n (xs @ ys) = samples lexcast ty n xs @ samples lexcast ty n ys"
  by (simp add: samples_def)

lemma flush_ledger_ok:
  assumes "timers_clean lexcast cur" "settings_ok st" "unforged lexcast st cur"
    and "int (length cur) \<le> int_max"
    and "current_ledger w = buffer_all lexcast (set_name st) cur new_ledger"
  shows "\<exists>w'. flush_ledger start stop st w = Inr w' \<and> cnt w' = cnt w \<and> pending w' = pending w
    \<and> work_queue w' = work_queue w \<and> current_ledger w' = new_ledger"
proof -
  have "processable (set_percentiles st) (current_ledger w)"
    unfolding assms(5) by (rule history_processable) (use assms(1,2,4) in \<open>auto simp: settings_ok_def\<close>)
  from process_ok[OF this, of start stop "set_frequency st"] obtain l where
    l: "process start stop (set_frequency st) (set_percentiles st) (current_ledger w) = Inr l"
      "counters l = counters (current_ledger w)"
    by (auto simp: kept_def process_counters_tables)
  have "int (length (filter (is_bad lexcast) cur)) \<le> int_max"
    using assms(4) length_filter_le[of "is_bad lexcast" cur] by linarith
  from bad_lines_value[OF _ this, of "set_name st" l] assms(3,5) l(2)
  have "bad_lines_seen (set_name st) l = Inr (int (length (filter (is_bad lexcast) cur)))"
    by (simp add: unforged_def)
  with l(1) show ?thesis by (simp add: flush_ledger_def)
qed

lemma buffer_metric_ok:
  "0 \<le> cnt w \<Longrightarrow> cnt w < int_max \<Longrightarrow> buffer_metric lexcast st m w =
    Inr (w\<lparr>current_ledger := buffer lexcast (set_name st) m (current_ledger w), cnt := cnt w + 1\<rparr>)"
  by (simp add: buffer_metric_def add_int32_def in_int32_def)

lemma finish_flush_ok:
  "set_frequency st \<noteq> 0 \<Longrightarrow> \<exists>r. finish_flush st w =
    Inr (w\<lparr>metrics_rate := r, cnt := 0, interrupt_flag := False\<rparr>)"
  by (simp add: finish_flush_def div_int_def, rule exI, rule refl)

context queue_client begin

lemma work_ok:
  assumes "stream_inv lexcast st items acc w" "timers_clean lexcast acc"
    and "settings_ok st" "unforged lexcast st acc" "cnt w < int_max"
  shows "\<exists>w'. work lexcast pop st start stop w = Inr w'"
proof -
  from assms(1) obtain ints cur where
    acc: "acc = concat ints @ cur @ (case pending w of None \<Rightarrow> [] | Some m \<Rightarrow> [m]) @ items (work_queue w)" and
    cur: "current_ledger w = buffer_all lexcast (set_name st) cur new_ledger" and
    c: "pending w = None \<longrightarrow> cnt w = int (length cur)"
    unfolding stream_inv_def by (elim exE conjE) (rule that; assumption)
  have u: "unforged lexcast st cur" "timers_clean lexcast cur"
    using assms(2,4) by (simp_all add: acc unforged_def samples_append timers_clean_append)
  show ?thesis
  proof (cases "pending w")
    case (Some m)
    obtain r where r: "finish_flush st (w\<lparr>pending := None\<rparr>) =
        Inr (w\<lparr>pending := None, metrics_rate := r, cnt := 0, interrupt_flag := False\<rparr>)"
      using finish_flush_ok[of st "w\<lparr>pending := None\<rparr>"] assms(3) by (auto simp: settings_ok_def)
    show ?thesis using Some r by (simp add: work_def buffer_metric_ok)
  next
    case None
    with c assms(5) have c: "cnt w = int (length cur)" "int (length cur) \<le> int_max" by simp_all
    show ?thesis
    proof (cases "in_loop w \<and> pop (work_queue w) \<noteq> None")
      case False
      with None show ?thesis by (cases "pop (work_queue w)") (auto simp: work_def)
    next
      case True
      then obtain m q where p: "pop (work_queue w) = Some (m, q)" by auto
      let ?w = "w\<lparr>work_queue := q, in_loop := False, pending := Some m\<rparr>"
      have "\<exists>w'. flush_ledger start stop st ?w = Inr w' \<and> cnt w' = cnt ?w \<and> pending w' = pending ?w
          \<and> work_queue w' = work_queue ?w \<and> current_ledger w' = new_ledger"
        by (rule flush_ledger_ok[where lexcast = lexcast and cur = cur]) (use assms(2,3) u c(2) cur in auto)
      then have "\<exists>w'. flush_ledger start stop st ?w = Inr w'" by blast
      moreover have "\<exists>w'. buffer_metric lexcast st m (w\<lparr>work_queue := q, in_loop := False\<rparr>) = Inr w'"
        using c(1) assms(5) by (simp add: buffer_metric_ok)
      ultimately show ?thesis using None True p by (simp add: work_def Let_def)
    qed
  qed
qed

end

text \<open>A number of steps of the loop, each with its two clock readings.\<close>

definition work_all ::
  "(string \<Rightarrow> double option) \<Rightarrow> ('q \<Rightarrow> (string \<times> 'q) option) \<Rightarrow> settings \<Rightarrow> (64 word \<times> 64 word) list \<Rightarrow>
    'q worker \<Rightarrow> 'q worker result"
where
  "work_all lexcast pop st clocks w = fold_result (\<lambda>(start, stop). work lexcast pop st start stop) clocks w"

context queue_client begin

lemma drain:
  assumes "length clocks = 2 * length (items (work_queue w))" "pending w = None" "\<not> is_done w" "\<not> in_loop w"
    and "\<not> interrupt_flag w" "0 \<le> cnt w" "cnt w + int (length (items (work_queue w))) \<le> int_max"
  shows "\<exists>w'. work_all lexcast pop st clocks w = Inr w' \<and> items (work_queue w') = []
    \<and> current_ledger w' = buffer_all lexcast (set_name st) (items (work_queue w)) (current_ledger w)
    \<and> flushed w' = flushed w"
  using assms
proof (induction "items (work_queue w)" arbitrary: w clocks)
  case Nil
  then show ?case by (simp add: work_all_def)
next
  case (Cons m ms)
  then have it: "items (work_queue w) = m # ms" by simp
  from pop_items[OF it] obtain q where q: "pop (work_queue w) = Some (m, q)" "items q = ms" by blast
  from Cons.prems(1) it obtain c1 c2 cs where c: "clocks = c1 # c2 # cs" "length cs = 2 * length ms"
    by (cases clocks; cases "tl clocks") auto
  obtain start1 stop1 start stop where cc: "c1 = (start1, stop1)" "c2 = (start, stop)" by (cases c1; cases c2) auto
  let ?w = "w\<lparr>work_queue := q, in_loop := False, current_ledger := buffer lexcast (set_name st) m (current_ledger w),
    cnt := cnt w + 1\<rparr>"
  have "work lexcast pop st start1 stop1 w = Inr (w\<lparr>in_loop := True\<rparr>)"
    using Cons.prems by (simp add: work_def)
  moreover have "work lexcast pop st start stop (w\<lparr>in_loop := True\<rparr>) = Inr ?w"
    using Cons.prems q it by (simp add: work_def buffer_metric_ok)
  moreover from Cons.hyps(1)[of ?w cs] Cons.prems q it c(2) obtain w' where
    "work_all lexcast pop st cs ?w = Inr w' \<and> items (work_queue w') = []
     \<and> current_ledger w' = buffer_all lexcast (set_name st) ms (current_ledger ?w) \<and> flushed w' = flushed w"
    by auto
  ultimately show ?case by (simp add: work_all_def c(1) cc it buffer_all_def)
qed

end

section \<open>Properties\<close>

text \<open>
  C4. No accepted metric is lost, reordered or counted twice. In every reachable state of a
  worker the accepted metrics are, in order, the flushed intervals, the current interval, the
  metric waiting for its flush to end and the queue; each flush handed the backends the
  aggregate of exactly its interval, and the current ledger is that of the current interval.
\<close>

theorem worker_partitions_stream:
  assumes "fifo_queue cap push pop items" "items q0 = []"
    and "reach lexcast push pop st (new_worker i q0 d r b) subs w"
  shows "stream_inv lexcast st items (accepted subs) w"
  using queue_client.stream_inv_reach[OF fifo_queue_client[OF assms(1)] assms(3) refl assms(2)] .

text \<open>
  C23. Metrics are dropped only by a full queue: the queue never holds more than its capacity,
  a submission is refused only then, and \<open>metrics_dropped\<close> has grown by the number of refusals
  modulo \<open>2\<^sup>6\<^sup>4\<close>, from the value the uninitialised atomic happened to hold.
\<close>

theorem drops_are_counted:
  assumes "fifo_queue cap push pop items" "items q0 = []"
    and "reach lexcast push pop st (new_worker i q0 d r b) subs w"
  shows "length (items (work_queue w)) \<le> cap
    \<and> (push m (work_queue w) = None \<longrightarrow> length (items (work_queue w)) = cap)
    \<and> metrics_dropped w mod 2 ^ 64 = (d + int (length (rejected subs))) mod 2 ^ 64"
proof -
  note laws = fifo_queue_client[OF assms(1)]
  have "length (items (work_queue w)) \<le> cap"
    using queue_client.capacity_reach[OF laws assms(3)] assms(2) by (simp add: new_worker_def)
  with queue_client.push_None[OF laws, of m "work_queue w"] dropped_reach[OF assms(3)]
  show ?thesis by (auto simp: new_worker_def)
qed

text \<open>A worker with a queue of capacity 10000 after one submission and a step.\<close>

abbreviation worker0 :: "string list worker" where
  "worker0 \<equiv> new_worker 1 [] 7 0 0"

abbreviation settings0 :: settings where
  "settings0 \<equiv> \<lparr>set_name = ''st'', set_frequency = 10, set_percentiles = [90]\<rparr>"

lemma reach_submitted:
  "reach sample_lex (list_push 10000) list_pop settings0 worker0 [(''hits:1|c'', True)]
     (submit (list_push 10000) ''hits:1|c'' worker0)"
  using reach.submit[OF reach.start, of sample_lex "list_push 10000" list_pop settings0 worker0 "''hits:1|c''"]
  by (simp add: list_push_def new_worker_def)

theorem worker_partitions_stream_witness:
  "stream_inv sample_lex settings0 (\<lambda>q. q) [''hits:1|c''] (submit (list_push 10000) ''hits:1|c'' worker0)"
  using worker_partitions_stream[OF fifo_list_queue refl reach_submitted] by (simp add: accepted_def)

theorem drops_are_counted_witness:
  "length (work_queue (submit (list_push 10000) ''hits:1|c'' worker0)) \<le> 10000
   \<and> metrics_dropped (submit (list_push 10000) ''hits:1|c'' worker0) mod 2 ^ 64 = 7"
  using drops_are_counted[OF fifo_list_queue refl reach_submitted] by (simp add: rejected_def)

text \<open>
  C22. A worker does not fault: in a reachable state, when no accepted line has a NaN as the value
  of a timer, with a non-zero frequency, percentiles between -100 and 100, fewer than \<open>2\<^sup>3\<^sup>1 - 1\<close> metrics
  in the interval, and no client counter under the name of the bad line counter, every step of
  the loop succeeds, flushes included.
\<close>

theorem worker_step_never_faults:
  assumes "fifo_queue cap push pop items" "items q0 = []"
    and "reach lexcast push pop st (new_worker i q0 d r b) subs w"
    and "timers_clean lexcast (accepted subs)" "settings_ok st"
    and "unforged lexcast st (accepted subs)" "cnt w < int_max"
  shows "\<exists>w'. work lexcast pop st start stop w = Inr w'"
proof -
  note laws = fifo_queue_client[OF assms(1)]
  note inv = queue_client.stream_inv_reach[OF laws assms(3) refl assms(2)]
  show ?thesis by (rule queue_client.work_ok[OF laws inv]) (use assms(4-7) in auto)
qed

theorem worker_step_never_faults_witness:
  "\<exists>w'. work sample_lex list_pop settings0 0 5 (submit (list_push 10000) ''hits:1|c'' worker0) = Inr w'"
proof (rule worker_step_never_faults[OF fifo_list_queue refl reach_submitted])
  have "parse_metric sample_lex ''hits:1|c'' = Good (hit (Fin 1) (Fin 1) ''1'')"
    unfolding hit_def by code_simp
  then show "unforged sample_lex settings0 (accepted [(''hits:1|c'', True)])"
    by (simp add: unforged_def accepted_def samples_def sample_of_def hit_def bad_lines_key_def)
qed (auto intro!: timers_clean_parser simp: settings_ok_def pct_ok_def submit_def list_push_def new_worker_def
    split: if_splits)

text \<open>
  The worker keeps up: with no interrupt raised, two steps for every queued
  metric succeed, empty the queue and buffer all of them in order.
\<close>

theorem worker_drains_queue:
  assumes "fifo_queue cap push pop items"
    and "length clocks = 2 * length (items (work_queue w))" "pending w = None" "\<not> is_done w" "\<not> in_loop w"
    and "\<not> interrupt_flag w" "0 \<le> cnt w" "cnt w + int (length (items (work_queue w))) \<le> int_max"
  shows "\<exists>w'. work_all lexcast pop st clocks w = Inr w' \<and> items (work_queue w') = []
    \<and> current_ledger w' = buffer_all lexcast (set_name st) (items (work_queue w)) (current_ledger w)
    \<and> flushed w' = flushed w"
  by (rule queue_client.drain[OF fifo_queue_client[OF assms(1)] assms(2-8)])

theorem worker_drains_queue_witness:
  "\<exists>w'. work_all sample_lex list_pop settings0 [(0, 1), (1, 1), (1, 2), (2, 2)]
      (new_worker 1 [''hits:1|c'', ''hits:4|c''] 0 0 0) = Inr w' \<and> work_queue w' = []
    \<and> current_ledger w' = buffer_all sample_lex ''st'' [''hits:1|c'', ''hits:4|c''] new_ledger
    \<and> flushed w' = []"
  using worker_drains_queue[OF fifo_list_queue[of 10000], of "[(0, 1), (1, 1), (1, 2), (2, 2)]"
      "new_worker 1 [''hits:1|c'', ''hits:4|c''] 0 0 0" sample_lex settings0]
  by (simp add: new_worker_def)

text \<open>
  C36. A flush needs a metric: a worker with an empty queue that receives no metric flushes
  nothing and keeps its ledger, however often the clock interrupts it. The aggregates of a
  last burst of metrics stay in memory, whatever the configured \<open>frequency\<close>.
\<close>

theorem idle_worker_never_flushes:
  assumes "fifo_queue cap push pop items" "items (work_queue w) = []" "pending w = None"
    and "reach lexcast push pop st w [] w'"
  shows "flushed w' = flushed w \<and> current_ledger w' = current_ledger w"
  using queue_client.idle_reach[OF fifo_queue_client[OF assms(1)] assms(4) refl assms(2,3)] by simp

theorem idle_worker_never_flushes_witness:
  "flushed (interrupt (interrupt worker0)) = []"
  using idle_worker_never_flushes[OF fifo_list_queue[of 10000] _ _ reach.interrupt[OF reach.interrupt[OF
      reach.start[of sample_lex "list_push 10000" list_pop settings0 worker0]]]]
  by (simp add: new_worker_def)

text \<open>
  An interrupt that arrives while a flush is under way is lost: the step that ends the
  flush clears the flag whether or not it was raised again.
\<close>

theorem interrupt_during_flush_lost:
  assumes "pending w = Some m" "work lexcast pop st start stop (interrupt w) = Inr w'"
  shows "\<not> interrupt_flag w' \<and> work lexcast pop st start stop w = Inr w'"
proof -
  have same: "work lexcast pop st start stop (interrupt w) = work lexcast pop st start stop w"
    using assms(1) by (simp add: work_def interrupt_def finish_flush_def)
  with assms(2) have "work lexcast pop st start stop w = Inr w'" by simp
  from this have "\<not> interrupt_flag w'"
    by (cases rule: work_cases) (use assms(1) in \<open>auto dest!: finish_flush_Inr buffer_metric_Inr\<close>)
  then show ?thesis using \<open>work lexcast pop st start stop w = Inr w'\<close> by simp
qed

theorem interrupt_during_flush_lost_witness:
  "\<exists>w'. work sample_lex list_pop settings0 0 1 (interrupt (worker0\<lparr>pending := Some ''hits:1|c''\<rparr>)) = Inr w'
     \<and> \<not> interrupt_flag w'"
proof -
  obtain w' where "work sample_lex list_pop settings0 0 1 (interrupt (worker0\<lparr>pending := Some ''hits:1|c''\<rparr>)) = Inr w'"
    by (simp add: work_def interrupt_def new_worker_def finish_flush_def div_int_def buffer_metric_def
        add_int32_def in_int32_def)
  moreover from interrupt_during_flush_lost[OF _ this] have "\<not> interrupt_flag w'" by simp
  ultimately show ?thesis by blast
qed

text \<open>
  With a configured frequency of 0 the step that ends a flush divides by zero.
\<close>

theorem zero_frequency_faults:
  assumes "set_frequency st = 0" "pending w = Some m"
  shows "work lexcast pop st start stop w = Inl Division_by_zero"
  using assms by (simp add: work_def finish_flush_def div_int_def)

theorem zero_frequency_faults_witness:
  "work sample_lex list_pop \<lparr>set_name = ''st'', set_frequency = 0, set_percentiles = []\<rparr> 0 1
     (worker0\<lparr>pending := Some ''hits:1|c''\<rparr>) = Inl Division_by_zero"
  by (rule zero_frequency_faults) simp_all

end
