(* ===== verification/Routing.thy ===== *)
theory Routing
  imports Worker
begin

text \<open>
  How a line reaches its aggregator worker: \<^verbatim>\<open>lib/consumers/aggregator_consumer.cc\<close> hashes the
  name, the clock of \<^verbatim>\<open>include/statsdcc/clock.h\<close> interrupts all workers. \<^verbatim>\<open>std::hash<std::string>\<close>
  is the parameter \<open>hash\<close>; whether \<^verbatim>\<open>tc_malloc\<close> succeeds is the argument \<open>alloc\<close>. The theorems
  show that the workers together hold what one ledger would.
\<close>

section \<open>Routing by name\<close>

text \<open>The part of a line before its first colon.\<close>

definition has_key :: "string \<Rightarrow> bool" where
  "has_key l = (CHR '':'' \<in> set l)"

definition key_of :: "string \<Rightarrow> string" where
  "key_of l = takeWhile (\<lambda>c. c \<noteq> CHR '':'') l"

lemma key_of_app: "CHR '':'' \<notin> set k \<Longrightarrow> key_of (k @ CHR '':'' # r) = k"
proof -
  assume "CHR '':'' \<notin> set k"
  then have "takeWhile (\<lambda>c. c \<noteq> CHR '':'') (k @ CHR '':'' # r) =
      k @ takeWhile (\<lambda>c. c \<noteq> CHR '':'') (CHR '':'' # r)"
    by (intro takeWhile_append2) auto
  then show ?thesis by (simp add: key_of_def)
qed

lemma find_char_key:
  "find_char CHR '':'' l = (if has_key l then Some (length (key_of l)) else None)"
proof (cases "has_key l")
  case True
  then obtain k r where "l = k @ CHR '':'' # r" "CHR '':'' \<notin> set k"
    unfolding has_key_def by (metis split_list_first)
  with True show ?thesis by (simp add: key_of_app find_char_append)
qed (simp add: has_key_def find_char_None)

lemma take_key: "take (length (key_of l)) l = key_of l"
  unfolding key_of_def by (metis takeWhile_eq_take)

text \<open>
  The contract of a router that picks one of \<open>n\<close> targets from the name alone, which the
  aggregator's consumer and the proxy's worker share.
\<close>

definition routed :: "(string \<Rightarrow> nat) \<Rightarrow> nat \<Rightarrow> string list \<Rightarrow> string list" where
  "routed pick i ls = filter (\<lambda>l. has_key l \<and> pick (key_of l) = i) ls"

locale name_router =
  fixes pick :: "string \<Rightarrow> nat" and n :: nat
  assumes pick_lt: "n \<noteq> 0 \<Longrightarrow> pick k < n"
begin

lemma routed_key: "filter (\<lambda>l. key_of l = k) (routed pick (pick k) ls) = filter (\<lambda>l. has_key l \<and> key_of l = k) ls"
  unfolding routed_def filter_filter by (rule filter_cong) auto

lemma routed_other: "i \<noteq> pick k \<Longrightarrow> filter (\<lambda>l. key_of l = k) (routed pick i ls) = []"
  by (auto simp: routed_def filter_empty_conv)

lemma routed_partition:
  assumes "n \<noteq> 0"
  shows "(\<Sum>i<n. length (routed pick i ls)) = length (filter has_key ls)"
proof (induction ls)
  case Nil
  then show ?case by (simp add: routed_def)
next
  case (Cons l ls)
  have "(\<Sum>i<n. length (routed pick i (l # ls))) =
      (\<Sum>i<n. length (routed pick i ls) + (if has_key l \<and> pick (key_of l) = i then 1 else 0))"
    by (rule sum.cong) (auto simp: routed_def)
  also have "\<dots> = length (filter has_key ls) + (\<Sum>i<n. if has_key l \<and> pick (key_of l) = i then 1 else 0)"
    using Cons by (simp add: sum.distrib)
  also have "(\<Sum>i<n. if has_key l \<and> pick (key_of l) = i then 1 else 0) = (if has_key l then 1 else 0::nat)"
    using pick_lt[OF assms, of "key_of l"] by (cases "has_key l") simp_all
  finally show ?case by simp
qed

end

section \<open>The aggregator's consumer\<close>

record agg_consumer =
  bad_keys_metric :: string
  bad_keys_queue_hash :: "32 word"

text \<open>\<open>h % config->workers\<close>: the \<^verbatim>\<open>int\<close> is converted to \<^verbatim>\<open>size_t\<close> first.\<close>

definition index_mod :: "64 word \<Rightarrow> int \<Rightarrow> 64 word result" where
  "index_mod h workers =
     (let m = word_of_int workers in if m = 0 then Inl Division_by_zero else Inr (h mod m))"

definition bad_keys_key :: "string \<Rightarrow> string" where
  "bad_keys_key name = name @ ''.bad_keys''"

definition new_agg_consumer :: "(string \<Rightarrow> 64 word) \<Rightarrow> string \<Rightarrow> int \<Rightarrow> agg_consumer result" where
  "new_agg_consumer hash name workers =
     bind_result (index_mod (hash (bad_keys_key name)) workers) (\<lambda>i.
       Inr \<lparr>bad_keys_metric = bad_keys_key name @ '':1|c'', bad_keys_queue_hash = ucast i\<rparr>)"

definition submit_to ::
  "(string \<Rightarrow> 'q \<Rightarrow> 'q option) \<Rightarrow> nat \<Rightarrow> string \<Rightarrow> 'q worker list \<Rightarrow> 'q worker list result"
where
  "submit_to push i metric ws =
     (if i < length ws then Inr (ws[i := submit push metric (ws ! i)]) else Inl Out_of_bounds)"

definition agg_consume ::
  "(string \<Rightarrow> 64 word) \<Rightarrow> int \<Rightarrow> (string \<Rightarrow> 'q \<Rightarrow> 'q option) \<Rightarrow> agg_consumer \<Rightarrow> bool \<Rightarrow> string \<Rightarrow>
    'q worker list \<Rightarrow> 'q worker list result"
where
  "agg_consume hash workers push c alloc metric ws =
     (case find_char CHR '':'' metric of
        Some pos \<Rightarrow>
          bind_result (index_mod (hash (take pos metric)) workers) (\<lambda>idx.
            if \<not> alloc then Inr ws else submit_to push (unat idx) (c_str metric) ws)
      | None \<Rightarrow>
          if \<not> alloc then Inr ws
          else submit_to push (unat (bad_keys_queue_hash c)) (c_str (bad_keys_metric c)) ws)"

definition agg_consume_all ::
  "(string \<Rightarrow> 64 word) \<Rightarrow> int \<Rightarrow> (string \<Rightarrow> 'q \<Rightarrow> 'q option) \<Rightarrow> agg_consumer \<Rightarrow> string list \<Rightarrow>
    'q worker list \<Rightarrow> 'q worker list result"
where
  "agg_consume_all hash workers push c lines ws = fold_result (agg_consume hash workers push c True) lines ws"

text \<open>The clock after a sleep.\<close>

definition clock_round :: "'q worker list \<Rightarrow> 'q worker list" where
  "clock_round ws = map interrupt ws"

section \<open>The worker of a line\<close>

definition agg_pick :: "(string \<Rightarrow> 64 word) \<Rightarrow> int \<Rightarrow> string \<Rightarrow> nat" where
  "agg_pick hash workers k = unat (hash k mod word_of_int workers)"

lemma unat_mod_less: "0 < workers \<Longrightarrow> unat (h mod (word_of_int workers :: 64 word)) < nat workers"
proof -
  assume w: "0 < workers"
  let ?m = "word_of_int workers :: 64 word"
  show ?thesis
  proof (cases "?m = 0")
    case True
    then have "workers mod 2 ^ 64 = 0" by (simp add: word_of_int_eq_0_iff dvd_eq_mod_eq_0)
    with w have "2 ^ 64 \<le> workers" by (metis dvd_eq_mod_eq_0 zdvd_imp_le)
    moreover have "uint (h mod ?m) < 2 ^ 64" using uint_bounded[of "h mod ?m"] by simp
    ultimately have "uint (h mod ?m) < workers" by linarith
    then show ?thesis by (simp add: zless_nat_eq_int_zless)
  next
    case False
    then have "0 < unat ?m" by (simp add: unat_gt_0)
    then have "unat (h mod ?m) < unat ?m" by (simp add: unat_mod)
    also have "unat ?m \<le> nat workers"
    proof -
      have "uint ?m = workers mod 2 ^ 64" by (simp add: uint_word_of_int)
      then have "uint ?m \<le> workers" using zmod_le_nonneg_dividend[of workers "2 ^ 64"] w by linarith
      then show ?thesis unfolding unat_eq_nat_uint by (rule nat_mono)
    qed
    finally show ?thesis .
  qed
qed

interpretation agg: name_router "agg_pick hash workers" "nat workers" for hash workers
  by unfold_locales (simp add: agg_pick_def unat_mod_less)

text \<open>The worker a line goes to and what is submitted there.\<close>

definition shard_of :: "(string \<Rightarrow> 64 word) \<Rightarrow> int \<Rightarrow> string \<Rightarrow> string \<Rightarrow> nat" where
  "shard_of hash workers name l =
     agg_pick hash workers (if has_key l then key_of l else bad_keys_key name)"

definition shard_line :: "string \<Rightarrow> string \<Rightarrow> string" where
  "shard_line name l = c_str (if has_key l then l else bad_keys_key name @ '':1|c'')"

definition shard_stream :: "(string \<Rightarrow> 64 word) \<Rightarrow> int \<Rightarrow> string \<Rightarrow> string list \<Rightarrow> nat \<Rightarrow> string list" where
  "shard_stream hash workers name lines i =
     map (shard_line name) (filter (\<lambda>l. shard_of hash workers name l = i) lines)"

lemma agg_consume_shard:
  assumes "0 < workers" "workers \<le> int_max" "length ws = nat workers"
    and "new_agg_consumer hash name workers = Inr c"
  shows "shard_of hash workers name l < length ws \<and>
    agg_consume hash workers push c True l ws =
      Inr (ws[shard_of hash workers name l := submit push (shard_line name l) (ws ! shard_of hash workers name l)])"
proof -
  have m: "word_of_int workers \<noteq> (0 :: 64 word)"
  proof
    assume "word_of_int workers = (0 :: 64 word)"
    then have "2 ^ 64 dvd workers" by (simp add: word_of_int_eq_0_iff)
    from zdvd_imp_le[OF this assms(1)] have "2 ^ 64 \<le> workers" .
    with assms(2) show False by simp
  qed
  have lt: "agg_pick hash workers k < length ws" for k
    using agg.pick_lt[of workers hash k] assms(1,3) by simp
  from assms(4) m have c: "bad_keys_metric c = bad_keys_key name @ '':1|c''"
    "bad_keys_queue_hash c = ucast (hash (bad_keys_key name) mod word_of_int workers)"
    by (auto simp: new_agg_consumer_def index_mod_def Let_def)
  have "unat (bad_keys_queue_hash c) = agg_pick hash workers (bad_keys_key name)"
  proof -
    have "unat (hash (bad_keys_key name) mod word_of_int workers) < 2 ^ 32"
    proof -
      have "nat workers \<le> 2 ^ 32" using assms(2) by (simp add: nat_le_iff)
      then show ?thesis
        using unat_mod_less[OF assms(1), of "hash (bad_keys_key name)"] by (rule less_le_trans[rotated])
    qed
    then show ?thesis by (simp add: c(2) agg_pick_def unsigned_ucast_eq take_bit_nat_eq_self)
  qed
  with m lt c(1) show ?thesis
    by (simp add: agg_consume_def find_char_key take_key index_mod_def submit_to_def shard_of_def
        shard_line_def agg_pick_def)
qed

section \<open>Shards and the single ledger\<close>

text \<open>Contributions that depend only on the accepted lines of the name \<open>n\<close>.\<close>

definition concerns :: "(parsed \<Rightarrow> 'a list) \<Rightarrow> string \<Rightarrow> bool" where
  "concerns c n = (c Bad = [] \<and> (\<forall>s. sm_name s \<noteq> n \<longrightarrow> c (Good s) = []))"

lemma concerns_sample_of: "concerns (sample_of ty n) n"
  by (simp add: concerns_def sample_of_def)

lemma concerns_counter_term: "n \<noteq> bad_lines_key name \<Longrightarrow> concerns (counter_term name n) n"
  by (simp add: concerns_def counter_term_def)

lemma contribs_filter_map:
  assumes "\<And>l. l \<in> set ls \<Longrightarrow> P l \<Longrightarrow> c (parse_metric lexcast (g l)) = c (parse_metric lexcast l)"
    and "\<And>l. l \<in> set ls \<Longrightarrow> \<not> P l \<Longrightarrow> c (parse_metric lexcast l) = []"
  shows "contribs c lexcast (map g (filter P ls)) = contribs c lexcast ls"
  using assms by (induction ls) auto

lemma contribs_filter_none:
  assumes "\<And>l. l \<in> set ls \<Longrightarrow> P l \<Longrightarrow> c (parse_metric lexcast (g l)) = []"
  shows "contribs c lexcast (map g (filter P ls)) = []"
  using assms by (induction ls) auto

text \<open>The name an accepted line is filed under is the part before its first colon.\<close>

lemma accepted_key:
  assumes "parse_metric lexcast l = Good s" "NUL \<notin> set l"
  shows "has_key l \<and> key_of l = sm_name s"
proof -
  from parse_Good[OF assms(1)] obtain r where "l = sm_name s @ CHR '':'' # r" "CHR '':'' \<notin> set (sm_name s)"
    by (auto simp: c_str_id[OF assms(2)])
  then show ?thesis by (simp add: has_key_def key_of_app)
qed

definition plain :: "string \<Rightarrow> bool" where
  "plain s = (CHR '':'' \<notin> set s \<and> NUL \<notin> set s)"

lemma bad_keys_line_concerns:
  assumes "concerns c n" "plain name" "n \<noteq> bad_keys_key name"
  shows "c (parse_metric lexcast (c_str (bad_keys_key name @ '':1|c''))) = []"
proof (cases "parse_metric lexcast (c_str (bad_keys_key name @ '':1|c''))")
  case Bad
  with assms(1) show ?thesis by (simp add: concerns_def)
next
  case (Good s)
  have "key_of (bad_keys_key name @ '':1|c'') = bad_keys_key name"
    using key_of_app[of "bad_keys_key name" "''1|c''"] assms(2) by (simp add: bad_keys_key_def plain_def)
  moreover have "c_str (bad_keys_key name @ '':1|c'') = bad_keys_key name @ '':1|c''"
    by (rule c_str_id) (use assms(2) in \<open>simp add: bad_keys_key_def plain_def\<close>)
  moreover have "NUL \<notin> set (bad_keys_key name @ '':1|c'')"
    using assms(2) by (simp add: bad_keys_key_def plain_def)
  ultimately have "sm_name s = bad_keys_key name" using accepted_key[OF Good] by simp
  with Good assms(1,3) show ?thesis by (auto simp: concerns_def)
qed

lemma shard_contribs:
  assumes "concerns c n" "plain name" "n \<noteq> bad_keys_key name" "\<forall>l \<in> set lines. NUL \<notin> set l"
  shows "contribs c lexcast (shard_stream hash workers name lines i) =
    (if i = agg_pick hash workers n then contribs c lexcast lines else [])"
proof -
  have other: "c (parse_metric lexcast l) = []" if "l \<in> set lines" "\<not> (has_key l \<and> key_of l = n)" for l
  proof (cases "parse_metric lexcast l")
    case (Good s)
    with accepted_key[OF Good] that assms(1,4) show ?thesis by (auto simp: concerns_def)
  qed (use assms(1) in \<open>simp add: concerns_def\<close>)
  have same: "c (parse_metric lexcast (shard_line name l)) = c (parse_metric lexcast l)" if "l \<in> set lines" for l
  proof (cases "has_key l")
    case True
    with that assms(4) show ?thesis by (simp add: shard_line_def c_str_id)
  next
    case False
    with other[OF that] bad_keys_line_concerns[OF assms(1-3), of lexcast] show ?thesis
      by (simp add: shard_line_def)
  qed
  show ?thesis
  proof (cases "i = agg_pick hash workers n")
    case True
    have "c (parse_metric lexcast l) = []"
      if "l \<in> set lines" "\<not> shard_of hash workers name l = i" for l
    proof -
      have "\<not> (has_key l \<and> key_of l = n)" using that(2) True by (auto simp: shard_of_def)
      with other[OF that(1)] show ?thesis by blast
    qed
    with True show ?thesis
      unfolding shard_stream_def by (simp add: contribs_filter_map same)
  next
    case False
    have "c (parse_metric lexcast (shard_line name l)) = []"
      if "l \<in> set lines" "shard_of hash workers name l = i" for l
    proof -
      have "\<not> (has_key l \<and> key_of l = n)" using that(2) False by (auto simp: shard_of_def)
      with other[OF that(1)] same[OF that(1)] show ?thesis by simp
    qed
    with False show ?thesis
      unfolding shard_stream_def by (simp add: contribs_filter_none)
  qed
qed

lemma shard_samples:
  assumes "plain name" "n \<noteq> bad_keys_key name" "\<forall>l \<in> set lines. NUL \<notin> set l"
  shows "samples lexcast ty n (shard_stream hash workers name lines i) =
    (if i = agg_pick hash workers n then samples lexcast ty n lines else [])"
  unfolding samples_def by (rule shard_contribs[OF concerns_sample_of assms])

lemma shard_counter_terms:
  assumes "plain name" "n \<noteq> bad_keys_key name" "n \<noteq> bad_lines_key name" "\<forall>l \<in> set lines. NUL \<notin> set l"
  shows "counter_terms lexcast name n (shard_stream hash workers name lines i) =
    (if i = agg_pick hash workers n then counter_terms lexcast name n lines else [])"
  unfolding counter_terms_def by (rule shard_contribs[OF concerns_counter_term[OF assms(3)] assms(1,2,4)])

lemma entry_Nil [simp]: "entry [] v = None"
  by (simp add: entry_def)

section \<open>Consuming into queues\<close>

context queue_client begin

lemma consume_all:
  assumes "0 < workers" "workers \<le> int_max" "length ws = nat workers"
    and "new_agg_consumer hash name workers = Inr c"
    and "\<forall>w \<in> set ws. length (items (work_queue w)) + length lines \<le> cap"
  shows "\<exists>ws'. agg_consume_all hash workers push c lines ws = Inr ws' \<and> length ws' = length ws
    \<and> (\<forall>i < length ws. items (work_queue (ws' ! i)) =
        items (work_queue (ws ! i)) @ shard_stream hash workers name lines i
        \<and> ws' ! i = (ws ! i)\<lparr>work_queue := work_queue (ws' ! i)\<rparr>)"
  using assms(3,5)
proof (induction lines arbitrary: ws)
  case Nil
  then show ?case by (simp add: agg_consume_all_def shard_stream_def)
next
  case (Cons l lines)
  let ?k = "shard_of hash workers name l"
  from agg_consume_shard[OF assms(1,2) Cons.prems(1) assms(4), of l push]
  have k: "?k < length ws" and step: "agg_consume hash workers push c True l ws =
      Inr (ws[?k := submit push (shard_line name l) (ws ! ?k)])" by simp_all
  have "length (items (work_queue (ws ! ?k))) + length (l # lines) \<le> cap"
    using Cons.prems(2) k by simp
  then have "length (items (work_queue (ws ! ?k))) < cap" by simp
  then obtain q where q: "push (shard_line name l) (work_queue (ws ! ?k)) = Some q"
    using push_iff[of "shard_line name l" "work_queue (ws ! ?k)"] by auto
  note iq = push_Some[OF q]
  let ?ws = "ws[?k := (ws ! ?k)\<lparr>work_queue := q\<rparr>]"
  have "\<forall>w \<in> set ?ws. length (items (work_queue w)) + length lines \<le> cap"
  proof
    fix w assume "w \<in> set ?ws"
    then have "w = (ws ! ?k)\<lparr>work_queue := q\<rparr> \<or> w \<in> set ws" using set_update_subset_insert by fastforce
    with Cons.prems(2) iq k show "length (items (work_queue w)) + length lines \<le> cap" by fastforce
  qed
  with Cons.IH[of ?ws] Cons.prems(1) obtain ws' where
    ws': "agg_consume_all hash workers push c lines ?ws = Inr ws'" "length ws' = length ws"
      "\<forall>i < length ws. items (work_queue (ws' ! i)) =
        items (work_queue (?ws ! i)) @ shard_stream hash workers name lines i
        \<and> ws' ! i = (?ws ! i)\<lparr>work_queue := work_queue (ws' ! i)\<rparr>" by auto
  have "items (work_queue (ws' ! i)) = items (work_queue (ws ! i)) @ shard_stream hash workers name (l # lines) i
      \<and> ws' ! i = (ws ! i)\<lparr>work_queue := work_queue (ws' ! i)\<rparr>" if "i < length ws" for i
    using ws'(3)[rule_format, OF that] iq k that
    by (cases "i = ?k") (auto simp: shard_stream_def)
  moreover have "agg_consume_all hash workers push c (l # lines) ws = Inr ws'"
    using ws'(1) by (simp add: agg_consume_all_def step submit_def q)
  ultimately show ?case using ws'(2) by blast
qed

end

section \<open>Properties\<close>

text \<open>
  The consumer routes by name: with \<open>workers\<close> workers it submits every line to one worker
  within bounds, chosen by the part before the first colon alone; a line without a colon
  becomes a count of \<open><name>.bad_keys\<close>, at the worker of that name.
\<close>

theorem consumer_routes_by_name:
  assumes "0 < workers" "workers \<le> int_max" "length ws = nat workers"
    and "new_agg_consumer hash name workers = Inr c"
  shows "\<exists>k < length ws. k = agg_pick hash workers (if has_key l then key_of l else bad_keys_key name)
    \<and> agg_consume hash workers push c True l ws = Inr (ws[k := submit push
        (c_str (if has_key l then l else bad_keys_key name @ '':1|c'')) (ws ! k)])"
  using agg_consume_shard[OF assms, of l push] by (simp add: shard_of_def shard_line_def)

theorem consumer_routes_by_name_witness:
  "\<exists>k < 2. k = agg_pick (\<lambda>k. of_nat (length k)) 2 (bad_keys_key ''st'')
    \<and> agg_consume (\<lambda>k. of_nat (length k)) 2 (list_push 10000)
        \<lparr>bad_keys_metric = ''st.bad_keys:1|c'', bad_keys_queue_hash = 1\<rparr> True ''oops'' [worker0, worker0]
      = Inr ([worker0, worker0][k := submit (list_push 10000) ''st.bad_keys:1|c'' ([worker0, worker0] ! k)])"
proof -
  have c: "new_agg_consumer (\<lambda>k. of_nat (length k)) ''st'' 2 =
      Inr \<lparr>bad_keys_metric = ''st.bad_keys:1|c'', bad_keys_queue_hash = 1\<rparr>"
    by code_simp
  have "c_str (bad_keys_key ''st'' @ '':1|c'') = ''st.bad_keys:1|c''" by code_simp
  with consumer_routes_by_name[OF _ _ _ c, of "[worker0, worker0]" "''oops''" "list_push 10000"]
  show ?thesis by (simp add: has_key_def)
qed

text \<open>
  With \<open>workers = 0\<close> the consumer's constructor divides by zero.
\<close>

theorem zero_workers_faults: "new_agg_consumer hash name 0 = Inl Division_by_zero"
  by (simp add: new_agg_consumer_def index_mod_def)

text \<open>
  While the queues have room, consuming a sequence of lines leaves in the queue of every
  worker exactly its shard of the sequence, in order, and changes nothing else.
\<close>

theorem consumer_fills_shards:
  assumes "fifo_queue cap push pop items" "0 < workers" "workers \<le> int_max" "length ws = nat workers"
    and "new_agg_consumer hash name workers = Inr c"
    and "\<forall>w \<in> set ws. length (items (work_queue w)) + length lines \<le> cap"
  shows "\<exists>ws'. agg_consume_all hash workers push c lines ws = Inr ws' \<and> length ws' = length ws
    \<and> (\<forall>i < length ws. items (work_queue (ws' ! i)) =
        items (work_queue (ws ! i)) @ shard_stream hash workers name lines i
        \<and> ws' ! i = (ws ! i)\<lparr>work_queue := work_queue (ws' ! i)\<rparr>)"
  by (rule queue_client.consume_all[OF fifo_queue_client[OF assms(1)] assms(2-6)])

theorem consumer_fills_shards_witness:
  "\<exists>ws'. agg_consume_all (\<lambda>_. 0) 1 (list_push 10000)
        \<lparr>bad_keys_metric = ''st.bad_keys:1|c'', bad_keys_queue_hash = 0\<rparr> [''hits:1|c''] [worker0] = Inr ws'
     \<and> length ws' = 1 \<and> work_queue (ws' ! 0) = shard_stream (\<lambda>_. 0) 1 ''st'' [''hits:1|c''] 0"
proof -
  have c: "new_agg_consumer (\<lambda>_. 0) ''st'' 1 = Inr \<lparr>bad_keys_metric = ''st.bad_keys:1|c'', bad_keys_queue_hash = 0\<rparr>"
    by code_simp
  show ?thesis
    using consumer_fills_shards[OF fifo_list_queue[of 10000] _ _ _ c, of "[worker0]" "[''hits:1|c'']"]
    by (auto simp: new_worker_def)
qed

text \<open>
  C5. Sharding is exact. Let the consumer run over lines without a NUL, on workers with empty queues and room
  for the lines. For every name but the two the program reserves for its own counts (\<open>bad_keys_key\<close> and
  \<open>bad_lines_key\<close>), the ledger made of the queue of the
  worker the name is routed to has the same counter, timer, sample count, gauge and set as one
  ledger that buffers the whole sequence of lines, and the ledgers made of the other queues have
  no entry for it.
\<close>

theorem sharding_is_exact:
  assumes "fifo_queue cap push pop items" "0 < workers" "workers \<le> int_max" "length ws = nat workers"
    and "new_agg_consumer hash name workers = Inr c"
    and "\<forall>w \<in> set ws. items (work_queue w) = []" "length lines \<le> cap"
    and "plain name" "n \<noteq> bad_keys_key name" "n \<noteq> bad_lines_key name" "\<forall>l \<in> set lines. NUL \<notin> set l"
  shows "\<exists>ws'. agg_consume_all hash workers push c lines ws = Inr ws' \<and> length ws' = nat workers
    \<and> (\<forall>i < nat workers.
      let shard = buffer_all lexcast name (items (work_queue (ws' ! i))) new_ledger;
          single = buffer_all lexcast name lines new_ledger; home = agg_pick hash workers n
      in map_of (counters shard) n = (if i = home then map_of (counters single) n else None)
      \<and> map_of (timers shard) n = (if i = home then map_of (timers single) n else None)
      \<and> map_of (timer_counters shard) n = (if i = home then map_of (timer_counters single) n else None)
      \<and> map_of (gauges shard) n = (if i = home then map_of (gauges single) n else None)
      \<and> map_of (sets shard) n = (if i = home then map_of (sets single) n else None))"
proof -
  from assms(6,7) have "\<forall>w \<in> set ws. length (items (work_queue w)) + length lines \<le> cap" by simp
  from queue_client.consume_all[OF fifo_queue_client[OF assms(1)] assms(2-5) this] obtain ws' where
    ws': "agg_consume_all hash workers push c lines ws = Inr ws'" "length ws' = nat workers"
    "\<forall>i < nat workers. items (work_queue (ws' ! i)) = items (work_queue (ws ! i)) @ shard_stream hash workers name lines i"
    using assms(4) by auto
  have "items (work_queue (ws' ! i)) = shard_stream hash workers name lines i" if "i < nat workers" for i
    using ws'(3) assms(4,6) that by simp
  with ws'(1,2) show ?thesis
    by (simp add: history_counters history_timers history_timer_counters history_gauges history_sets
        shard_samples[OF assms(8,9,11)] shard_counter_terms[OF assms(8-11)] Let_def)
qed

theorem sharding_is_exact_witness:
  "\<exists>ws'. agg_consume_all (\<lambda>k. of_nat (length k)) 2 (list_push 10000)
      \<lparr>bad_keys_metric = ''st.bad_keys:1|c'', bad_keys_queue_hash = 1\<rparr> sample_lines [worker0, worker0] = Inr ws'
   \<and> map_of (timers (buffer_all sample_lex ''st'' (work_queue (ws' ! 0)) new_ledger)) ''hits''
     = map_of (timers (buffer_all sample_lex ''st'' sample_lines new_ledger)) ''hits''"
proof -
  have c: "new_agg_consumer (\<lambda>k. of_nat (length k)) ''st'' 2 =
      Inr \<lparr>bad_keys_metric = ''st.bad_keys:1|c'', bad_keys_queue_hash = 1\<rparr>" by code_simp
  have home: "agg_pick (\<lambda>k. of_nat (length k)) 2 ''hits'' = 0" by code_simp
  have "length sample_lines \<le> 10000" "\<forall>l \<in> set sample_lines. NUL \<notin> set l" by (simp_all add: sample_lines_def)
  from sharding_is_exact[OF fifo_list_queue _ _ _ c _ this(1) _ _ _ this(2), of "[worker0, worker0]" "''hits''" sample_lex]
  show ?thesis by (auto simp: plain_def bad_keys_key_def bad_lines_key_def new_worker_def home Let_def)
qed

text \<open>
  The clock raises the flag of every worker and touches nothing else.
\<close>

theorem clock_interrupts_all:
  "length (clock_round ws) = length ws \<and> (\<forall>w \<in> set (clock_round ws). interrupt_flag w)
   \<and> map (\<lambda>w. w\<lparr>interrupt_flag := False\<rparr>) (clock_round ws) = map (\<lambda>w. w\<lparr>interrupt_flag := False\<rparr>) ws"
  by (simp add: clock_round_def interrupt_def)

end
