(* ===== verification/Syscalls.thy ===== *)
theory Syscalls
  imports Prelude "HOL-Library.Word"
begin

text \<open>
  The socket system calls as the program sees them, and the wrappers of
  \<^verbatim>\<open>include/statsdcc/net/wrapper.h\<close>, \<^verbatim>\<open>net/sock_stream_io.h\<close> and \<^verbatim>\<open>os.h\<close>. The operating system
  is the argument of a run: for every system call the list of the answers still to come. A run
  that needs an answer that is not there is \<open>Waiting\<close>: the thread is inside that call. So a
  statement about all environments is one about every behaviour of the operating system, at
  every moment of the run. The environment also records the calls made and the errors logged.
\<close>

section \<open>Answers\<close>

datatype errno = EINTR | EAGAIN | EWOULDBLOCK | EPIPE | Errno nat

datatype 'a answer = Ret 'a | Fail errno   \<comment> \<open>a call that returns -1 and sets \<^verbatim>\<open>errno\<close>\<close>

text \<open>An IPv4 socket address, both parts in host byte order.\<close>

record sockaddr =
  sa_addr :: "32 word"
  sa_port :: "16 word"

datatype pton_answer = Address "32 word" | Not_an_address | Bad_family

datatype resolve_answer = Host_address "32 word" | No_address | No_host

text \<open>A completed system call with its answer; descriptors are the program's \<^verbatim>\<open>int\<close>s.\<close>

datatype event =
    Ev_socket "nat answer"
  | Ev_setsockopt int string "nat answer"
  | Ev_bind int sockaddr "nat answer"
  | Ev_listen int nat "nat answer"
  | Ev_accept int "nat answer"
  | Ev_connect int sockaddr "nat answer"
  | Ev_close int "nat answer"
  | Ev_write int string "nat answer"
  | Ev_read int nat "string answer"
  | Ev_recvfrom int nat "string answer"
  | Ev_sendto int string sockaddr "nat answer"
  | Ev_select "nat list answer"
  | Ev_poll int "bool answer"
  | Ev_pause "nat answer"

record env =
  q_socket :: "nat answer list"
  q_setsockopt :: "nat answer list"
  q_bind :: "nat answer list"
  q_listen :: "nat answer list"
  q_accept :: "nat answer list"
  q_connect :: "nat answer list"
  q_close :: "nat answer list"
  q_write :: "nat answer list"
  q_read :: "string answer list"          \<comment> \<open>the bytes read, none at the end of the stream\<close>
  q_recvfrom :: "string answer list"
  q_sendto :: "nat answer list"
  q_select :: "nat list answer list"      \<comment> \<open>the ready descriptors\<close>
  q_poll :: "bool answer list"            \<comment> \<open>whether \<^verbatim>\<open>POLLHUP\<close> is set in \<^verbatim>\<open>revents\<close>\<close>
  q_pause :: "nat answer list"
  q_resolve :: "resolve_answer list"      \<comment> \<open>\<^verbatim>\<open>gethostbyname\<close>\<close>
  pton :: "string \<Rightarrow> pton_answer"         \<comment> \<open>\<^verbatim>\<open>inet_pton(AF_INET, ...)\<close>\<close>
  errno_now :: "errno option"
  trace :: "event list"
  errors :: "string list"                 \<comment> \<open>messages logged at level error, without \<^verbatim>\<open>strerror\<close>\<close>

datatype 'a run = Done 'a env | Waiting env | Crash fault env

fun run_bind :: "'a run \<Rightarrow> ('a \<Rightarrow> env \<Rightarrow> 'b run) \<Rightarrow> 'b run" where
  "run_bind (Done x s) f = f x s"
| "run_bind (Waiting s) f = Waiting s"
| "run_bind (Crash e s) f = Crash e s"

fun env_of :: "'a run \<Rightarrow> env" where
  "env_of (Done x s) = s"
| "env_of (Waiting s) = s"
| "env_of (Crash e s) = s"

lemma run_bind_Done_iff:
  "run_bind r f = Done y t \<longleftrightarrow> (\<exists>x s. r = Done x s \<and> f x s = Done y t)"
  by (cases r) auto

lemma run_bind_DoneE:
  assumes "run_bind r f = Done y t"
  obtains x s where "r = Done x s" "f x s = Done y t"
  using assms by (cases r) auto

fun errno_after :: "'a answer \<Rightarrow> errno option" where
  "errno_after (Ret x) = None"
| "errno_after (Fail e) = Some e"

text \<open>
  One system call: \<open>get\<close> and \<open>upd\<close> select its answers in the environment. \<open>retry_call\<close> is the
  loop \<^verbatim>\<open>do { errno = 0; ret = ...; } while (ret == -1 && errno == EINTR)\<close>.
\<close>

definition sys_call ::
  "(env \<Rightarrow> 'a answer list) \<Rightarrow> (('a answer list \<Rightarrow> 'a answer list) \<Rightarrow> env \<Rightarrow> env) \<Rightarrow>
    ('a answer \<Rightarrow> event) \<Rightarrow> env \<Rightarrow> 'a answer run"
where
  "sys_call get upd ev s = (case get s of
     [] \<Rightarrow> Waiting s
   | r # q \<Rightarrow> Done r ((upd (\<lambda>_. q) s)\<lparr>errno_now := errno_after r, trace := trace s @ [ev r]\<rparr>))"

fun retrying :: "('a answer \<Rightarrow> event) \<Rightarrow> 'a answer list \<Rightarrow> event list \<Rightarrow>
    ('a answer \<times> 'a answer list) option \<times> event list" where
  "retrying ev [] tr = (None, tr)"
| "retrying ev (r # q) tr =
     (if r = Fail EINTR then retrying ev q (tr @ [ev r]) else (Some (r, q), tr @ [ev r]))"

definition retry_call ::
  "(env \<Rightarrow> 'a answer list) \<Rightarrow> (('a answer list \<Rightarrow> 'a answer list) \<Rightarrow> env \<Rightarrow> env) \<Rightarrow>
    ('a answer \<Rightarrow> event) \<Rightarrow> env \<Rightarrow> 'a answer run"
where
  "retry_call get upd ev s = (case retrying ev (get s) (trace s) of
     (None, tr) \<Rightarrow> Waiting ((upd (\<lambda>_. []) s)\<lparr>trace := tr\<rparr>)
   | (Some (r, q), tr) \<Rightarrow> Done r ((upd (\<lambda>_. q) s)\<lparr>errno_now := errno_after r, trace := tr\<rparr>))"

definition log_error_msg :: "string \<Rightarrow> env \<Rightarrow> env" where
  "log_error_msg msg s = s\<lparr>errors := errors s @ [msg]\<rparr>"

text \<open>A failed call is logged before the wrapper returns.\<close>

definition log_failure :: "string \<Rightarrow> 'a answer run \<Rightarrow> 'a answer run" where
  "log_failure msg r = run_bind r (\<lambda>a s. case a of
     Ret x \<Rightarrow> Done a s | Fail e \<Rightarrow> Done a (log_error_msg msg s))"

section \<open>The wrappers\<close>

definition w_socket :: "env \<Rightarrow> nat answer run" where
  "w_socket s = log_failure ''socket error: '' (sys_call q_socket q_socket_update Ev_socket s)"

definition w_setsockopt :: "int \<Rightarrow> string \<Rightarrow> env \<Rightarrow> nat answer run" where
  "w_setsockopt fd opt s =
     log_failure ''setsockopt: '' (sys_call q_setsockopt q_setsockopt_update (Ev_setsockopt fd opt) s)"

definition w_bind :: "int \<Rightarrow> sockaddr \<Rightarrow> env \<Rightarrow> nat answer run" where
  "w_bind fd addr s = log_failure ''bind error: '' (sys_call q_bind q_bind_update (Ev_bind fd addr) s)"

definition w_listen :: "int \<Rightarrow> nat \<Rightarrow> env \<Rightarrow> nat answer run" where
  "w_listen fd backlog s =
     log_failure ''listen error: '' (sys_call q_listen q_listen_update (Ev_listen fd backlog) s)"

definition w_accept :: "int \<Rightarrow> env \<Rightarrow> nat answer run" where
  "w_accept fd s =
     log_failure ''accept error: '' (retry_call q_accept q_accept_update (Ev_accept fd) s)"

definition w_inet_pton :: "string \<Rightarrow> env \<Rightarrow> pton_answer run" where
  "w_inet_pton host s = (case pton s host of
     Address a \<Rightarrow> Done (Address a) s
   | Not_an_address \<Rightarrow> Done Not_an_address (s\<lparr>errno_now := None\<rparr>)
   | Bad_family \<Rightarrow> Done Bad_family (log_error_msg ''inet_pton error: '' s\<lparr>errno_now := None\<rparr>))"

definition w_connect :: "int \<Rightarrow> sockaddr \<Rightarrow> env \<Rightarrow> nat answer run" where
  "w_connect fd addr s =
     log_failure ''connect error: '' (sys_call q_connect q_connect_update (Ev_connect fd addr) s)"

definition w_close :: "int \<Rightarrow> env \<Rightarrow> nat answer run" where
  "w_close fd s = log_failure ''close error: '' (sys_call q_close q_close_update (Ev_close fd) s)"

definition w_recvfrom :: "int \<Rightarrow> nat \<Rightarrow> env \<Rightarrow> string answer run" where
  "w_recvfrom fd len s =
     run_bind (retry_call q_recvfrom q_recvfrom_update (Ev_recvfrom fd len) s) (\<lambda>a s. case a of
       Fail e \<Rightarrow> Done a (if e \<noteq> EAGAIN \<and> e \<noteq> EWOULDBLOCK then log_error_msg ''recvfrom error: '' s else s)
     | Ret x \<Rightarrow> Done a s)"

definition w_sendto :: "int \<Rightarrow> string \<Rightarrow> sockaddr \<Rightarrow> env \<Rightarrow> nat answer run" where
  "w_sendto fd buf dest s =
     log_failure ''sendto error: '' (retry_call q_sendto q_sendto_update (Ev_sendto fd buf dest) s)"

definition w_select :: "env \<Rightarrow> nat list answer run" where
  "w_select s = log_failure ''select error: '' (sys_call q_select q_select_update Ev_select s)"

definition w_poll :: "int \<Rightarrow> env \<Rightarrow> bool answer run" where
  "w_poll fd s = log_failure ''poll error: '' (sys_call q_poll q_poll_update (Ev_poll fd) s)"

definition os_pause :: "env \<Rightarrow> nat answer run" where
  "os_pause s = retry_call q_pause q_pause_update Ev_pause s"

section \<open>Streams\<close>

text \<open>
  \<^verbatim>\<open>writen\<close> and \<^verbatim>\<open>readn\<close> of \<^verbatim>\<open>sock_stream_io.h\<close>: \<open>ptr\<close> is what is left to write, \<open>nleft\<close> what
  is left to read. An operating system that moves more bytes than asked would take the
  pointer out of the buffer.
\<close>

function writen_loop :: "int \<Rightarrow> string \<Rightarrow> env \<Rightarrow> unit answer run" where
  "writen_loop fd ptr s =
     (if ptr = [] then Done (Ret ()) s
      else case q_write s of
        [] \<Rightarrow> Waiting s
      | r # q \<Rightarrow>
          (let s' = s\<lparr>q_write := q, errno_now := errno_after r, trace := trace s @ [Ev_write fd ptr r]\<rparr> in
           case r of
             Fail e \<Rightarrow> if e = EINTR then writen_loop fd ptr s' else Done (Fail e) s'
           | Ret n \<Rightarrow> if n \<le> length ptr then writen_loop fd (drop n ptr) s' else Crash Out_of_bounds s'))"
  by pat_completeness auto
termination
  by (relation "measure (\<lambda>(fd, ptr, s). length (q_write s))") auto

declare writen_loop.simps [simp del]

function readn_loop :: "int \<Rightarrow> nat \<Rightarrow> string \<Rightarrow> env \<Rightarrow> string answer run" where
  "readn_loop fd nleft got s =
     (if nleft = 0 then Done (Ret got) s
      else case q_read s of
        [] \<Rightarrow> Waiting s
      | r # q \<Rightarrow>
          (let s' = s\<lparr>q_read := q, errno_now := errno_after r, trace := trace s @ [Ev_read fd nleft r]\<rparr> in
           case r of
             Fail e \<Rightarrow> if e = EINTR then readn_loop fd nleft got s' else Done (Fail e) s'
           | Ret bytes \<Rightarrow>
               if bytes = [] then Done (Ret got) s'
               else if length bytes \<le> nleft then readn_loop fd (nleft - length bytes) (got @ bytes) s'
               else Crash Out_of_bounds s'))"
  by pat_completeness auto
termination
  by (relation "measure (\<lambda>(fd, n, got, s). length (q_read s))") auto

declare readn_loop.simps [simp del]

definition w_writen :: "int \<Rightarrow> string \<Rightarrow> env \<Rightarrow> unit answer run" where
  "w_writen fd buf s = log_failure ''writen error: '' (writen_loop fd buf (s\<lparr>errno_now := None\<rparr>))"

definition w_readn :: "int \<Rightarrow> nat \<Rightarrow> env \<Rightarrow> string answer run" where
  "w_readn fd n s = log_failure ''readn error: '' (readn_loop fd n [] (s\<lparr>errno_now := None\<rparr>))"

end
