(* ===== verification/Hashring.thy ===== *)
theory Hashring
  imports Cstdio "HOL-Library.Word"
begin

unbundle bit_operations_syntax

text \<open>
  Consistent hashing of metric names to carbon shards:
  \<^verbatim>\<open>include/statsdcc/hostport.h\<close>, \<^verbatim>\<open>include/statsdcc/hashring/node.h\<close>,
  \<^verbatim>\<open>include/statsdcc/hashring/hashring.h\<close> and \<^verbatim>\<open>lib/hashring/hashring.cc\<close>. MD4 is OpenSSL's
  and stays the parameter \<open>md4\<close>. Rings of \<open>2\<^sup>3\<^sup>1\<close> points or more are outside the model.
\<close>

section \<open>Nodes\<close>

record hostport =
  host :: string
  port :: int

text \<open>\<^verbatim>\<open>Node\<close> derives from \<^verbatim>\<open>Hostport\<close>; its field \<^verbatim>\<open>key\<close> is never read or written.\<close>

record node = hostport +
  vnodes :: int
  weight :: int

definition hostport_of :: "node \<Rightarrow> hostport" where
  "hostport_of n = \<lparr>host = host n, port = port n\<rparr>"

section \<open>Ring elements\<close>

record ring_element =
  re_hash :: "32 word"
  re_shard :: string

text \<open>\<^verbatim>\<open>operator<\<close> of \<^verbatim>\<open>RingElement\<close>, which the source writes with \<^verbatim>\<open><=\<close>.\<close>

definition ring_less :: "ring_element \<Rightarrow> ring_element \<Rightarrow> bool" where
  "ring_less a b = (re_hash a \<le> re_hash b)"

interpretation ring_cmp: mono_cmp "\<lambda>_. True" ring_less re_hash
  by unfold_locales (auto simp: ring_less_def)

record hashring =
  ring :: "ring_element list"
  nodes :: "(string, node) umap"
  replicas :: int
  hr_vnodes :: int

section \<open>Hashing\<close>

text \<open>\<^verbatim>\<open>hash(a, b, c, d)\<close>: four values merged into one 32-bit integer.\<close>

definition hash4 :: "32 word \<Rightarrow> 32 word \<Rightarrow> 32 word \<Rightarrow> 32 word \<Rightarrow> 32 word" where
  "hash4 a b c d = push_bit 24 a OR push_bit 16 b OR push_bit 8 c OR d"

definition digest_byte :: "8 word list \<Rightarrow> nat \<Rightarrow> 32 word" where
  "digest_byte digest i = ucast (digest ! i)"

text \<open>The \<open>j\<close>-th point of a digest: four bytes, least significant first.\<close>

definition digest_point :: "8 word list \<Rightarrow> nat \<Rightarrow> 32 word" where
  "digest_point digest j =
     hash4 (digest_byte digest (3 + j * 4)) (digest_byte digest (2 + j * 4))
           (digest_byte digest (1 + j * 4)) (digest_byte digest (j * 4))"

definition hash_value :: "(string \<Rightarrow> 8 word list) \<Rightarrow> string \<Rightarrow> 32 word" where
  "hash_value md4 key =
     (let digest = md4 key
      in hash4 (digest_byte digest 3) (digest_byte digest 2)
               (digest_byte digest 1) (digest_byte digest 0))"

section \<open>generate_continuum\<close>

fun total_weight :: "(string \<times> node) list \<Rightarrow> int \<Rightarrow> int result" where
  "total_weight [] acc = Inr acc"
| "total_weight (sn # rest) acc =
     bind_result (add_int32 acc (weight (snd sn))) (total_weight rest)"

text \<open>
  The number of digests a node contributes. The share computed from the weight is
  overwritten when the node has a custom \<^verbatim>\<open>vnodes\<close>; its conversion to \<^verbatim>\<open>int\<close> happens first.
\<close>

definition node_length :: "int \<Rightarrow> int \<Rightarrow> nat \<Rightarrow> node \<Rightarrow> int result" where
  "node_length dflt tot n_nodes nd =
     (let percentage = d_div (d_of_int (weight nd)) (d_of_int tot);
          vn = (if vnodes nd \<noteq> 0 then vnodes nd else dflt)
      in bind_result
           (d_to_int32 (c_floor (d_mul (d_mul percentage (d_of_int vn)) (d_of_int (int n_nodes)))))
           (\<lambda>len. Inr (if vn \<noteq> 0 \<and> vn \<noteq> dflt then vn else len)))"

text \<open>\<^verbatim>\<open>snprintf\<close> into a buffer of 1024 bytes, then the first \<^verbatim>\<open>strlen\<close> bytes.\<close>

definition vnode_name :: "string \<Rightarrow> nat \<Rightarrow> string" where
  "vnode_name shard i = take 1023 (c_str shard @ ''-'' @ nat_digits (int i))"

definition shard_points :: "(string \<Rightarrow> 8 word list) \<Rightarrow> int \<Rightarrow> string \<Rightarrow> int \<Rightarrow> ring_element list" where
  "shard_points md4 reps shard len =
     concat (map (\<lambda>i. map (\<lambda>j. \<lparr>re_hash = digest_point (md4 (vnode_name shard i)) j,
                                re_shard = shard\<rparr>) [0..<nat reps]) [0..<nat len])"

fun collect_points ::
  "(string \<Rightarrow> 8 word list) \<Rightarrow> int \<Rightarrow> int \<Rightarrow> int \<Rightarrow> nat \<Rightarrow> (string \<times> node) list \<Rightarrow> ring_element list result"
where
  "collect_points md4 reps dflt tot n_nodes [] = Inr []"
| "collect_points md4 reps dflt tot n_nodes ((shard, nd) # rest) =
     bind_result (node_length dflt tot n_nodes nd)
       (\<lambda>len. bind_result (collect_points md4 reps dflt tot n_nodes rest)
          (\<lambda>ps. Inr (shard_points md4 reps shard len @ ps)))"

text \<open>
  \<^verbatim>\<open>std::stable_sort\<close> with the comparison above: libstdc++ merges insertion-sorted runs and
  takes the later element whenever the comparison holds, which is the insertion order of
  \<open>sort_by\<close>. The list of nodes is in the order in which the \<^verbatim>\<open>unordered_map\<close> is iterated, any order: both matter
  only for points with equal hashes, as \<open>ring_order_free\<close> shows.
\<close>

definition generate_continuum :: "(string \<Rightarrow> 8 word list) \<Rightarrow> hashring \<Rightarrow> hashring result" where
  "generate_continuum md4 hr =
     (if nodes hr = [] then Inr hr
      else bind_result (total_weight (nodes hr) 0)
        (\<lambda>tot. bind_result
           (collect_points md4 (replicas hr) (hr_vnodes hr) tot (length (nodes hr)) (nodes hr))
           (\<lambda>ps. Inr (hr\<lparr>ring := sort_by ring_less (ring hr @ ps)\<rparr>))))"

definition new_hashring :: "(string \<Rightarrow> 8 word list) \<Rightarrow> (string, node) umap \<Rightarrow> hashring result" where
  "new_hashring md4 ns =
     (if ns = [] then Inl (Thrown ''Nodes list cannot be empty'')
      else generate_continuum md4 \<lparr>ring = [], nodes = ns, replicas = 4, hr_vnodes = 40\<rparr>)"

section \<open>Lookup\<close>

definition ring_at :: "ring_element list \<Rightarrow> int \<Rightarrow> ring_element result" where
  "ring_at r i = (if 0 \<le> i \<and> i < int (length r) then Inr (r ! nat i) else Inl Out_of_bounds)"

text \<open>The binary search of \<^verbatim>\<open>find\<close>, one iteration of \<^verbatim>\<open>while (true)\<close> per call.\<close>

definition prev_hash :: "ring_element list \<Rightarrow> int \<Rightarrow> 32 word result" where
  "prev_hash r mid = (if mid = 0 then Inr 0
     else bind_result (ring_at r (mid - 1)) (\<lambda>e. Inr (re_hash e)))"

function find_loop :: "ring_element list \<Rightarrow> 32 word \<Rightarrow> int \<Rightarrow> int \<Rightarrow> int result" where
  "find_loop r h low high =
     (let mid = (low + high) div 2 in
      if mid = int (length r) then Inr 0
      else case ring_at r mid of
        Inl e \<Rightarrow> Inl e
      | Inr el \<Rightarrow> (case prev_hash r mid of
          Inl e \<Rightarrow> Inl e
        | Inr prev \<Rightarrow>
            if h \<le> re_hash el \<and> prev < h then Inr mid
            else if re_hash el < h then
              (if mid + 1 > high then Inr 0 else find_loop r h (mid + 1) high)
            else
              (if low > mid - 1 then Inr 0 else find_loop r h low (mid - 1))))"
  by pat_completeness auto
termination
  by (relation "measure (\<lambda>(r, h, low, high). nat (high - low + 1))") auto

declare find_loop.simps [simp del]

definition ring_find :: "ring_element list \<Rightarrow> 32 word \<Rightarrow> int result" where
  "ring_find r h = find_loop r h 0 (int (length r))"

text \<open>\<^verbatim>\<open>get(key)\<close> is the node of the shard that owns the key.\<close>

definition ring_owner :: "(string \<Rightarrow> 8 word list) \<Rightarrow> hashring \<Rightarrow> string \<Rightarrow> string result" where
  "ring_owner md4 hr key =
     bind_result (ring_find (ring hr) (hash_value md4 key))
       (\<lambda>i. bind_result (ring_at (ring hr) i) (\<lambda>el. Inr (re_shard el)))"

text \<open>
  \<^verbatim>\<open>nodes[shard]\<close> would make a node with uninitialised numbers for a shard that is not there, and
  copying it reads them; that is a fault here.
\<close>

definition ring_get :: "(string \<Rightarrow> 8 word list) \<Rightarrow> hashring \<Rightarrow> string \<Rightarrow> node result" where
  "ring_get md4 hr key =
     bind_result (ring_owner md4 hr key)
       (\<lambda>shard. case map_of (nodes hr) shard of None \<Rightarrow> Inl Missing_key | Some nd \<Rightarrow> Inr nd)"

section \<open>The ring is sorted and holds every point\<close>

lemma sorted_ring_sort: "sorted (map re_hash (sort_by ring_less ps))"
  by (rule ring_cmp.sorted_sort_by) simp

lemma filter_ring_sort: "filter Q (sort_by ring_less ps) = sort_by ring_less (filter Q ps)"
  by (rule ring_cmp.filter_sort_by) simp

lemma generate_ring:
  assumes "new_hashring md4 ns = Inr hr"
  obtains tot ps where "total_weight ns 0 = Inr tot"
    "collect_points md4 4 40 tot (length ns) ns = Inr ps"
    "hr = \<lparr>ring = sort_by ring_less ps, nodes = ns, replicas = 4, hr_vnodes = 40\<rparr>"
  using assms
  by (auto simp: new_hashring_def generate_continuum_def bind_result_Inr_iff split: if_splits)

lemma sorted_new_hashring: "new_hashring md4 ns = Inr hr \<Longrightarrow> sorted (map re_hash (ring hr))"
  by (erule generate_ring) (simp add: sorted_ring_sort)

lemma shard_of_points: "e \<in> set (shard_points md4 reps shard len) \<Longrightarrow> re_shard e = shard"
  by (auto simp: shard_points_def)

lemma length_concat_const:
  "(\<And>x. x \<in> set xs \<Longrightarrow> length (f x) = k) \<Longrightarrow> length (concat (map f xs)) = length xs * k"
  by (induction xs) auto

lemma length_shard_points: "length (shard_points md4 reps shard len) = nat len * nat reps"
  by (simp add: shard_points_def length_concat_const)

lemma shards_of_collect:
  "collect_points md4 reps dflt tot n ns = Inr ps \<Longrightarrow> e \<in> set ps \<Longrightarrow> re_shard e \<in> fst ` set ns"
proof (induction ns arbitrary: ps)
  case Nil
  then show ?case by simp
next
  case (Cons sn ns)
  from Cons.prems(1) obtain len qs where
    "ps = shard_points md4 reps (fst sn) len @ qs" "collect_points md4 reps dflt tot n ns = Inr qs"
    by (cases sn) (auto simp: bind_result_Inr_iff)
  with Cons show ?case by (auto dest: shard_of_points)
qed

lemma ring_shards:
  "new_hashring md4 ns = Inr hr \<Longrightarrow> e \<in> set (ring hr) \<Longrightarrow> re_shard e \<in> fst ` set ns"
  by (erule generate_ring) (auto dest: shards_of_collect)

section \<open>The binary search\<close>

text \<open>The first position whose hash is not below \<open>h\<close>; the length when there is none.\<close>

definition ring_pos :: "ring_element list \<Rightarrow> 32 word \<Rightarrow> nat" where
  "ring_pos r h = length (takeWhile (\<lambda>e. re_hash e < h) r)"

lemma ring_pos_le: "ring_pos r h \<le> length r"
  by (simp add: ring_pos_def length_takeWhile_le)

lemma ring_pos_below: "i < ring_pos r h \<Longrightarrow> re_hash (r ! i) < h"
  by (metis nth_mem ring_pos_def set_takeWhileD takeWhile_nth)

lemma ring_pos_above:
  assumes "sorted (map re_hash r)" "ring_pos r h \<le> i" "i < length r"
  shows "h \<le> re_hash (r ! i)"
proof -
  have "\<not> re_hash (r ! ring_pos r h) < h"
    using nth_length_takeWhile[of "\<lambda>e. re_hash e < h" r] assms by (simp add: ring_pos_def)
  moreover have "re_hash (r ! ring_pos r h) \<le> re_hash (r ! i)"
    using sorted_nth_mono[OF assms(1), of "ring_pos r h" i] assms(2,3) by simp
  ultimately show ?thesis by (simp add: not_less)
qed

lemma ring_at_ok [simp]: "0 \<le> i \<Longrightarrow> i < int (length r) \<Longrightarrow> ring_at r i = Inr (r ! nat i)"
  by (simp add: ring_at_def)

lemma prev_hash_ok:
  "0 \<le> i \<Longrightarrow> i < int (length r)
    \<Longrightarrow> prev_hash r i = Inr (if i = 0 then 0 else re_hash (r ! (nat i - 1)))"
  by (auto simp: prev_hash_def nat_diff_distrib)

lemma find_loop_found:
  assumes "sorted (map re_hash r)" "0 < h" "ring_pos r h < length r"
  shows "0 \<le> low \<Longrightarrow> low \<le> int (ring_pos r h) \<Longrightarrow> int (ring_pos r h) \<le> high
    \<Longrightarrow> high \<le> int (length r) \<Longrightarrow> find_loop r h low high = Inr (int (ring_pos r h))"
proof (induction "nat (high - low)" arbitrary: low high rule: less_induct)
  case less
  define mid where "mid = (low + high) div 2"
  let ?p = "ring_pos r h"
  have mid: "low \<le> mid" "mid \<le> high" "0 \<le> mid" using less.prems by (auto simp: mid_def)
  have neq: "mid \<noteq> int (length r)"
    using less.prems assms(3) by (auto simp: mid_def)
  with mid less.prems have lt: "mid < int (length r)" by simp
  note step = find_loop.simps[of r h low high, folded mid_def, unfolded Let_def]
  consider "mid = int ?p" | "mid < int ?p" | "int ?p < mid" by linarith
  then show ?case
  proof cases
    case 1
    define pv where "pv = (if mid = 0 then 0 else re_hash (r ! (nat mid - 1)))"
    have "prev_hash r mid = Inr pv" using mid lt by (simp add: prev_hash_ok pv_def)
    moreover have "pv < h"
      using assms(2) 1 ring_pos_below[of "?p - 1" r h] by (auto simp: pv_def)
    moreover have "h \<le> re_hash (r ! nat mid)" using assms(1,3) 1 by (simp add: ring_pos_above)
    moreover have "ring_at r mid = Inr (r ! nat mid)" using mid lt by simp
    ultimately have "find_loop r h low high = Inr mid" using neq by (simp add: step)
    with 1 show ?thesis by simp
  next
    case 2
    then have below: "re_hash (r ! nat mid) < h" using mid by (intro ring_pos_below) auto
    have "find_loop r h (mid + 1) high = Inr (int ?p)"
      by (rule less.hyps) (use 2 less.prems mid in auto)
    with below neq lt mid 2 less.prems show ?thesis by (auto simp: step prev_hash_ok)
  next
    case 3
    then have "h \<le> re_hash (r ! nat mid)" "h \<le> re_hash (r ! (nat mid - 1))"
      using lt assms(1) by (auto intro!: ring_pos_above)
    moreover have "find_loop r h low (mid - 1) = Inr (int ?p)"
      by (rule less.hyps) (use 3 less.prems mid in auto)
    ultimately show ?thesis using neq lt mid 3 less.prems by (auto simp: step prev_hash_ok)
  qed
qed

lemma find_loop_first:
  assumes "h = 0 \<or> ring_pos r h = length r"
  shows "0 \<le> low \<Longrightarrow> low \<le> high \<Longrightarrow> high \<le> int (length r) \<Longrightarrow> find_loop r h low high = Inr 0"
proof (induction "nat (high - low)" arbitrary: low high rule: less_induct)
  case less
  define mid where "mid = (low + high) div 2"
  have mid: "low \<le> mid" "mid \<le> high" "0 \<le> mid" using less.prems by (auto simp: mid_def)
  note step = find_loop.simps[of r h low high, folded mid_def, unfolded Let_def]
  show ?case
  proof (cases "mid = int (length r)")
    case True
    then show ?thesis by (simp add: step)
  next
    case False
    with mid less.prems have lt: "mid < int (length r)" by simp
    have "find_loop r h (mid + 1) high = Inr 0" if "mid + 1 \<le> high"
      by (rule less.hyps) (use that less.prems mid in auto)
    moreover have "find_loop r h low (mid - 1) = Inr 0" if "low \<le> mid - 1"
      by (rule less.hyps) (use that less.prems mid in auto)
    moreover have "re_hash (r ! nat mid) < h" if "h \<noteq> 0"
      using assms that lt mid by (auto intro: ring_pos_below)
    ultimately show ?thesis using False lt mid unfolding step
      by (cases "h = 0") (auto simp: prev_hash_ok)
  qed
qed

lemma ring_find_sorted:
  assumes "sorted (map re_hash r)"
  shows "ring_find r h = Inr (if ring_pos r h < length r then int (ring_pos r h) else 0)"
proof (cases "ring_pos r h < length r \<and> 0 < h")
  case True
  with assms show ?thesis by (simp add: ring_find_def find_loop_found)
next
  case False
  then have "h = 0 \<or> ring_pos r h = length r"
    using ring_pos_le[of r h] by (auto simp: word_gt_0)
  moreover have "ring_pos r 0 = 0" by (cases r) (auto simp: ring_pos_def)
  ultimately show ?thesis by (auto simp: ring_find_def find_loop_first)
qed

section \<open>Lengths and points\<close>

definition custom_vnodes :: "node \<Rightarrow> bool" where
  "custom_vnodes nd = (vnodes nd \<noteq> 0 \<and> vnodes nd \<noteq> 40)"

definition custom_points :: "(string \<Rightarrow> 8 word list) \<Rightarrow> (string \<times> node) list \<Rightarrow> ring_element list" where
  "custom_points md4 ns = concat (map (\<lambda>(shard, nd). shard_points md4 4 shard (vnodes nd)) ns)"

lemma node_length_custom: "custom_vnodes nd \<Longrightarrow> node_length 40 tot n nd = Inr len \<Longrightarrow> len = vnodes nd"
  by (auto simp: node_length_def custom_vnodes_def bind_result_Inr_iff Let_def)

lemma collect_custom:
  "\<forall>(s, nd) \<in> set ns. custom_vnodes nd \<Longrightarrow> collect_points md4 4 40 tot n ns = Inr ps
    \<Longrightarrow> ps = custom_points md4 ns"
proof (induction ns arbitrary: ps)
  case Nil
  then show ?case by (simp add: custom_points_def)
next
  case (Cons sn ns)
  obtain s nd where sn: "sn = (s, nd)" by (cases sn)
  from Cons.prems(2) sn obtain len qs where q: "node_length 40 tot n nd = Inr len"
    "collect_points md4 4 40 tot n ns = Inr qs" "ps = shard_points md4 4 s len @ qs"
    by (auto simp: bind_result_Inr_iff)
  have "len = vnodes nd" using Cons.prems(1) sn q(1) by (intro node_length_custom) auto
  moreover have "qs = custom_points md4 ns" using Cons.IH q(2) Cons.prems(1) by auto
  ultimately show ?case using q(3) sn by (simp add: custom_points_def)
qed

lemma new_hashring_custom:
  assumes "new_hashring md4 ns = Inr hr" "\<forall>(s, nd) \<in> set ns. custom_vnodes nd"
  shows "hr = \<lparr>ring = sort_by ring_less (custom_points md4 ns), nodes = ns, replicas = 4, hr_vnodes = 40\<rparr>"
  using assms(1) by (rule generate_ring) (use assms(2) collect_custom in fastforce)

lemma custom_points_filter:
  "filter (\<lambda>e. re_shard e \<noteq> s) (custom_points md4 ns)
    = custom_points md4 (filter (\<lambda>(t, nd). t \<noteq> s) ns)"
proof (induction ns)
  case Nil
  then show ?case by (simp add: custom_points_def)
next
  case (Cons sn ns)
  obtain t nd where sn: "sn = (t, nd)" by (cases sn)
  have "filter (\<lambda>e. re_shard e \<noteq> s) (shard_points md4 4 t (vnodes nd))
      = (if t = s then [] else shard_points md4 4 t (vnodes nd))"
    by (auto simp: filter_empty_conv dest: shard_of_points intro!: filter_True)
  with Cons sn show ?case by (simp add: custom_points_def)
qed

text \<open>Sums of weights and the share of one node.\<close>

lemma total_weight_sum:
  "\<forall>(s, nd) \<in> set ns. 0 \<le> weight nd \<Longrightarrow> 0 \<le> acc
    \<Longrightarrow> acc + (\<Sum>(s, nd) \<leftarrow> ns. weight nd) \<le> int_max
    \<Longrightarrow> total_weight ns acc = Inr (acc + (\<Sum>(s, nd) \<leftarrow> ns. weight nd))"
proof (induction ns arbitrary: acc)
  case Nil
  then show ?case by simp
next
  case (Cons sn ns)
  obtain s nd where sn: "sn = (s, nd)" by (cases sn)
  have "0 \<le> (\<Sum>(s, nd) \<leftarrow> ns. weight nd)"
    using Cons.prems(1) by (intro sum_list_nonneg) auto
  with Cons sn show ?case by (simp add: add_int32_def in_int32_def algebra_simps)
qed

lemma weight_le_sum:
  "\<forall>(s, nd) \<in> set ns. 0 \<le> weight nd \<Longrightarrow> (s, nd) \<in> set ns
    \<Longrightarrow> weight nd \<le> (\<Sum>(s, nd) \<leftarrow> ns. weight nd)"
proof (induction ns)
  case Nil
  then show ?case by simp
next
  case (Cons sn ns)
  have "0 \<le> (\<Sum>(s, nd) \<leftarrow> ns. weight nd)"
    using Cons.prems(1) by (intro sum_list_nonneg) auto
  with Cons show ?case by (auto split: prod.splits)
qed

lemma node_length_bound:
  assumes "0 \<le> weight nd" "weight nd \<le> tot" "0 < tot" "tot \<le> int_max"
    and "0 \<le> vnodes nd" "vn = (if vnodes nd \<noteq> 0 then vnodes nd else 40)" "vn * int n \<le> int_max"
    and "0 < n"
  shows "\<exists>len. node_length 40 tot n nd = Inr len \<and> 0 \<le> len \<and> len \<le> vn * int n"
proof -
  have vn: "0 < vn" using assms by auto
  then have "vn \<le> vn * int n" "int n \<le> vn * int n" using assms(8) by simp_all
  then have lim: "vn \<le> int_max" "int n \<le> int_max" using assms(7) by linarith+
  obtain p where p: "d_div (d_of_int (weight nd)) (d_of_int tot) = Fin p" "0 \<le> p" "p \<le> 1"
    using d_div_int_bound[of "weight nd" tot 1] assms by auto
  obtain x where x: "d_mul (Fin p) (d_of_int vn) = Fin x" "0 \<le> x" "x \<le> of_int vn"
    using d_mul_int_bound[of p 1 vn] p vn lim by auto
  obtain y where y: "d_mul (Fin x) (d_of_int (int n)) = Fin y" "0 \<le> y" "y \<le> of_int (vn * int n)"
    using d_mul_int_bound[of x vn "int n"] x vn lim assms(7) by auto
  obtain i where i: "c_floor (Fin y) = Fin (of_int i)" "0 \<le> i" "i \<le> vn * int n"
    using c_floor_bound[of y "vn * int n"] y by auto
  then have "d_to_int32 (Fin (of_int i)) = Inr i"
    using assms(7) by (intro d_to_int_of_int) auto
  then show ?thesis using p x y i vn assms(6,8)
    by (auto simp: node_length_def Let_def)
qed

lemma collect_points_total:
  assumes "\<forall>(s, nd) \<in> set ns. \<exists>len. node_length dflt tot n nd = Inr len"
  shows "\<exists>ps. collect_points md4 reps dflt tot n ns = Inr ps"
  using assms by (induction ns) auto

lemma ring_find_hd:
  assumes "sorted (map re_hash r)" "r \<noteq> []"
  shows "bind_result (ring_find r h) (ring_at r) = Inr (hd (dropWhile (\<lambda>e. re_hash e < h) r @ r))"
proof (cases "ring_pos r h < length r")
  case True
  then have "dropWhile (\<lambda>e. re_hash e < h) r \<noteq> []"
    by (auto simp: ring_pos_def)
      (metis less_irrefl takeWhile_eq_all_conv)
  moreover from True have "hd (dropWhile (\<lambda>e. re_hash e < h) r) = r ! ring_pos r h"
    by (simp add: dropWhile_eq_drop ring_pos_def hd_drop_conv_nth)
  ultimately show ?thesis using True assms by (simp add: ring_find_sorted)
next
  case False
  then have "length (takeWhile (\<lambda>e. re_hash e < h) r) = length r"
    using ring_pos_le[of r h] by (simp add: ring_pos_def)
  then have d: "dropWhile (\<lambda>e. re_hash e < h) r = []"
    by (simp only: dropWhile_eq_drop) simp
  show ?thesis using False assms unfolding d by (simp add: ring_find_sorted hd_conv_nth)
qed

lemma ring_owner_hd:
  assumes "new_hashring md4 ns = Inr hr" "ring hr \<noteq> []"
  shows "ring_owner md4 hr key =
    Inr (re_shard (hd (dropWhile (\<lambda>e. re_hash e < hash_value md4 key) (ring hr) @ ring hr)))"
proof -
  have "ring_owner md4 hr key =
      bind_result (bind_result (ring_find (ring hr) (hash_value md4 key)) (ring_at (ring hr)))
        (\<lambda>el. Inr (re_shard el))"
    by (simp add: ring_owner_def bind_result_assoc)
  with assms show ?thesis by (simp add: ring_find_hd sorted_new_hashring)
qed

lemma ring_owner_empty: "ring hr = [] \<Longrightarrow> ring_owner md4 hr key = Inl Out_of_bounds"
  by (simp add: ring_owner_def ring_find_def find_loop.simps ring_at_def)

text \<open>On a sorted ring the successor part of a key is a filter, so it commutes with removal.\<close>

lemma dropWhile_sorted_filter:
  "sorted (map re_hash r) \<Longrightarrow> dropWhile (\<lambda>e. re_hash e < h) r = filter (\<lambda>e. h \<le> re_hash e) r"
proof (induction r)
  case Nil
  then show ?case by simp
next
  case (Cons e r)
  show ?case
  proof (cases "re_hash e < h")
    case True
    with Cons show ?thesis by (simp add: not_le)
  next
    case False
    with Cons.prems have "\<forall>d \<in> set r. h \<le> re_hash d" by (auto simp: not_less)
    with False show ?thesis by (simp add: not_less)
  qed
qed

lemma hd_filter_kept: "xs \<noteq> [] \<Longrightarrow> Q (hd xs) \<Longrightarrow> filter Q xs \<noteq> [] \<and> hd (filter Q xs) = hd xs"
  by (cases xs) auto

lemma owner_of_filter:
  assumes "sorted (map re_hash r)" "r \<noteq> []"
    and "Q (hd (dropWhile (\<lambda>e. re_hash e < h) r @ r))"
  shows "filter Q r \<noteq> [] \<and> hd (dropWhile (\<lambda>e. re_hash e < h) (filter Q r) @ filter Q r)
    = hd (dropWhile (\<lambda>e. re_hash e < h) r @ r)"
proof -
  have "sorted (map re_hash (filter Q r))" using assms(1) by (rule sorted_filter)
  then have d: "dropWhile (\<lambda>e. re_hash e < h) (filter Q r) @ filter Q r
      = filter Q (dropWhile (\<lambda>e. re_hash e < h) r @ r)"
    using assms(1) by (simp add: dropWhile_sorted_filter conj_commute)
  let ?s = "dropWhile (\<lambda>e. re_hash e < h) r @ r"
  have "filter Q ?s \<noteq> [] \<and> hd (filter Q ?s) = hd ?s"
    by (rule hd_filter_kept) (use assms in auto)
  then show ?thesis unfolding d by (auto simp: filter_empty_conv dest: set_dropWhileD)
qed

lemma new_hashring_ok:
  assumes "ns \<noteq> []" "\<forall>(s, nd) \<in> set ns. 0 \<le> weight nd"
    and "0 < (\<Sum>(s, nd) \<leftarrow> ns. weight nd)" "(\<Sum>(s, nd) \<leftarrow> ns. weight nd) \<le> int_max"
    and "\<forall>(s, nd) \<in> set ns. 0 \<le> vnodes nd \<and> max 40 (vnodes nd) * int (length ns) \<le> int_max"
  shows "\<exists>hr. new_hashring md4 ns = Inr hr"
proof -
  let ?t = "\<Sum>(s, nd) \<leftarrow> ns. weight nd"
  have t: "total_weight ns 0 = Inr ?t" using total_weight_sum[of ns 0] assms by simp
  have "\<forall>(s, nd) \<in> set ns. \<exists>len. node_length 40 ?t (length ns) nd = Inr len"
  proof (clarify)
    fix s nd assume m: "(s, nd) \<in> set ns"
    define vn where "vn = (if vnodes nd \<noteq> 0 then vnodes nd else 40)"
    have v: "0 \<le> vnodes nd" "max 40 (vnodes nd) * int (length ns) \<le> int_max" using assms(5) m by auto
    have "vn * int (length ns) \<le> max 40 (vnodes nd) * int (length ns)"
      by (rule mult_right_mono) (auto simp: vn_def)
    then have "vn * int (length ns) \<le> int_max" using v(2) by linarith
    then have "\<exists>len. node_length 40 ?t (length ns) nd = Inr len \<and> 0 \<le> len \<and> len \<le> vn * int (length ns)"
      using assms m weight_le_sum[OF assms(2) m] v(1)
      by (intro node_length_bound) (auto simp: vn_def)
    then show "\<exists>len. node_length 40 ?t (length ns) nd = Inr len" by blast
  qed
  then obtain ps where "collect_points md4 4 40 ?t (length ns) ns = Inr ps"
    using collect_points_total by blast
  with t assms(1) show ?thesis by (simp add: new_hashring_def generate_continuum_def)
qed

lemma node_length_seventh: "weight nd = 1 \<Longrightarrow> vnodes nd = 0 \<Longrightarrow> node_length 40 7 7 nd = Inr 39"
proof -
  assume nd: "weight nd = 1" "vnodes nd = 0"
  have "d_to_int32 (c_floor (d_mul (d_mul (d_div (d_of_int 1) (d_of_int 7)) (d_of_int 40))
      (d_of_int (int 7)))) = Inr 39"
    by code_simp
  with nd show ?thesis by (simp add: node_length_def)
qed

lemma length_collect_const:
  "\<forall>(s, nd) \<in> set ns. node_length dflt tot n nd = Inr len
    \<Longrightarrow> \<exists>ps. collect_points md4 reps dflt tot n ns = Inr ps \<and> length ps = length ns * (nat len * nat reps)"
  by (induction ns) (auto simp: length_shard_points)

lemma ring_get_nonempty:
  assumes "new_hashring md4 ns = Inr hr" "umap_ok ns"
    and False: "ring hr \<noteq> []"
  shows "\<exists>s nd. ring_owner md4 hr key = Inr s \<and> ring_get md4 hr key = Inr nd \<and> (s, nd) \<in> set ns"
proof -
  let ?e = "hd (dropWhile (\<lambda>e. re_hash e < hash_value md4 key) (ring hr) @ ring hr)"
  have ns: "nodes hr = ns" using assms(1) by (rule generate_ring) simp
  have "?e \<in> set (dropWhile (\<lambda>e. re_hash e < hash_value md4 key) (ring hr) @ ring hr)"
    using False by (intro hd_in_set) simp
  then have "?e \<in> set (ring hr)" by (auto dest: set_dropWhileD)
  then have "re_shard ?e \<in> fst ` set ns" using assms(1) by (intro ring_shards)
  then obtain nd where nd: "(re_shard ?e, nd) \<in> set ns" by auto
  then have "map_of ns (re_shard ?e) = Some nd" using assms(2) by (simp add: umap_ok_mem)
  with False assms(1) nd ns show ?thesis by (auto simp: ring_get_def ring_owner_hd)
qed

text \<open>A concrete digest function and configuration, for the closed instances below.\<close>

definition sample_digest :: "string \<Rightarrow> 8 word list" where
  "sample_digest s =
     map (\<lambda>i. word_of_int (foldl (\<lambda>a c. a * 31 + of_char c) (59 * i) s)) [0..15]"

definition sample_nodes :: "(string, node) umap" where
  "sample_nodes =
     [(''a'', \<lparr>host = ''10.0.0.1'', port = 3101, vnodes = 2, weight = 1\<rparr>),
      (''b'', \<lparr>host = ''10.0.0.2'', port = 3102, vnodes = 1, weight = 3\<rparr>)]"

lemma sample_nodes_simps:
  "sample_nodes \<noteq> []" "umap_ok sample_nodes" "\<forall>(s, nd) \<in> set sample_nodes. custom_vnodes nd"
  by (simp_all add: sample_nodes_def umap_ok_def custom_vnodes_def)

section \<open>Properties\<close>

text \<open>
  C12. \<^verbatim>\<open>Hashring::find\<close> on a sorted, non-empty ring never reads out of range and returns the
  position of the first ring element whose hash is not below the key's hash, or 0 (the
  wrap-around) when every element's hash is below it.
\<close>

theorem find_successor:
  assumes "sorted (map re_hash r)" "r \<noteq> []"
  shows "\<exists>i. ring_find r h = Inr (int i) \<and> i < length r \<and>
    ((h \<le> re_hash (r ! i) \<and> (\<forall>j < i. re_hash (r ! j) < h)) \<or>
     (i = 0 \<and> (\<forall>e \<in> set r. re_hash e < h)))"
proof (cases "ring_pos r h < length r")
  case True
  with assms show ?thesis
    by (intro exI[of _ "ring_pos r h"])
      (auto simp: ring_find_sorted intro: ring_pos_above ring_pos_below)
next
  case False
  then have "ring_pos r h = length r" using ring_pos_le[of r h] by simp
  then have "\<forall>e \<in> set r. re_hash e < h"
    using ring_pos_below[of _ r h] by (auto simp: in_set_conv_nth)
  with assms False show ?thesis by (intro exI[of _ 0]) (auto simp: ring_find_sorted)
qed

text \<open>
  Where the hashes of the points differ, neither the order of the nodes nor the sorting algorithm
  has an influence on the ring.
\<close>

lemma sorted_points_unique:
  assumes "sorted (map re_hash xs)" "sorted (map re_hash ys)" "mset xs = mset ys" "distinct (map re_hash xs)"
  shows "xs = ys"
proof -
  have "mset (map re_hash ys) = mset (map re_hash xs)" using assms(3) by simp
  then have "distinct (map re_hash ys)" using assms(4) by (metis mset_eq_imp_distinct_iff)
  moreover have "set xs = set ys" using assms(3) by (rule mset_eq_setD)
  moreover have "inj_on re_hash (set xs \<union> set ys)" using assms(4) calculation(2) by (simp add: distinct_map)
  ultimately show ?thesis using assms(1,2,4) by (intro map_sorted_distinct_set_unique)
qed

lemma ring_order_free:
  assumes "new_hashring md4 ns = Inr hr" "new_hashring md4 ns' = Inr hr'" "mset ns' = mset ns"
    and "\<forall>(s, nd) \<in> set ns. custom_vnodes nd" "distinct (map re_hash (ring hr))"
  shows "ring hr' = ring hr"
    and "sorted (map re_hash ps) \<Longrightarrow> mset ps = mset (custom_points md4 ns) \<Longrightarrow> ps = ring hr"
proof -
  have ns': "\<forall>(s, nd) \<in> set ns'. custom_vnodes nd" using assms(4) mset_eq_setD[OF assms(3)] by simp
  have "mset (custom_points md4 ns') = mset (custom_points md4 ns)"
    unfolding custom_points_def mset_concat by (simp only: sum_mset_sum_list[symmetric] mset_map map_map assms(3))
  then show "ring hr' = ring hr"
    using new_hashring_custom[OF assms(1,4)] new_hashring_custom[OF assms(2) ns'] assms(5)
    by (intro sorted_points_unique[symmetric]) (simp_all add: sorted_ring_sort)
  show "sorted (map re_hash ps) \<Longrightarrow> mset ps = mset (custom_points md4 ns) \<Longrightarrow> ps = ring hr"
    using new_hashring_custom[OF assms(1,4)] assms(5)
    by (intro sorted_points_unique[symmetric]) (simp_all add: sorted_ring_sort)
qed

text \<open>
  C34. A constructed ring is sorted by hash and, when every node has a custom \<^verbatim>\<open>vnodes\<close>, is a
  permutation of four points for each of the \<^verbatim>\<open>vnodes\<close> digests of each shard: the weight has
  no influence.
\<close>

theorem ring_sorted_permutation:
  assumes "new_hashring md4 ns = Inr hr" "\<forall>(s, nd) \<in> set ns. custom_vnodes nd"
  shows "sorted (map re_hash (ring hr))
    \<and> mset (ring hr) = mset (concat (map (\<lambda>(s, nd). shard_points md4 4 s (vnodes nd)) ns))
    \<and> length (ring hr) = (\<Sum>(s, nd) \<leftarrow> ns. nat (vnodes nd) * 4)"
  using new_hashring_custom[OF assms]
  by (simp add: sorted_ring_sort custom_points_def length_concat length_shard_points
      comp_def split_def)

text \<open>
  \<^verbatim>\<open>Hashring::get\<close> on a constructed ring returns a configured node for every key exactly
  when the ring has an element; on an empty ring (every length zero or negative) it reads
  \<^verbatim>\<open>ring[0]\<close> out of range.
\<close>

theorem get_total:
  assumes "new_hashring md4 ns = Inr hr" "umap_ok ns"
  shows "if ring hr = [] then ring_get md4 hr key = Inl Out_of_bounds
    else \<exists>s nd. ring_owner md4 hr key = Inr s \<and> ring_get md4 hr key = Inr nd \<and> (s, nd) \<in> set ns"
  using assms ring_get_nonempty by (auto simp: ring_get_def ring_owner_empty)

text \<open>
  C13. Minimal disruption: taking a shard out of the configuration (custom \<^verbatim>\<open>vnodes\<close>
  everywhere) leaves the node of every key that another shard owned unchanged; read
  backwards, adding a shard moves keys to the new shard only.
\<close>

theorem minimal_disruption:
  assumes "new_hashring md4 ns = Inr hr"
    and "new_hashring md4 (filter (\<lambda>(t, nd). t \<noteq> s) ns) = Inr hr'"
    and "\<forall>(t, nd) \<in> set ns. custom_vnodes nd"
    and "ring_owner md4 hr key = Inr t" "t \<noteq> s"
  shows "ring_owner md4 hr' key = Inr t \<and> ring_get md4 hr' key = ring_get md4 hr key"
proof -
  let ?ns' = "filter (\<lambda>(t, nd). t \<noteq> s) ns"
  let ?Q = "\<lambda>e. re_shard e \<noteq> s"
  let ?h = "hash_value md4 key"
  have hr: "ring hr = sort_by ring_less (custom_points md4 ns)" "nodes hr = ns"
    using new_hashring_custom[OF assms(1,3)] by simp_all
  have hr': "ring hr' = sort_by ring_less (custom_points md4 ?ns')" "nodes hr' = ?ns'"
    using new_hashring_custom[OF assms(2)] assms(3) by auto
  have r': "ring hr' = filter ?Q (ring hr)"
    by (simp add: hr hr' filter_ring_sort custom_points_filter)
  have ne: "ring hr \<noteq> []" using assms(4) ring_owner_empty by fastforce
  have t: "re_shard (hd (dropWhile (\<lambda>e. re_hash e < ?h) (ring hr) @ ring hr)) = t"
    using assms(4) by (simp add: ring_owner_hd[OF assms(1) ne])
  have "ring hr' \<noteq> [] \<and> hd (dropWhile (\<lambda>e. re_hash e < ?h) (ring hr') @ ring hr')
      = hd (dropWhile (\<lambda>e. re_hash e < ?h) (ring hr) @ ring hr)"
    unfolding r' by (rule owner_of_filter)
      (use t assms(5) ne sorted_new_hashring[OF assms(1)] in auto)
  then have o: "ring_owner md4 hr' key = Inr t" using t by (simp add: ring_owner_hd[OF assms(2)])
  moreover have "map_of ?ns' t = map_of ns t"
    using assms(5) by (induction ns) auto
  ultimately show ?thesis using assms(4) by (simp add: ring_get_def hr hr')
qed

text \<open>
  Construction succeeds, and every shard gets a length between 0 and
  \<^verbatim>\<open>vnodes * nodes.size()\<close>, when the weights are not negative, their sum is positive and fits
  an \<^verbatim>\<open>int\<close>, and so do the products with \<^verbatim>\<open>vnodes\<close>.
\<close>

theorem new_hashring_succeeds:
  assumes "ns \<noteq> []" "\<forall>(s, nd) \<in> set ns. 0 \<le> weight nd"
    and "0 < (\<Sum>(s, nd) \<leftarrow> ns. weight nd)" "(\<Sum>(s, nd) \<leftarrow> ns. weight nd) \<le> int_max"
    and "\<forall>(s, nd) \<in> set ns. 0 \<le> vnodes nd \<and> max 40 (vnodes nd) * int (length ns) \<le> int_max"
  shows "\<exists>hr. new_hashring md4 ns = Inr hr"
  using assms by (rule new_hashring_ok)

text \<open>
  The comment of the constructor promises 160 points per server for the default of 40
  \<^verbatim>\<open>vnodes\<close> and 4 replicas. With seven servers of equal weight the rounded share
  \<^verbatim>\<open>1.0/7 * 40 * 7\<close> falls below 40, and every server gets 39 digests, 156 points.
\<close>

theorem seven_equal_servers:
  assumes "length ns = 7" "\<forall>(s, nd) \<in> set ns. weight nd = 1 \<and> vnodes nd = 0"
  shows "\<exists>hr. new_hashring md4 ns = Inr hr \<and> length (ring hr) = 7 * 156"
proof -
  have "map (\<lambda>(s, nd). weight nd) ns = map (\<lambda>_. 1) ns" using assms(2) by auto
  then have "(\<Sum>(s, nd) \<leftarrow> ns. weight nd) = sum_list (map (\<lambda>_. 1) ns)" by (rule arg_cong)
  then have w: "(\<Sum>(s, nd) \<leftarrow> ns. weight nd) = 7" using assms(1) by (simp add: sum_list_triv)
  have t: "total_weight ns 0 = Inr 7" using total_weight_sum[of ns 0] w assms(2) by fastforce
  have "\<forall>(s, nd) \<in> set ns. node_length 40 7 7 nd = Inr 39"
    using assms(2) node_length_seventh by auto
  from length_collect_const[OF this, of md4 4] obtain ps
    where "collect_points md4 4 40 7 7 ns = Inr ps" "length ps = 7 * 156"
    using assms(1) by auto
  with t assms(1) show ?thesis by (auto simp: new_hashring_def generate_continuum_def)
qed

text \<open>
  A ring point is four digest bytes, the first one least significant: shifting the
  point by whole bytes gives the digest bytes back, so two digests with the same points
  have the same sixteen bytes.
\<close>

theorem digest_point_bytes:
  assumes "k < 4"
  shows "ucast (drop_bit (8 * k) (digest_point digest j)) = digest ! (k + j * 4)"
proof (rule bit_word_eqI)
  fix n assume n: "n < LENGTH(8)"
  consider "k = 0" | "k = 1" | "k = 2" | "k = 3" using assms by linarith
  then show "bit (ucast (drop_bit (8 * k) (digest_point digest j)) :: 8 word) n
      \<longleftrightarrow> bit (digest ! (k + j * 4)) n"
    using n by cases
      (auto simp: digest_point_def hash4_def digest_byte_def bit_simps dest: bit_imp_le_length)
qed

section \<open>Instances\<close>

lemma find_successor_witness:
  "sorted (map re_hash [\<lparr>re_hash = 3, re_shard = ''a''\<rparr>, \<lparr>re_hash = 8, re_shard = ''b''\<rparr>]) \<and>
   (\<exists>i. ring_find [\<lparr>re_hash = 3, re_shard = ''a''\<rparr>, \<lparr>re_hash = 8, re_shard = ''b''\<rparr>] 5 = Inr (int i) \<and> i < 2)"
  using find_successor[of "[\<lparr>re_hash = 3, re_shard = ''a''\<rparr>, \<lparr>re_hash = 8, re_shard = ''b''\<rparr>]" 5]
  by auto

lemma sample_ring_ok: "ok (new_hashring sample_digest sample_nodes)"
  unfolding ok_iff by (rule new_hashring_ok) (auto simp: sample_nodes_def)

lemma ring_sorted_permutation_witness:
  "\<exists>hr. new_hashring sample_digest sample_nodes = Inr hr \<and> length (ring hr) = 12"
proof -
  obtain hr where hr: "new_hashring sample_digest sample_nodes = Inr hr"
    using sample_ring_ok by (auto simp: ok_iff)
  show ?thesis using hr ring_sorted_permutation[OF hr sample_nodes_simps(3)]
    by (simp add: sample_nodes_def)
qed

lemma sample_ring:
  assumes "new_hashring sample_digest sample_nodes = Inr hr"
  shows "length (ring hr) = 12" "\<exists>t nd. ring_owner sample_digest hr key = Inr t \<and> (t, nd) \<in> set sample_nodes"
proof -
  show l: "length (ring hr) = 12"
    using new_hashring_custom[OF assms sample_nodes_simps(3)]
    by (simp add: sample_nodes_def custom_points_def length_shard_points)
  show "\<exists>t nd. ring_owner sample_digest hr key = Inr t \<and> (t, nd) \<in> set sample_nodes"
    using ring_get_nonempty[OF assms sample_nodes_simps(2)] l by fastforce
qed

lemma get_total_witness:
  "\<exists>hr nd. new_hashring sample_digest sample_nodes = Inr hr \<and> ring_get sample_digest hr ''k'' = Inr nd"
proof -
  obtain hr where hr: "new_hashring sample_digest sample_nodes = Inr hr"
    using sample_ring_ok by (auto simp: ok_iff)
  then have "ring hr \<noteq> []" using sample_ring(1) by fastforce
  with hr get_total[OF hr sample_nodes_simps(2), of "''k''"] show ?thesis by auto
qed

lemma minimal_disruption_witness:
  "\<exists>s t hr hr'. new_hashring sample_digest sample_nodes = Inr hr \<and> s \<noteq> t \<and>
     ring_owner sample_digest hr ''k'' = Inr t \<and>
     new_hashring sample_digest (filter (\<lambda>(u, nd). u \<noteq> s) sample_nodes) = Inr hr' \<and>
     ring_owner sample_digest hr' ''k'' = Inr t"
proof -
  obtain hr where hr: "new_hashring sample_digest sample_nodes = Inr hr"
    using sample_ring_ok by (auto simp: ok_iff)
  obtain t nd where t: "ring_owner sample_digest hr ''k'' = Inr t" "(t, nd) \<in> set sample_nodes"
    using sample_ring(2)[OF hr] by blast
  define s where "s = (if t = ''a'' then ''b'' else ''a'')"
  have st: "s \<noteq> t" by (auto simp: s_def)
  have "\<exists>hr'. new_hashring sample_digest (filter (\<lambda>(u, nd). u \<noteq> s) sample_nodes) = Inr hr'"
    using t(2) by (intro new_hashring_ok) (auto simp: s_def sample_nodes_def)
  then obtain hr' where hr': "new_hashring sample_digest (filter (\<lambda>(u, nd). u \<noteq> s) sample_nodes) = Inr hr'"
    by blast
  show ?thesis
    using minimal_disruption[OF hr hr' sample_nodes_simps(3) t(1) st[symmetric]] hr hr' t st by blast
qed

lemma new_hashring_succeeds_witness:
  "\<exists>hr. new_hashring sample_digest sample_nodes = Inr hr"
  by (rule new_hashring_succeeds) (auto simp: sample_nodes_def)

lemma seven_equal_servers_witness:
  "\<exists>hr. new_hashring sample_digest
      (map (\<lambda>i. (replicate i CHR ''x'', \<lparr>host = ''h'', port = 1, vnodes = 0, weight = 1\<rparr>)) [0..<7]) = Inr hr
    \<and> length (ring hr) = 1092"
  using seven_equal_servers[of "map (\<lambda>i. (replicate i CHR ''x'',
      \<lparr>host = ''h'', port = 1, vnodes = 0, weight = 1\<rparr>)) [0..<7]" sample_digest]
  by auto

lemma digest_point_bytes_witness:
  "ucast (drop_bit 16 (digest_point [1, 2, 3, 4, 5, 6, 7, 8, 9, 10, 11, 12, 13, 14, 15, 16] 1)) = (7 :: 8 word)"
  using digest_point_bytes[of 2 "[1, 2, 3, 4, 5, 6, 7, 8, 9, 10, 11, 12, 13, 14, 15, 16]" 1] by simp

end
