(* ===== verification/Net.thy ===== *)
theory Net
  imports Syscalls Hashring "HOL-Library.Sublist"
begin

text \<open>
  Client connections: \<^verbatim>\<open>lib/net/lib.cc\<close>, \<^verbatim>\<open>include/statsdcc/net/connection.h\<close>, the destination
  lists the repeater and the proxy build, and the delivery of carbon's strings.
\<close>

section \<open>Connecting\<close>

text \<open>The \<^verbatim>\<open>int\<close> a call that creates a descriptor returns.\<close>

definition fd_of :: "nat answer \<Rightarrow> int" where
  "fd_of a = (case a of Ret n \<Rightarrow> int n | Fail e \<Rightarrow> -1)"

definition resolve_ip :: "string \<Rightarrow> env \<Rightarrow> 32 word option run" where
  "resolve_ip name s = (case q_resolve s of
     [] \<Rightarrow> Waiting s
   | r # q \<Rightarrow>
       (let s = s\<lparr>q_resolve := q\<rparr> in
        case r of
          No_host \<Rightarrow> Done None (log_error_msg ''gethostbyname error: '' s)
        | Host_address a \<Rightarrow> Done (Some a) s
        | No_address \<Rightarrow> Done None (log_error_msg ''gethostbyname error: No IP was resolved'' s)))"

text \<open>\<^verbatim>\<open>htons\<close> keeps the low 16 bits of the configured port.\<close>

definition sock_address :: "32 word \<Rightarrow> int \<Rightarrow> sockaddr" where
  "sock_address a p = \<lparr>sa_addr = a, sa_port = word_of_int p\<rparr>"

definition connect_to :: "sockaddr \<Rightarrow> env \<Rightarrow> int run" where
  "connect_to addr s =
     run_bind (w_socket s) (\<lambda>sk s.
       if fd_of sk = -1 then Done (-1) s
       else run_bind (w_setsockopt (fd_of sk) ''SO_KEEPALIVE'' s) (\<lambda>_ s.
         run_bind (w_connect (fd_of sk) addr s) (\<lambda>r s.
           case r of
             Fail e \<Rightarrow> run_bind (w_close (fd_of sk) s) (\<lambda>_ s. Done (-1) s)
           | Ret n \<Rightarrow> Done (fd_of sk) s)))"

definition net_connect :: "hostport \<Rightarrow> env \<Rightarrow> int run" where
  "net_connect hp s =
     run_bind (w_inet_pton (c_str (host hp)) s) (\<lambda>ip s. case ip of
       Not_an_address \<Rightarrow> run_bind (resolve_ip (host hp) s) (\<lambda>a s. case a of
           None \<Rightarrow> Done (-1) s
         | Some addr \<Rightarrow> connect_to (sock_address addr (port hp)) s)
     | Bad_family \<Rightarrow> Done (-1) s
     | Address addr \<Rightarrow> connect_to (sock_address addr (port hp)) s)"

section \<open>Connections\<close>

record connection =
  cn_dest :: hostport
  cn_fd :: int

definition new_connection :: "hostport \<Rightarrow> env \<Rightarrow> connection run" where
  "new_connection hp s = run_bind (net_connect hp s) (\<lambda>fd s. Done \<lparr>cn_dest = hp, cn_fd = fd\<rparr> s)"

definition conn_bad :: "connection \<Rightarrow> bool" where
  "conn_bad c = (cn_fd c = -1)"

definition conn_close :: "connection \<Rightarrow> env \<Rightarrow> nat answer run" where
  "conn_close c s = (if conn_bad c then Done (Ret 0) s else w_close (cn_fd c) s)"

definition conn_read :: "nat \<Rightarrow> connection \<Rightarrow> env \<Rightarrow> string answer run" where
  "conn_read n c s = w_readn (cn_fd c) n s"

definition conn_refresh :: "connection \<Rightarrow> env \<Rightarrow> connection run" where
  "conn_refresh c s =
     (if conn_bad c
      then run_bind (net_connect (cn_dest c) s) (\<lambda>fd s. Done (c\<lparr>cn_fd := fd\<rparr>) s)
      else run_bind (w_poll (cn_fd c) s) (\<lambda>hup s.
        if hup = Ret True
        then run_bind (conn_close c s) (\<lambda>_ s.
          run_bind (net_connect (cn_dest c) s) (\<lambda>fd s. Done (c\<lparr>cn_fd := fd\<rparr>) s))
        else Done c s))"

definition try_write :: "string \<Rightarrow> connection \<Rightarrow> env \<Rightarrow> bool run" where
  "try_write str c s =
     (if conn_bad c then Done False s
      else run_bind (w_writen (cn_fd c) str s) (\<lambda>r s. Done (case r of Ret _ \<Rightarrow> True | Fail _ \<Rightarrow> False) s))"

text \<open>
  What the steps leave of the answers: a failed write used up an answer for \<^verbatim>\<open>write\<close>, a
  connection one for \<^verbatim>\<open>socket\<close>. So \<open>write\<close>, which calls itself after every refresh, ends in
  every finite environment.
\<close>

definition io_fuel :: "env \<Rightarrow> nat" where
  "io_fuel s = length (q_socket s) + length (q_write s)"

lemma sys_call_Done:
  "sys_call get upd ev s = Done r t \<longleftrightarrow> (\<exists>q. get s = r # q
     \<and> t = (upd (\<lambda>_. q) s)\<lparr>errno_now := errno_after r, trace := trace s @ [ev r]\<rparr>)"
  by (auto simp: sys_call_def split: list.splits)

lemma log_failure_Done:
  "log_failure m x = Done r t \<longleftrightarrow> (\<exists>u. x = Done r u
     \<and> t = (case r of Ret _ \<Rightarrow> u | Fail _ \<Rightarrow> log_error_msg m u))"
  by (cases x; cases r) (auto simp: log_failure_def split: answer.splits)

lemma q_log [simp]: "q_write (log_error_msg m s) = q_write s" "q_socket (log_error_msg m s) = q_socket s"
  "q_resolve (log_error_msg m s) = q_resolve s" "trace (log_error_msg m s) = trace s"
  by (simp_all add: log_error_msg_def)

lemma w_socket_fuel: "w_socket s = Done r t \<Longrightarrow> q_write t = q_write s \<and> length (q_socket s) = Suc (length (q_socket t))"
  unfolding w_socket_def log_failure_Done sys_call_Done by (cases r) clarsimp+

lemma wrapper_fuel:
  "w_setsockopt fd opt s = Done r t \<Longrightarrow> q_write t = q_write s \<and> q_socket t = q_socket s"
  "w_connect fd addr s = Done r t \<Longrightarrow> q_write t = q_write s \<and> q_socket t = q_socket s"
  "w_close fd s = Done r t \<Longrightarrow> q_write t = q_write s \<and> q_socket t = q_socket s"
  unfolding w_setsockopt_def w_connect_def w_close_def log_failure_Done sys_call_Done
  by (cases r; clarsimp)+

lemma w_poll_fuel: "w_poll fd s = Done r t \<Longrightarrow> q_write t = q_write s \<and> q_socket t = q_socket s"
  unfolding w_poll_def log_failure_Done sys_call_Done by (cases r) clarsimp+

lemma w_inet_pton_fuel: "w_inet_pton n s = Done p t \<Longrightarrow> q_write t = q_write s \<and> q_socket t = q_socket s"
  by (cases "pton s n") (auto simp: w_inet_pton_def)

lemma resolve_ip_fuel: "resolve_ip n s = Done a t \<Longrightarrow> q_write t = q_write s \<and> q_socket t = q_socket s"
  by (auto simp: resolve_ip_def Let_def split: list.split_asm resolve_answer.split_asm)

lemma conn_close_fuel: "conn_close c s = Done r t \<Longrightarrow> q_write t = q_write s \<and> q_socket t = q_socket s"
  by (auto simp: conn_close_def split: if_split_asm dest: wrapper_fuel)

lemmas calls_fuel = wrapper_fuel w_poll_fuel w_inet_pton_fuel resolve_ip_fuel conn_close_fuel

lemma connect_to_fuel:
  "connect_to addr s = Done fd t \<Longrightarrow> q_write t = q_write s
     \<and> length (q_socket t) + (if fd = -1 then 0 else 1) \<le> length (q_socket s)"
  by (auto simp: connect_to_def split: answer.split_asm if_split_asm
      elim!: run_bind_DoneE dest!: w_socket_fuel calls_fuel)

lemma net_connect_fuel:
  "net_connect hp s = Done fd t \<Longrightarrow> q_write t = q_write s
     \<and> length (q_socket t) + (if fd = -1 then 0 else 1) \<le> length (q_socket s)"
  by (auto simp: net_connect_def split: pton_answer.split_asm option.split_asm
      elim!: run_bind_DoneE
      dest!: connect_to_fuel calls_fuel)

lemma conn_refresh_fuel:
  "conn_refresh c s = Done c' t \<Longrightarrow> q_write t = q_write s
     \<and> length (q_socket t) + (if conn_bad c \<and> \<not> conn_bad c' then 1 else 0) \<le> length (q_socket s)"
  by (auto simp: conn_refresh_def conn_bad_def split: if_split_asm
      elim!: run_bind_DoneE
      dest!: net_connect_fuel calls_fuel)

lemma writen_loop_fuel:
  "writen_loop fd ptr s = Done r t \<Longrightarrow>
     q_socket t = q_socket s \<and> ((\<exists>e. r = Fail e) \<longrightarrow> length (q_write t) < length (q_write s))"
proof (induction fd ptr s rule: writen_loop.induct)
  case (1 fd ptr s)
  show ?case
  proof (cases "ptr = [] \<or> q_write s = []")
    case True
    with "1.prems" show ?thesis by (subst (asm) writen_loop.simps) (auto split: if_split_asm list.split_asm)
  next
    case False
    then obtain a q where q: "ptr \<noteq> []" "q_write s = a # q" by (auto simp: neq_Nil_conv)
    with "1.prems" "1.IH"[OF q refl] show ?thesis
      by (subst (asm) writen_loop.simps) (fastforce simp: Let_def split: answer.split_asm if_split_asm)
  qed
qed

lemma try_write_fuel:
  assumes "try_write str c s = Done False t"
  shows "conn_bad c \<and> t = s \<or> \<not> conn_bad c \<and> q_socket t = q_socket s \<and> length (q_write t) < length (q_write s)"
  using assms
  by (auto simp: try_write_def w_writen_def log_failure_Done
      split: if_split_asm answer.split_asm elim!: run_bind_DoneE dest!: writen_loop_fuel)

function conn_write :: "string \<Rightarrow> connection \<Rightarrow> env \<Rightarrow> (bool \<times> connection) run" where
  "conn_write str c s =
     (case try_write str c s of
        Waiting t \<Rightarrow> Waiting t
      | Crash e t \<Rightarrow> Crash e t
      | Done written t \<Rightarrow>
          if written then Done (True, c) t
          else (case conn_refresh c t of
              Waiting u \<Rightarrow> Waiting u
            | Crash e u \<Rightarrow> Crash e u
            | Done c' u \<Rightarrow> if conn_bad c' then Done (False, c') u else conn_write str c' u))"
  by pat_completeness auto
termination
  by (relation "measure (\<lambda>(str, c, s). io_fuel s)")
    (auto simp: io_fuel_def dest!: try_write_fuel conn_refresh_fuel split: if_splits)

declare conn_write.simps [simp del]

section \<open>Bytes and descriptors\<close>

text \<open>
  What a piece of the record of calls says: the bytes the operating system took, and the
  descriptors that were opened and closed.
\<close>

fun ev_bytes :: "event \<Rightarrow> string" where
  "ev_bytes (Ev_write fd buf (Ret n)) = take n buf"
| "ev_bytes e = []"

fun ev_opened :: "event \<Rightarrow> int list" where
  "ev_opened (Ev_socket (Ret n)) = [int n]"
| "ev_opened (Ev_accept fd (Ret n)) = [int n]"
| "ev_opened e = []"

fun ev_closed :: "event \<Rightarrow> int list" where
  "ev_closed (Ev_close fd r) = [fd]"
| "ev_closed e = []"

definition taken :: "event list \<Rightarrow> string" where
  "taken es = concat (map ev_bytes es)"

definition opened :: "event list \<Rightarrow> int multiset" where
  "opened es = mset (concat (map ev_opened es))"

definition closed_fds :: "event list \<Rightarrow> int multiset" where
  "closed_fds es = mset (concat (map ev_closed es))"

definition writes_only :: "int \<Rightarrow> event list \<Rightarrow> bool" where
  "writes_only fd es = (\<forall>e \<in> set es. case e of Ev_write f buf r \<Rightarrow> f = fd | _ \<Rightarrow> False)"

definition owned :: "connection \<Rightarrow> int multiset" where
  "owned c = (if conn_bad c then {#} else {#cn_fd c#})"

lemma trace_append [simp]:
  "taken (xs @ ys) = taken xs @ taken ys" "opened (xs @ ys) = opened xs + opened ys"
  "closed_fds (xs @ ys) = closed_fds xs + closed_fds ys"
  "writes_only fd (xs @ ys) \<longleftrightarrow> writes_only fd xs \<and> writes_only fd ys"
  by (auto simp: taken_def opened_def closed_fds_def writes_only_def)

lemma trace_Nil [simp]: "taken [] = []" "opened [] = {#}" "closed_fds [] = {#}" "writes_only fd []"
  by (simp_all add: taken_def opened_def closed_fds_def writes_only_def)

lemma trace_Cons:
  "taken (e # es) = ev_bytes e @ taken es" "opened (e # es) = mset (ev_opened e) + opened es"
  "closed_fds (e # es) = mset (ev_closed e) + closed_fds es"
  by (simp_all add: taken_def opened_def closed_fds_def)

text \<open>A step that writes nothing and turns the descriptors \<open>a\<close> into \<open>b\<close>.\<close>

definition moves :: "env \<Rightarrow> env \<Rightarrow> int multiset \<Rightarrow> int multiset \<Rightarrow> bool" where
  "moves s t a b = (\<exists>new. trace t = trace s @ new \<and> taken new = [] \<and> a + opened new = b + closed_fds new)"

lemma moves_refl [simp]: "moves s s a a"
  by (simp add: moves_def)

lemma moves_trans: "moves s t a b \<Longrightarrow> moves t u b c \<Longrightarrow> moves s u a c"
proof -
  assume "moves s t a b" "moves t u b c"
  then obtain x y where "trace t = trace s @ x" "taken x = []" "a + opened x = b + closed_fds x"
    "trace u = trace t @ y" "taken y = []" "b + opened y = c + closed_fds y"
    by (auto simp: moves_def)
  note h = this
  have "a + (opened x + opened y) = (b + opened y) + closed_fds x"
    using h(3) by (metis add.assoc add.commute)
  also have "\<dots> = c + (closed_fds x + closed_fds y)" using h(6) by (simp add: ac_simps)
  finally show ?thesis using h(1,2,4,5) by (auto simp: moves_def intro!: exI[of _ "x @ y"])
qed

lemma moves_log [simp]:
  "moves s (log_error_msg m t) a b \<longleftrightarrow> moves s t a b" "moves (log_error_msg m s) t a b \<longleftrightarrow> moves s t a b"
  by (simp_all add: moves_def)

lemma moves_call:
  "trace t = trace s @ [e] \<Longrightarrow> ev_bytes e = [] \<Longrightarrow> a + mset (ev_opened e) = b + mset (ev_closed e)
     \<Longrightarrow> moves s t a b"
  by (auto simp: moves_def trace_Cons intro!: exI[of _ "[e]"])

lemma w_socket_moves: "w_socket s = Done r t \<Longrightarrow> moves s t {#} (if fd_of r = -1 then {#} else {#fd_of r#})"
  unfolding w_socket_def log_failure_Done sys_call_Done fd_of_def
  by (cases r) (auto intro!: moves_call)

lemma wrapper_moves:
  "w_setsockopt fd opt s = Done r t \<Longrightarrow> moves s t a a"
  "w_connect fd addr s = Done r t \<Longrightarrow> moves s t a a"
  "w_close fd s = Done r t \<Longrightarrow> moves s t {#fd#} {#}"
  unfolding w_setsockopt_def w_connect_def w_close_def log_failure_Done sys_call_Done
  by (cases r; auto intro!: moves_call)+

lemma w_poll_moves: "w_poll fd s = Done r t \<Longrightarrow> moves s t a a"
  unfolding w_poll_def log_failure_Done sys_call_Done by (cases r) (auto intro!: moves_call)

lemma w_inet_pton_moves: "w_inet_pton n s = Done p t \<Longrightarrow> moves s t a a"
  by (cases "pton s n") (auto simp: w_inet_pton_def moves_def log_error_msg_def)

lemma resolve_ip_moves: "resolve_ip n s = Done r t \<Longrightarrow> moves s t a a"
  by (auto simp: resolve_ip_def Let_def moves_def log_error_msg_def split: list.split_asm resolve_answer.split_asm)

lemma connect_to_moves:
  assumes "connect_to addr s = Done fd t"
  shows "moves s t {#} (if fd = -1 then {#} else {#fd#})"
proof -
  from assms obtain sk s1 where sk: "w_socket s = Done sk s1"
    and rest: "if fd_of sk = -1 then fd = -1 \<and> t = s1
      else run_bind (w_setsockopt (fd_of sk) ''SO_KEEPALIVE'' s1) (\<lambda>_ s.
         run_bind (w_connect (fd_of sk) addr s) (\<lambda>r s. case r of
             Fail e \<Rightarrow> run_bind (w_close (fd_of sk) s) (\<lambda>_ s. Done (-1) s)
           | Ret n \<Rightarrow> Done (fd_of sk) s)) = Done fd t"
    by (auto simp: connect_to_def split: if_split_asm elim!: run_bind_DoneE)
  show ?thesis
  proof (cases "fd_of sk = -1")
    case True
    with rest w_socket_moves[OF sk] show ?thesis by simp
  next
    case False
    with rest obtain o2 s2 r s3 where steps: "w_setsockopt (fd_of sk) ''SO_KEEPALIVE'' s1 = Done o2 s2"
        "w_connect (fd_of sk) addr s2 = Done r s3"
      and last: "(case r of Fail e \<Rightarrow> run_bind (w_close (fd_of sk) s3) (\<lambda>_ s. Done (-1) s)
           | Ret n \<Rightarrow> Done (fd_of sk) s3) = Done fd t"
      by (auto elim!: run_bind_DoneE)
    have here: "moves s s3 {#} {#fd_of sk#}"
    proof (rule moves_trans)
      show "moves s s1 {#} {#fd_of sk#}" using w_socket_moves[OF sk] False by simp
      show "moves s1 s3 {#fd_of sk#} {#fd_of sk#}"
        by (rule moves_trans[OF wrapper_moves(1)[OF steps(1)] wrapper_moves(2)[OF steps(2)]])
    qed
    show ?thesis
    proof (cases r)
      case (Ret n)
      with last here False show ?thesis by simp
    next
      case (Fail e)
      with last obtain r4 where c: "w_close (fd_of sk) s3 = Done r4 t" "fd = -1"
        by (auto elim!: run_bind_DoneE)
      with moves_trans[OF here wrapper_moves(3)[OF c(1)]] show ?thesis by simp
    qed
  qed
qed

lemma net_connect_moves:
  assumes "net_connect hp s = Done fd t"
  shows "moves s t {#} (if fd = -1 then {#} else {#fd#})"
proof -
  from assms obtain ip s1 where ip: "w_inet_pton (c_str (host hp)) s = Done ip s1"
    and rest: "(case ip of
       Not_an_address \<Rightarrow> run_bind (resolve_ip (host hp) s1) (\<lambda>a s. case a of
           None \<Rightarrow> Done (-1) s
         | Some addr \<Rightarrow> connect_to (sock_address addr (port hp)) s)
     | Bad_family \<Rightarrow> Done (-1) s1
     | Address addr \<Rightarrow> connect_to (sock_address addr (port hp)) s1) = Done fd t"
    by (auto simp: net_connect_def elim!: run_bind_DoneE)
  have start: "moves s s1 {#} {#}" by (rule w_inet_pton_moves[OF ip])
  show ?thesis
  proof (cases ip)
    case (Address a)
    with rest show ?thesis by (auto intro: moves_trans[OF start] dest!: connect_to_moves)
  next
    case Not_an_address
    with rest obtain a s2 where a: "resolve_ip (host hp) s1 = Done a s2"
        "(case a of None \<Rightarrow> Done (-1) s2 | Some addr \<Rightarrow> connect_to (sock_address addr (port hp)) s2) = Done fd t"
      by (auto elim!: run_bind_DoneE)
    from moves_trans[OF start resolve_ip_moves[OF a(1)]] have "moves s s2 {#} {#}" .
    with a(2) show ?thesis by (cases a) (auto intro: moves_trans dest!: connect_to_moves)
  next
    case Bad_family
    with rest start show ?thesis by simp
  qed
qed

lemma conn_close_moves: "conn_close c s = Done r t \<Longrightarrow> moves s t (owned c) {#}"
  by (auto simp: conn_close_def owned_def split: if_split_asm dest: wrapper_moves(3))

lemma conn_refresh_moves:
  assumes "conn_refresh c s = Done c' t"
  shows "moves s t (owned c) (owned c')"
proof -
  have reconnect: "moves u t {#} (owned c')"
    if "run_bind (net_connect (cn_dest c) u) (\<lambda>fd s. Done (c\<lparr>cn_fd := fd\<rparr>) s) = Done c' t" for u
    using that by (auto simp: owned_def conn_bad_def elim!: run_bind_DoneE dest!: net_connect_moves)
  show ?thesis
  proof (cases "conn_bad c")
    case True
    with assms reconnect[of s] show ?thesis by (simp add: conn_refresh_def owned_def)
  next
    case False
    with assms obtain hup s1 where p: "w_poll (cn_fd c) s = Done hup s1"
      and rest: "if hup = Ret True
        then \<exists>r s2. conn_close c s1 = Done r s2 \<and>
          run_bind (net_connect (cn_dest c) s2) (\<lambda>fd s. Done (c\<lparr>cn_fd := fd\<rparr>) s) = Done c' t
        else c' = c \<and> t = s1"
      by (auto simp: conn_refresh_def split: if_split_asm elim!: run_bind_DoneE)
    show ?thesis
    proof (cases "hup = Ret True")
      case True
      with rest obtain r s2 where r: "conn_close c s1 = Done r s2"
        "run_bind (net_connect (cn_dest c) s2) (\<lambda>fd s. Done (c\<lparr>cn_fd := fd\<rparr>) s) = Done c' t" by auto
      from moves_trans[OF w_poll_moves[OF p] conn_close_moves[OF r(1)]] reconnect[OF r(2)]
      show ?thesis by (rule moves_trans)
    next
      case False
      with rest w_poll_moves[OF p] show ?thesis by simp
    qed
  qed
qed


section \<open>Writing\<close>

lemma writen_loop_trace:
  "writen_loop fd ptr s = Done r t \<Longrightarrow> \<exists>new. trace t = trace s @ new \<and> writes_only fd new
     \<and> opened new = {#} \<and> closed_fds new = {#}
     \<and> (case r of Ret _ \<Rightarrow> taken new = ptr | Fail _ \<Rightarrow> strict_prefix (taken new) ptr)"
proof (induction fd ptr s rule: writen_loop.induct)
  case (1 fd ptr s)
  show ?case
  proof (cases "ptr = [] \<or> q_write s = []")
    case True
    with "1.prems" show ?thesis
      by (subst (asm) writen_loop.simps) (auto split: if_split_asm list.split_asm)
  next
    case False
    then obtain a q where q: "ptr \<noteq> []" "q_write s = a # q" by (auto simp: neq_Nil_conv)
    let ?s = "s\<lparr>q_write := q, errno_now := errno_after a, trace := trace s @ [Ev_write fd ptr a]\<rparr>"
    note step = "1.prems"[unfolded writen_loop.simps[of fd ptr s], simplified q Let_def]
    show ?thesis
    proof (cases a)
      case (Ret n)
      with step q have n: "n \<le> length ptr" "writen_loop fd (drop n ptr) ?s = Done r t"
        by (auto split: if_split_asm)
      from "1.IH"(1)[OF q refl Ret n] obtain new where new: "trace t = trace ?s @ new"
        "writes_only fd new" "opened new = {#}" "closed_fds new = {#}"
        "case r of Ret _ \<Rightarrow> taken new = drop n ptr | Fail _ \<Rightarrow> strict_prefix (taken new) (drop n ptr)"
        by auto
      have "strict_prefix (take n ptr @ taken new) ptr" if "strict_prefix (taken new) (drop n ptr)"
        using that by (metis append_take_drop_id same_prefix_prefix prefix_order.less_le same_append_eq)
      with new n(1) Ret show ?thesis
        by (intro exI[of _ "Ev_write fd ptr a # new"])
          (auto simp: trace_Cons writes_only_def split: answer.splits)
    next
      case (Fail e)
      show ?thesis
      proof (cases "e = EINTR")
        case True
        with step q Fail have "writen_loop fd ptr ?s = Done r t" by simp
        from "1.IH"(2)[OF q refl Fail True this] obtain new where new: "trace t = trace ?s @ new"
          "writes_only fd new" "opened new = {#}" "closed_fds new = {#}"
          "case r of Ret _ \<Rightarrow> taken new = ptr | Fail _ \<Rightarrow> strict_prefix (taken new) ptr"
          by auto
        with Fail show ?thesis
          by (intro exI[of _ "Ev_write fd ptr a # new"])
            (auto simp: trace_Cons writes_only_def split: answer.splits)
      next
        case False
        with step q Fail have "r = Fail e" "t = ?s" by auto
        with Fail q(1) show ?thesis
          by (intro exI[of _ "[Ev_write fd ptr a]"])
            (auto simp: trace_Cons writes_only_def strict_prefix_def prefix_order.less_le)
      qed
    qed
  qed
qed


lemma try_write_trace:
  assumes "try_write str c s = Done written t" "\<not> conn_bad c"
  shows "\<exists>new. trace t = trace s @ new \<and> writes_only (cn_fd c) new \<and> opened new = {#} \<and> closed_fds new = {#}
    \<and> (if written then taken new = str else strict_prefix (taken new) str)"
proof -
  from assms obtain r u where r: "w_writen (cn_fd c) str s = Done r u"
    "written = (case r of Ret _ \<Rightarrow> True | Fail _ \<Rightarrow> False)" "t = u"
    by (auto simp: try_write_def elim!: run_bind_DoneE)
  then obtain v where v: "writen_loop (cn_fd c) str (s\<lparr>errno_now := None\<rparr>) = Done r v" "trace t = trace v"
    by (cases r) (auto simp: w_writen_def log_failure_Done)
  from writen_loop_trace[OF v(1)] v(2) r(2) show ?thesis by (cases r) auto
qed

text \<open>
  A call of \<open>write\<close> makes attempts, each on one connection: all but the last end in an error,
  so the operating system took less than the string.
\<close>

lemma conn_write_attempts:
  "conn_write str c s = Done (written, c') t \<Longrightarrow>
     \<exists>before attempt ps. trace t = trace s @ before @ attempt
       \<and> taken before = concat ps \<and> (\<forall>p \<in> set ps. strict_prefix p str)
       \<and> writes_only (cn_fd c') attempt \<and> taken attempt = (if written then str else [])
       \<and> (\<not> written \<longrightarrow> conn_bad c')
       \<and> owned c + opened (before @ attempt) = owned c' + closed_fds (before @ attempt)"
proof (induction str c s rule: conn_write.induct)
  case (1 str c s)
  from "1.prems" obtain w u where w: "try_write str c s = Done w u"
    by (auto simp: conn_write.simps[of str c s] split: run.split_asm)
  obtain x where x: "trace u = trace s @ x" "writes_only (cn_fd c) x" "opened x = {#}" "closed_fds x = {#}"
    "if w then taken x = str else taken x = [] \<and> conn_bad c \<or> strict_prefix (taken x) str"
  proof (cases "conn_bad c")
    case True
    with w have "u = s" "\<not> w" by (auto simp: try_write_def)
    with True that[of "[]"] show thesis by auto
  next
    case False
    from try_write_trace[OF w this] that show thesis by (auto split: if_split_asm)
  qed
  show ?case
  proof (cases w)
    case True
    with "1.prems" w have "written \<and> c' = c \<and> t = u"
      by (simp add: conn_write.simps[of str c s])
    with x True show ?thesis by (intro exI[of _ "[]"] exI[of _ x]) auto
  next
    case False
    with "1.prems" w obtain c1 v where r: "conn_refresh c u = Done c1 v"
      and rest: "if conn_bad c1 then \<not> written \<and> c' = c1 \<and> t = v else conn_write str c1 v = Done (written, c') t"
      by (auto simp: conn_write.simps[of str c s] split: run.split_asm if_split_asm)
    from conn_refresh_moves[OF r] obtain y where y: "trace v = trace u @ y" "taken y = []"
      "owned c + opened y = owned c1 + closed_fds y" by (auto simp: moves_def)
    have "\<exists>ps. taken x = concat ps \<and> (\<forall>p \<in> set ps. strict_prefix p str)"
      using x(5) False by (cases "taken x = []") (auto intro: exI[of _ "[]"] exI[of _ "[taken x]"])
    then obtain ps0 where ps0: "taken x = concat ps0" "\<forall>p \<in> set ps0. strict_prefix p str" by blast
    show ?thesis
    proof (cases "conn_bad c1")
      case True
      with rest have "\<not> written" "c' = c1" "t = v" by auto
      with x y True ps0 show ?thesis
        by (intro exI[of _ "x @ y"] exI[of _ "[]"] exI[of _ ps0]) auto
    next
      case False
      with rest have "conn_write str c1 v = Done (written, c') t" by simp
      from "1.IH"[OF w \<open>\<not> w\<close> r False this] obtain b a ps where IH: "trace t = trace v @ b @ a"
        "taken b = concat ps" "\<forall>p \<in> set ps. strict_prefix p str" "writes_only (cn_fd c') a"
        "taken a = (if written then str else [])" "\<not> written \<longrightarrow> conn_bad c'"
        "owned c1 + opened (b @ a) = owned c' + closed_fds (b @ a)" by blast
      have "owned c + opened y + opened (b @ a) = owned c1 + opened (b @ a) + closed_fds y"
        unfolding y(3) by (simp only: ac_simps)
      also have "\<dots> = owned c' + closed_fds y + closed_fds (b @ a)"
        unfolding IH(7) by (simp only: ac_simps)
      finally have eq: "owned c + opened ((x @ y @ b) @ a) = owned c' + closed_fds ((x @ y @ b) @ a)"
        using x(3,4) by (simp add: add.assoc)
      show ?thesis
      proof (intro exI conjI)
        show "trace t = trace s @ (x @ y @ b) @ a" using x(1) y(1) IH(1) by simp
        show "taken (x @ y @ b) = concat (ps0 @ ps)" using ps0(1) y(2) IH(2) by simp
        show "\<forall>p \<in> set (ps0 @ ps). strict_prefix p str" using ps0(2) IH(3) by auto
      qed (fact IH eq)+
    qed
  qed
qed


lemma writen_loop_failing:
  "ptr \<noteq> [] \<Longrightarrow> \<forall>a \<in> set (q_write s). \<exists>e. a = Fail e \<Longrightarrow>
     (\<exists>t. writen_loop fd ptr s = Waiting t)
     \<or> (\<exists>e t. writen_loop fd ptr s = Done (Fail e) t \<and> set (q_write t) \<subseteq> set (q_write s) \<and> q_poll t = q_poll s)"
proof (induction fd ptr s rule: writen_loop.induct)
  case (1 fd ptr s)
  show ?case
  proof (cases "q_write s")
    case Nil
    with "1.prems" show ?thesis by (simp add: writen_loop.simps[of fd ptr s])
  next
    case (Cons a q)
    with "1.prems" obtain e where e: "a = Fail e" by auto
    show ?thesis
    proof (cases "e = EINTR")
      case True
      have "\<forall>a \<in> set (q_write (s\<lparr>q_write := q, errno_now := errno_after a, trace := trace s @ [Ev_write fd ptr a]\<rparr>)). \<exists>e. a = Fail e"
        using "1.prems"(2) Cons by auto
      from "1.IH"(2)[OF "1.prems"(1) Cons refl e True "1.prems"(1) this] Cons e True "1.prems"(1) show ?thesis
        by (auto simp: writen_loop.simps[of fd ptr s] Let_def)
    next
      case False
      with Cons e "1.prems"(1) show ?thesis by (auto simp: writen_loop.simps[of fd ptr s] Let_def)
    qed
  qed
qed

lemma conn_write_stuck:
  "str \<noteq> [] \<Longrightarrow> \<not> conn_bad c \<Longrightarrow> \<forall>a \<in> set (q_write s). \<exists>e. a = Fail e \<Longrightarrow> Ret True \<notin> set (q_poll s) \<Longrightarrow>
     \<exists>t. conn_write str c s = Waiting t"
proof (induction str c s rule: conn_write.induct)
  case (1 str c s)
  have "\<forall>a \<in> set (q_write (s\<lparr>errno_now := None\<rparr>)). \<exists>e. a = Fail e" using "1.prems"(3) by simp
  from writen_loop_failing[OF "1.prems"(1) this, of "cn_fd c"]
  consider (wait) t where "try_write str c s = Waiting t"
    | (failed) t where "try_write str c s = Done False t" "set (q_write t) \<subseteq> set (q_write s)" "q_poll t = q_poll s"
    using "1.prems"(2) by (fastforce simp: try_write_def w_writen_def log_failure_def log_error_msg_def)
  then show ?case
  proof cases
    case wait
    then show ?thesis by (simp add: conn_write.simps[of str c s])
  next
    case failed
    show ?thesis
    proof (cases "q_poll t")
      case Nil
      with failed "1.prems"(2) show ?thesis
        by (simp add: conn_write.simps[of str c s] conn_refresh_def w_poll_def sys_call_def log_failure_def)
    next
      case (Cons a q)
      have "a \<noteq> Ret True" using failed(3) Cons "1.prems"(4) by (metis list.set_intros(1))
      with Cons "1.prems"(2) obtain u where u: "conn_refresh c t = Done c u" "q_write u = q_write t" "q_poll u = q"
        by (cases a) (auto simp: conn_refresh_def w_poll_def sys_call_def log_failure_def log_error_msg_def)
      have "Ret True \<notin> set (q_poll u)" using failed(3) Cons "1.prems"(4) u(3) by (metis list.set_intros(2))
      moreover have "\<forall>a \<in> set (q_write u). \<exists>e. a = Fail e" using failed(2) u(2) "1.prems"(3) by auto
      ultimately have "\<exists>v. conn_write str c u = Waiting v"
        using "1.IH"[OF failed(1) _ u(1) "1.prems"(2) "1.prems"(1,2)] by blast
      with u(1) failed(1) "1.prems"(2) show ?thesis by (simp add: conn_write.simps[of str c s])
    qed
  qed
qed

section \<open>Delivery\<close>

text \<open>
  The end of carbon's flush: every destination's string is written to its connection, opened
  first when there is none. What \<open>write\<close> returns is ignored.
\<close>

fun deliver_all ::
  "(hostport \<times> string) list \<Rightarrow> (hostport, connection) umap \<Rightarrow> env \<Rightarrow> (hostport, connection) umap run"
where
  "deliver_all [] conns s = Done conns s"
| "deliver_all ((dest, str) # rest) conns s =
     run_bind (case map_of conns dest of None \<Rightarrow> new_connection dest s | Some c \<Rightarrow> Done c s) (\<lambda>c s.
       run_bind (conn_write str c s) (\<lambda>(written, c') s. deliver_all rest (umap_put dest c' conns) s))"

section \<open>Destinations\<close>

text \<open>
  The loop by which the repeater and the proxy's worker turn the configured hosts into socket
  addresses.
\<close>

definition destination_of :: "hostport \<Rightarrow> env \<Rightarrow> sockaddr run" where
  "destination_of hp s =
     run_bind (w_inet_pton (c_str (host hp)) s) (\<lambda>ip s. case ip of
       Not_an_address \<Rightarrow> run_bind (resolve_ip (c_str (host hp)) s) (\<lambda>a s. case a of
           None \<Rightarrow> Crash (Thrown ''unable to resolve ip'') s
         | Some addr \<Rightarrow> Done (sock_address addr (port hp)) s)
     | Bad_family \<Rightarrow> Crash (Thrown ''inet_pton error'') s
     | Address addr \<Rightarrow> Done (sock_address addr (port hp)) s)"

fun destinations :: "hostport list \<Rightarrow> sockaddr list \<Rightarrow> env \<Rightarrow> sockaddr list run" where
  "destinations [] ds s = Done ds s"
| "destinations (hp # hps) ds s =
     run_bind (destination_of hp s) (\<lambda>d s. destinations hps (ds @ [d]) s)"

record repeater =
  rp_sockfd :: int
  rp_dests :: "sockaddr list"

definition new_repeater :: "hostport list \<Rightarrow> env \<Rightarrow> repeater run" where
  "new_repeater hps s =
     run_bind (w_socket s) (\<lambda>sk s. run_bind (destinations hps [] s) (\<lambda>ds s.
       Done \<lparr>rp_sockfd = fd_of sk, rp_dests = ds\<rparr> s))"

text \<open>\<^verbatim>\<open>Repeater::send\<close>, one datagram per destination.\<close>

fun send_all :: "int \<Rightarrow> (sockaddr \<times> string) list \<Rightarrow> env \<Rightarrow> unit run" where
  "send_all fd [] s = Done () s"
| "send_all fd ((d, m) # rest) s = run_bind (w_sendto fd m d s) (\<lambda>_ s. send_all fd rest s)"

lemma destination_of_port: "destination_of hp s = Done d t \<Longrightarrow> sa_port d = word_of_int (port hp)"
  by (auto simp: destination_of_def sock_address_def split: pton_answer.split_asm option.split_asm
      elim!: run_bind_DoneE)

lemma destinations_ports:
  "destinations hps ds s = Done ds' t \<Longrightarrow>
     \<exists>new. ds' = ds @ new \<and> map sa_port new = map (\<lambda>hp. word_of_int (port hp)) hps"
proof (induction hps arbitrary: ds s)
  case Nil
  then show ?case by simp
next
  case (Cons hp hps)
  from Cons.prems obtain d u where d: "destination_of hp s = Done d u" "destinations hps (ds @ [d]) u = Done ds' t"
    by (auto elim!: run_bind_DoneE)
  from Cons.IH[OF d(2)] destination_of_port[OF d(1)] show ?case by force
qed


section \<open>Descriptors of the connection table\<close>

definition owned_all :: "(hostport, connection) umap \<Rightarrow> int multiset" where
  "owned_all conns = sum_list (map (\<lambda>dc. owned (snd dc)) conns)"

lemma owned_all_put:
  "owned_all (umap_put k c m) + (case map_of m k of None \<Rightarrow> {#} | Some c0 \<Rightarrow> owned c0) = owned_all m + owned c"
  by (induction m) (auto simp: owned_all_def umap_put_def ac_simps split: option.splits)

lemma new_connection_moves:
  assumes "new_connection hp s = Done c t"
  shows "moves s t {#} (owned c)"
proof -
  from assms obtain fd where "net_connect hp s = Done fd t" "c = \<lparr>cn_dest = hp, cn_fd = fd\<rparr>"
    by (auto simp: new_connection_def elim!: run_bind_DoneE)
  with net_connect_moves[OF this(1)] show ?thesis by (simp add: owned_def conn_bad_def split: if_split_asm)
qed

lemma deliver_all_descriptors:
  "deliver_all strings conns s = Done conns' t \<Longrightarrow>
     \<exists>new. trace t = trace s @ new \<and> owned_all conns + opened new = owned_all conns' + closed_fds new
       \<and> dom (map_of conns') = dom (map_of conns) \<union> fst ` set strings"
proof (induction strings conns s rule: deliver_all.induct)
  case (1 conns s)
  then show ?case by auto
next
  case (2 dest str rest conns s)
  let ?old = "case map_of conns dest of None \<Rightarrow> {#} | Some c0 \<Rightarrow> owned c0"
  from "2.prems" obtain c u where c: "(case map_of conns dest of None \<Rightarrow> new_connection dest s | Some c \<Rightarrow> Done c s) = Done c u"
    and rest: "run_bind (conn_write str c u) (\<lambda>(written, c') s. deliver_all rest (umap_put dest c' conns) s) = Done conns' t"
    by (auto elim!: run_bind_DoneE)
  have "moves s u ?old (owned c)"
    using c by (auto split: option.split_asm dest: new_connection_moves)
  then obtain x where x: "trace u = trace s @ x" "?old + opened x = owned c + closed_fds x"
    by (auto simp: moves_def)
  from rest obtain w c1 v where w: "conn_write str c u = Done (w, c1) v"
    and last: "deliver_all rest (umap_put dest c1 conns) v = Done conns' t"
    by (auto elim!: run_bind_DoneE)
  from conn_write_attempts[OF w] obtain b a where ba: "trace v = trace u @ (b @ a)"
    "owned c + opened (b @ a) = owned c1 + closed_fds (b @ a)" by blast
  from "2.IH"[OF last] obtain y where y: "trace t = trace v @ y"
    "owned_all (umap_put dest c1 conns) + opened y = owned_all conns' + closed_fds y"
    "dom (map_of conns') = dom (map_of (umap_put dest c1 conns)) \<union> fst ` set rest" by auto
  note put = owned_all_put[of dest c1 conns]
  have "(owned_all conns + opened (x @ (b @ a) @ y)) + (?old + owned c + owned c1)
      = (owned_all conns + owned c1) + (?old + opened x) + (owned c + opened (b @ a)) + opened y"
    by (simp only: trace_append ac_simps)
  also have "\<dots> = (owned_all (umap_put dest c1 conns) + opened y) + ?old + (owned c + closed_fds x)
      + (owned c1 + closed_fds (b @ a))"
    unfolding put[symmetric] x(2) ba(2) by (simp only: ac_simps)
  also have "\<dots> = (owned_all conns' + closed_fds (x @ (b @ a) @ y)) + (?old + owned c + owned c1)"
    unfolding y(2) by (simp only: trace_append ac_simps)
  finally have "owned_all conns + opened (x @ (b @ a) @ y) = owned_all conns' + closed_fds (x @ (b @ a) @ y)"
    by simp
  moreover have "trace t = trace s @ (x @ (b @ a) @ y)" using x(1) ba(1) y(1) by simp
  moreover have "dom (map_of conns') = dom (map_of conns) \<union> fst ` set ((dest, str) # rest)"
    using y(3) by (auto simp: table_simps)
  ultimately show ?case by blast
qed

section \<open>Short writes\<close>

fun amount :: "nat answer \<Rightarrow> nat" where
  "amount (Ret n) = n"
| "amount (Fail e) = 0"

lemma writen_loop_completes:
  "q_write s = answers @ q \<Longrightarrow> \<forall>a \<in> set answers. a = Fail EINTR \<or> (\<exists>n. a = Ret n) \<Longrightarrow>
     sum_list (map amount answers) = length ptr \<Longrightarrow> \<exists>t. writen_loop fd ptr s = Done (Ret ()) t"
proof (induction answers arbitrary: ptr s)
  case Nil
  then show ?case by (simp add: writen_loop.simps[of fd "[]"])
next
  case (Cons a answers)
  let ?s = "s\<lparr>q_write := answers @ q, errno_now := errno_after a, trace := trace s @ [Ev_write fd ptr a]\<rparr>"
  have q: "q_write ?s = answers @ q" "\<forall>a \<in> set answers. a = Fail EINTR \<or> (\<exists>n. a = Ret n)"
    using Cons.prems(2) by auto
  show ?case
  proof (cases "ptr = []")
    case True
    then show ?thesis by (simp add: writen_loop.simps[of fd "[]"])
  next
    case False
    from Cons.prems(2) consider "a = Fail EINTR" | n where "a = Ret n" by auto
    then show ?thesis
    proof cases
      case 1
      from Cons.IH[OF q, of ptr] Cons.prems(3) 1 False Cons.prems(1) show ?thesis
        by (simp add: writen_loop.simps[of fd ptr s] Let_def)
    next
      case (2 n)
      from Cons.IH[OF q, of "drop n ptr"] Cons.prems(3) 2 False Cons.prems(1) show ?thesis
        by (simp add: writen_loop.simps[of fd ptr s] Let_def)
    qed
  qed
qed

section \<open>Examples\<close>

text \<open>An operating system with no answers; the examples add theirs.\<close>

definition quiet_env :: env where
  "quiet_env = \<lparr>q_socket = [], q_setsockopt = [], q_bind = [], q_listen = [], q_accept = [], q_connect = [],
     q_close = [], q_write = [], q_read = [], q_recvfrom = [], q_sendto = [], q_select = [], q_poll = [],
     q_pause = [], q_resolve = [], pton = (\<lambda>_. Address 0), errno_now = None, trace = [], errors = []\<rparr>"

text \<open>A peer that resets the connection after one byte, and accepts the string after a reconnect.\<close>

abbreviation reset_env :: env where
  "reset_env \<equiv> quiet_env\<lparr>q_write := [Ret 1, Fail EPIPE, Ret 3], q_poll := [Ret True], q_close := [Ret 0],
     q_socket := [Ret 6], q_setsockopt := [Ret 0], q_connect := [Ret 0]\<rparr>"

abbreviation conn5 :: connection where
  "conn5 \<equiv> \<lparr>cn_dest = \<lparr>host = ''h'', port = 2003\<rparr>, cn_fd = 5\<rparr>"

lemma reset_env_write:
  "\<exists>t. conn_write ''abc'' conn5 reset_env = Done (True, conn5\<lparr>cn_fd := 6\<rparr>) t"
  by (simp add: quiet_env_def conn_write.simps try_write_def conn_bad_def w_writen_def writen_loop.simps
      log_failure_def log_error_msg_def conn_refresh_def w_poll_def sys_call_def conn_close_def w_close_def
      net_connect_def w_inet_pton_def connect_to_def w_socket_def fd_of_def w_setsockopt_def w_connect_def)

section \<open>Properties\<close>

text \<open>
  C14. What a stream write leaves behind. However the operating system splits, interrupts or
  fails the single writes: when \<^verbatim>\<open>Connection::write\<close> returns true, the connection it kept took
  the whole string in one piece; every earlier attempt was cut off before its end, so the
  receiver can have seen proper prefixes of the string before it, and nothing else. When it
  returns false, only such prefixes were taken and the connection is bad.
\<close>

theorem write_whole_after_prefixes:
  assumes "conn_write str c s = Done (written, c') t"
  shows "\<exists>before attempt ps. trace t = trace s @ before @ attempt
    \<and> taken before = concat ps \<and> (\<forall>p \<in> set ps. strict_prefix p str)
    \<and> writes_only (cn_fd c') attempt \<and> taken attempt = (if written then str else [])
    \<and> (\<not> written \<longrightarrow> conn_bad c')"
  using conn_write_attempts[OF assms] by blast

lemma write_whole_after_prefixes_witness:
  "\<exists>t before attempt ps. conn_write ''abc'' conn5 reset_env = Done (True, conn5\<lparr>cn_fd := 6\<rparr>) t
    \<and> trace t = before @ attempt \<and> taken before = concat ps \<and> (\<forall>p \<in> set ps. strict_prefix p ''abc'')
    \<and> writes_only 6 attempt \<and> taken attempt = ''abc''"
proof -
  obtain t where t: "conn_write ''abc'' conn5 reset_env = Done (True, conn5\<lparr>cn_fd := 6\<rparr>) t"
    using reset_env_write by blast
  from write_whole_after_prefixes[OF this] t show ?thesis by (force simp: quiet_env_def)
qed

text \<open>
  Short writes and interrupts are no failures: as soon as the answers of the operating system,
  with any number of \<^verbatim>\<open>EINTR\<close> between them, add up to the length of the buffer, \<^verbatim>\<open>writen\<close>
  returns, and exactly the buffer was taken.
\<close>

theorem short_writes_complete:
  assumes "q_write s = answers @ q" "\<forall>a \<in> set answers. a = Fail EINTR \<or> (\<exists>n. a = Ret n)"
    and "sum_list (map amount answers) = length buf"
  shows "\<exists>t new. w_writen fd buf s = Done (Ret ()) t \<and> trace t = trace s @ new \<and> taken new = buf"
proof -
  have q: "q_write (s\<lparr>errno_now := None\<rparr>) = answers @ q" using assms(1) by simp
  obtain t where t: "writen_loop fd buf (s\<lparr>errno_now := None\<rparr>) = Done (Ret ()) t"
    using writen_loop_completes[OF q assms(2,3)] by blast
  from writen_loop_trace[OF this] obtain new where "trace t = trace s @ new" "taken new = buf" by auto
  with t show ?thesis by (auto simp: w_writen_def log_failure_def)
qed

lemma short_writes_complete_witness:
  "\<exists>t new. w_writen 5 ''abc'' (quiet_env\<lparr>q_write := [Ret 1, Fail EINTR, Ret 2]\<rparr>) = Done (Ret ()) t
    \<and> trace t = new \<and> taken new = ''abc''"
  using short_writes_complete[of "quiet_env\<lparr>q_write := [Ret 1, Fail EINTR, Ret 2]\<rparr>"
      "[Ret 1, Fail EINTR, Ret 2]" "[]" "''abc''" 5]
  by (simp add: quiet_env_def)

text \<open>
  C35. \<^verbatim>\<open>Connection::write\<close> does not return while a connection only fails: it refreshes a
  connection only when \<^verbatim>\<open>poll\<close> reports a hang-up and calls itself again either way. With a
  non-empty string, writes that all fail and no hang-up it is never done, however many answers
  the operating system gives.
\<close>

theorem failing_write_never_returns:
  assumes "str \<noteq> []" "\<not> conn_bad c"
    and "\<forall>a \<in> set (q_write s). \<exists>e. a = Fail e" "Ret True \<notin> set (q_poll s)"
  shows "\<exists>t. conn_write str c s = Waiting t"
  by (rule conn_write_stuck[OF assms])

lemma failing_write_never_returns_witness:
  "\<exists>t. conn_write ''abc'' conn5 (quiet_env\<lparr>q_write := replicate 9 (Fail EPIPE), q_poll := replicate 9 (Ret False)\<rparr>)
     = Waiting t"
  by (rule failing_write_never_returns) (auto simp: quiet_env_def conn_bad_def)

text \<open>
  C27. No descriptor is lost: over a delivery, the descriptors the connection table holds and the
  ones opened are the ones it holds afterwards and the ones closed; and every destination has
  a connection in the table.
\<close>

theorem delivery_loses_no_descriptor:
  assumes "deliver_all strings conns s = Done conns' t"
  shows "\<exists>new. trace t = trace s @ new \<and> owned_all conns + opened new = owned_all conns' + closed_fds new
    \<and> dom (map_of conns') = dom (map_of conns) \<union> fst ` set strings"
  by (rule deliver_all_descriptors[OF assms])

lemma delivery_loses_no_descriptor_witness:
  "\<exists>t conns' new. deliver_all [(cn_dest conn5, ''abc'')] [(cn_dest conn5, conn5)] reset_env = Done conns' t
    \<and> trace t = new \<and> {#5#} + opened new = owned_all conns' + closed_fds new
    \<and> dom (map_of conns') = {cn_dest conn5}"
proof -
  obtain t where "conn_write ''abc'' conn5 reset_env = Done (True, conn5\<lparr>cn_fd := 6\<rparr>) t"
    using reset_env_write by blast
  then have d: "deliver_all [(cn_dest conn5, ''abc'')] [(cn_dest conn5, conn5)] reset_env
      = Done (umap_put (cn_dest conn5) (conn5\<lparr>cn_fd := 6\<rparr>) [(cn_dest conn5, conn5)]) t"
    by simp
  from delivery_loses_no_descriptor[OF d] d show ?thesis
    by (force simp: quiet_env_def owned_all_def owned_def conn_bad_def)
qed

end
