(* ===== verification/Proxy.thy ===== *)
theory Proxy
  imports Routing Net
begin

text \<open>
  The proxy: \<^verbatim>\<open>include/statsdcc/consumers/proxy_consumer.h\<close> and the worker of
  \<^verbatim>\<open>include/statsdcc/workers/proxy/worker.h\<close>, \<^verbatim>\<open>src/workers/proxy/worker.cc\<close>, whose threads
  share one queue. A thread pops a metric and handles it in two steps, so the steps of the
  threads interleave. \<^verbatim>\<open>boost::regex_match\<close> is the parameter \<open>matches\<close>, \<^verbatim>\<open>std::hash\<close> is
  \<open>hash\<close>, the queue the pair \<open>push\<close>, \<open>pop\<close>.
\<close>

section \<open>State and operations\<close>

text \<open>
  \<open>pw_hands\<close> holds for every thread the metric it has popped, if any; \<open>pw_sent\<close> the datagrams
  handed to \<^verbatim>\<open>sendto\<close>, whose result the code ignores; \<open>pw_shown\<close> the lines printed. The two
  atomics have the first values the uninitialised memory holds.
\<close>

record 'q proxy_worker =
  pw_queue :: 'q
  pw_dropped :: int
  pw_bad :: int
  pw_done :: bool
  pw_sockfd :: int
  pw_dests :: "sockaddr list"
  pw_hands :: "string option list"
  pw_shown :: "string list"
  pw_sent :: "(sockaddr \<times> string) list"

text \<open>
  The constructor: the result of \<^verbatim>\<open>socket\<close> is not tested; \<open>up i\<close> says whether thread \<open>i\<close> can be
  started. When one cannot, those before it are stopped and joined, and the exception goes on.
\<close>

definition new_proxy_worker ::
  "'q \<Rightarrow> int \<Rightarrow> int \<Rightarrow> hostport list \<Rightarrow> int \<Rightarrow> (nat \<Rightarrow> bool) \<Rightarrow> env \<Rightarrow> 'q proxy_worker run"
where
  "new_proxy_worker q dropped bad aggregators threads up s =
     run_bind (w_socket s) (\<lambda>sk s. run_bind (destinations aggregators [] s) (\<lambda>ds s.
       if list_all up [0..<nat threads]
       then Done
         \<lparr>pw_queue = q, pw_dropped = dropped, pw_bad = bad, pw_done = False, pw_sockfd = fd_of sk,
          pw_dests = ds, pw_hands = replicate (nat threads) None, pw_shown = [], pw_sent = []\<rparr> s
       else Crash (Thrown ''Thread Creation Error'')
         (log_error_msg ''Thread Creation Error: unable to start'' s)))"

definition proxy_submit :: "(string \<Rightarrow> 'q \<Rightarrow> 'q option) \<Rightarrow> string \<Rightarrow> 'q proxy_worker \<Rightarrow> 'q proxy_worker" where
  "proxy_submit push metric w =
     (case push metric (pw_queue w) of
        None \<Rightarrow> w\<lparr>pw_dropped := (pw_dropped w + 1) mod 2 ^ 64\<rparr>
      | Some q \<Rightarrow> w\<lparr>pw_queue := q\<rparr>)"

definition proxy_consume ::
  "(string \<Rightarrow> 'q \<Rightarrow> 'q option) \<Rightarrow> bool \<Rightarrow> string \<Rightarrow> 'q proxy_worker \<Rightarrow> 'q proxy_worker"
where
  "proxy_consume push alloc metric w = (if \<not> alloc then w else proxy_submit push (c_str metric) w)"

definition stop_proxy :: "'q proxy_worker \<Rightarrow> 'q proxy_worker" where
  "stop_proxy w = w\<lparr>pw_done := True\<rparr>"

text \<open>The first match in the blacklist drops the metric.\<close>

fun blacklisted :: "('r \<Rightarrow> string \<Rightarrow> bool) \<Rightarrow> 'r list \<Rightarrow> string \<Rightarrow> bool" where
  "blacklisted matches [] metric = False"
| "blacklisted matches (r # rs) metric = (if matches r metric then True else blacklisted matches rs metric)"

definition pick_dest :: "(string \<Rightarrow> 64 word) \<Rightarrow> nat \<Rightarrow> string \<Rightarrow> nat" where
  "pick_dest hash n key = unat (hash key mod of_nat n)"

definition handle_metric ::
  "('r \<Rightarrow> string \<Rightarrow> bool) \<Rightarrow> (string \<Rightarrow> 64 word) \<Rightarrow> 'r list \<Rightarrow> bool \<Rightarrow> string \<Rightarrow> 'q proxy_worker \<Rightarrow> 'q proxy_worker"
where
  "handle_metric matches hash blacklist stdout metric w =
     (if blacklisted matches blacklist metric then w
      else
        (let w = (if stdout then w\<lparr>pw_shown := pw_shown w @ [metric]\<rparr> else w) in
         if length (pw_dests w) = 0 then w
         else (case find_char CHR '':'' metric of
             Some pos \<Rightarrow>
               w\<lparr>pw_sent := pw_sent w
                  @ [(pw_dests w ! pick_dest hash (length (pw_dests w)) (take pos metric), metric)]\<rparr>
           | None \<Rightarrow> w\<lparr>pw_bad := (pw_bad w + 1) mod 2 ^ 64\<rparr>)))"

text \<open>The two steps of thread \<open>i\<close>; an empty queue is a sleep.\<close>

definition proxy_pop :: "('q \<Rightarrow> (string \<times> 'q) option) \<Rightarrow> nat \<Rightarrow> 'q proxy_worker \<Rightarrow> 'q proxy_worker" where
  "proxy_pop pop i w =
     (if pw_done w then w
      else (case pop (pw_queue w) of
          None \<Rightarrow> w
        | Some (metric, q) \<Rightarrow> w\<lparr>pw_queue := q, pw_hands := (pw_hands w)[i := Some metric]\<rparr>))"

definition proxy_handle ::
  "('r \<Rightarrow> string \<Rightarrow> bool) \<Rightarrow> (string \<Rightarrow> 64 word) \<Rightarrow> 'r list \<Rightarrow> bool \<Rightarrow> nat \<Rightarrow> string \<Rightarrow>
    'q proxy_worker \<Rightarrow> 'q proxy_worker"
where
  "proxy_handle matches hash blacklist stdout i metric w =
     handle_metric matches hash blacklist stdout metric (w\<lparr>pw_hands := (pw_hands w)[i := None]\<rparr>)"

text \<open>
  Executions, with the metrics submitted (and whether the queue took them) and the metrics
  handled so far.
\<close>

inductive preach ::
  "('r \<Rightarrow> string \<Rightarrow> bool) \<Rightarrow> (string \<Rightarrow> 64 word) \<Rightarrow> 'r list \<Rightarrow> bool \<Rightarrow> (string \<Rightarrow> 'q \<Rightarrow> 'q option) \<Rightarrow>
    ('q \<Rightarrow> (string \<times> 'q) option) \<Rightarrow> 'q proxy_worker \<Rightarrow> submissions \<Rightarrow> string list \<Rightarrow> 'q proxy_worker \<Rightarrow> bool"
  for matches hash blacklist stdout push pop w0
where
  start: "preach matches hash blacklist stdout push pop w0 [] [] w0"
| submit: "preach matches hash blacklist stdout push pop w0 subs hs w \<Longrightarrow>
    preach matches hash blacklist stdout push pop w0 (subs @ [(m, push m (pw_queue w) \<noteq> None)]) hs
      (proxy_submit push m w)"
| stop: "preach matches hash blacklist stdout push pop w0 subs hs w \<Longrightarrow>
    preach matches hash blacklist stdout push pop w0 subs hs (stop_proxy w)"
| pop: "preach matches hash blacklist stdout push pop w0 subs hs w \<Longrightarrow>
    i < length (pw_hands w) \<Longrightarrow> pw_hands w ! i = None \<Longrightarrow>
    preach matches hash blacklist stdout push pop w0 subs hs (proxy_pop pop i w)"
| handle: "preach matches hash blacklist stdout push pop w0 subs hs w \<Longrightarrow>
    i < length (pw_hands w) \<Longrightarrow> pw_hands w ! i = Some m \<Longrightarrow>
    preach matches hash blacklist stdout push pop w0 subs (hs @ [m])
      (proxy_handle matches hash blacklist stdout i m w)"

inductive_cases preach_start: "preach matches hash blacklist stdout push pop w0 subs hs w"

section \<open>What was handled\<close>

text \<open>The datagrams a handled sequence of metrics causes, as the documentation describes them.\<close>

definition passed :: "('r \<Rightarrow> string \<Rightarrow> bool) \<Rightarrow> 'r list \<Rightarrow> string list \<Rightarrow> string list" where
  "passed matches blacklist hs = filter (\<lambda>m. \<not> (\<exists>r \<in> set blacklist. matches r m)) hs"

definition datagrams :: "(string \<Rightarrow> 64 word) \<Rightarrow> sockaddr list \<Rightarrow> string list \<Rightarrow> (sockaddr \<times> string) list" where
  "datagrams hash ds ms =
     (if ds = [] then []
      else map (\<lambda>m. (ds ! pick_dest hash (length ds) (key_of m), m)) (filter has_key ms))"

lemma blacklisted_iff: "blacklisted matches rs m \<longleftrightarrow> (\<exists>r \<in> set rs. matches r m)"
  by (induction rs) auto

lemma handle_metric_effect:
  "handle_metric matches hash blacklist stdout m w =
     w\<lparr>pw_shown := pw_shown w @ (if stdout then passed matches blacklist [m] else []),
       pw_sent := pw_sent w @ datagrams hash (pw_dests w) (passed matches blacklist [m]),
       pw_bad := (if pw_dests w \<noteq> [] \<and> passed matches blacklist [m] = [m] \<and> \<not> has_key m
         then (pw_bad w + 1) mod 2 ^ 64 else pw_bad w)\<rparr>"
  by (auto simp: handle_metric_def passed_def datagrams_def blacklisted_iff find_char_key take_key Let_def)

fun held :: "string option list \<Rightarrow> string list" where
  "held [] = []"
| "held (None # hs) = held hs"
| "held (Some m # hs) = m # held hs"

definition in_hand :: "'q proxy_worker \<Rightarrow> string multiset" where
  "in_hand w = mset (held (pw_hands w))"

lemma held_none: "\<forall>h \<in> set hs. h = None \<Longrightarrow> held hs = []"
  by (induction hs) auto

lemma held_take: "i < length hs \<Longrightarrow> hs ! i = None \<Longrightarrow> mset (held (hs[i := Some m])) = add_mset m (mset (held hs))"
proof (induction hs arbitrary: i)
  case (Cons h hs)
  then show ?case by (cases i; cases h) auto
qed simp

lemma held_give: "i < length hs \<Longrightarrow> hs ! i = Some m \<Longrightarrow> add_mset m (mset (held (hs[i := None]))) = mset (held hs)"
proof (induction hs arbitrary: i)
  case (Cons h hs)
  then show ?case by (cases i; cases h) auto
qed simp

context queue_client begin

lemma preach_inv:
  assumes "preach matches hash blacklist stdout push pop w0 subs hs w"
    and "items (pw_queue w0) = []" "\<forall>h \<in> set (pw_hands w0). h = None" "pw_sent w0 = []" "pw_shown w0 = []"
  shows "pw_dests w = pw_dests w0 \<and> length (pw_hands w) = length (pw_hands w0)
    \<and> mset (accepted subs) = mset hs + in_hand w + mset (items (pw_queue w))
    \<and> pw_sent w = datagrams hash (pw_dests w0) (passed matches blacklist hs)
    \<and> pw_shown w = (if stdout then passed matches blacklist hs else [])
    \<and> pw_bad w mod 2 ^ 64 = (pw_bad w0 + (if pw_dests w0 = [] then 0
          else int (length (filter (\<lambda>m. \<not> has_key m) (passed matches blacklist hs))))) mod 2 ^ 64"
  using assms(1)
proof (induction rule: preach.induct)
  case start
  from held_none[OF assms(3)] assms show ?case by (simp add: in_hand_def datagrams_def passed_def)
next
  case (submit subs hs w m)
  then show ?case
    by (cases "push m (pw_queue w)") (auto simp: proxy_submit_def in_hand_def dest: push_Some)
next
  case (stop subs hs w)
  then show ?case by (simp add: stop_proxy_def in_hand_def)
next
  case (pop subs hs w i)
  show ?case
  proof (cases "pw_done w \<or> pop (pw_queue w) = None")
    case True
    with pop show ?thesis by (auto simp: proxy_pop_def)
  next
    case False
    then obtain m q where q: "pop (pw_queue w) = Some (m, q)" "\<not> pw_done w" by auto
    from held_take[OF pop.hyps(2,3), of m] pop.IH q pop_Some[OF q(1)] show ?thesis by (simp add: proxy_pop_def in_hand_def)
  qed
next
  case (handle subs hs w i m)
  have step: "(x + 1) mod 2 ^ 64 = (y + (z + 1)) mod 2 ^ 64" if "x mod 2 ^ 64 = (y + z) mod 2 ^ 64" for x y z :: int
    using that by (metis add.commute add.left_commute mod_add_right_eq)
  from held_give[OF handle.hyps(2,3), symmetric] handle.IH show ?case
    by (auto simp: proxy_handle_def handle_metric_effect in_hand_def passed_def datagrams_def step
        simp del: power_numeral)
qed

end


section \<open>Routing\<close>

interpretation proxy: name_router "pick_dest hash n" n for hash n
proof
  fix k
  assume "n \<noteq> 0"
  then show "pick_dest hash n k < n"
    using unat_mod_less[of "int n" "hash k"] by (simp add: pick_dest_def)
qed

context name_router begin

lemma routed_contribs:
  assumes "concerns c k" "\<forall>l \<in> set ls. NUL \<notin> set l"
  shows "contribs c lexcast (routed pick i ls) = (if i = pick k then contribs c lexcast ls else [])"
proof -
  have other: "c (parse_metric lexcast l) = []" if "l \<in> set ls" "\<not> (has_key l \<and> key_of l = k)" for l
  proof (cases "parse_metric lexcast l")
    case (Good s)
    with accepted_key[OF Good] that assms show ?thesis by (auto simp: concerns_def)
  qed (use assms(1) in \<open>simp add: concerns_def\<close>)
  show ?thesis
  proof (cases "i = pick k")
    case True
    have "contribs c lexcast (map id (routed pick i ls)) = contribs c lexcast ls"
      unfolding routed_def by (rule contribs_filter_map) (use other True in auto)
    with True show ?thesis by simp
  next
    case False
    have "contribs c lexcast (map id (routed pick i ls)) = []"
      unfolding routed_def by (rule contribs_filter_none) (use other False in auto)
    with False show ?thesis by simp
  qed
qed

lemmas routed_samples = routed_contribs[OF concerns_sample_of, folded samples_def]

lemmas routed_counter_terms = routed_contribs[OF concerns_counter_term, folded counter_terms_def]

end

text \<open>The payloads an address was sent.\<close>

definition sent_to :: "sockaddr \<Rightarrow> (sockaddr \<times> string) list \<Rightarrow> string list" where
  "sent_to d ds = map snd (filter (\<lambda>x. fst x = d) ds)"

lemma sent_to_datagrams:
  assumes "distinct ds" "i < length ds"
  shows "sent_to (ds ! i) (datagrams hash ds ms) = routed (pick_dest hash (length ds)) i ms"
proof -
  have "pick_dest hash (length ds) k < length ds" for k
    using assms(2) proxy.pick_lt[of "length ds" hash k] by linarith
  then have "ds ! pick_dest hash (length ds) k = ds ! i \<longleftrightarrow> pick_dest hash (length ds) k = i" for k
    using assms by (simp add: nth_eq_iff_index_eq)
  moreover have "ds \<noteq> []" using assms(2) by auto
  ultimately show ?thesis
    by (simp add: sent_to_def datagrams_def routed_def filter_map comp_def conj_commute)
qed

section \<open>Properties\<close>

text \<open>
  The state a proxy starts in: an empty queue, no metric in hand, nothing sent.
\<close>

definition proxy_fresh :: "('q \<Rightarrow> string list) \<Rightarrow> 'q proxy_worker \<Rightarrow> bool" where
  "proxy_fresh items w = (items (pw_queue w) = [] \<and> (\<forall>h \<in> set (pw_hands w). h = None)
     \<and> pw_sent w = [] \<and> pw_shown w = [])"

lemma new_proxy_worker_fresh:
  assumes "new_proxy_worker q d b aggregators threads up s = Done w t" "items q = []"
  shows "proxy_fresh items w \<and> map sa_port (pw_dests w) = map (\<lambda>hp. word_of_int (port hp)) aggregators"
  using assms by (auto simp: new_proxy_worker_def proxy_fresh_def elim!: run_bind_DoneE dest!: destinations_ports split: if_split_asm)

text \<open>
  The proxy loses nothing the queue accepted. In every reachable state, with any number of
  threads and any interleaving, the accepted metrics are the handled ones, those in the
  threads' hands and those queued; the datagrams are, in order of handling, one for every
  handled metric that has a colon and is not blacklisted, to the destination its name hashes
  to; metrics without a colon are counted, but only while there are destinations.
\<close>

theorem proxy_forwards_accepted:
  assumes "fifo_queue cap push pop items" "proxy_fresh items w0"
    and "preach matches hash blacklist stdout push pop w0 subs hs w"
  shows "mset (accepted subs) = mset hs + in_hand w + mset (items (pw_queue w))
    \<and> pw_sent w = datagrams hash (pw_dests w0) (passed matches blacklist hs)
    \<and> pw_shown w = (if stdout then passed matches blacklist hs else [])
    \<and> pw_bad w mod 2 ^ 64 = (pw_bad w0 + (if pw_dests w0 = [] then 0
          else int (length (filter (\<lambda>m. \<not> has_key m) (passed matches blacklist hs))))) mod 2 ^ 64"
  using queue_client.preach_inv[OF fifo_queue_client[OF assms(1)] assms(3)] assms(2)
  by (simp add: proxy_fresh_def)

text \<open>
  C15. Behind the proxy, sharding over aggregators is exact. For every name but the bad line
  counter's, an aggregator that buffers what the proxy has sent it holds the counter, timer,
  sample count, gauge and set of one aggregator that buffers everything the proxy passed on,
  if the name hashes to it, and no entry for the name otherwise.
\<close>

theorem proxy_sharding_is_exact:
  assumes "fifo_queue cap push pop items" "proxy_fresh items w0"
    and "preach matches hash blacklist stdout push pop w0 subs hs w"
    and "distinct (pw_dests w0)" "i < length (pw_dests w0)"
    and "n \<noteq> bad_lines_key name" "\<forall>l \<in> set hs. NUL \<notin> set l"
  shows "let aggregator = buffer_all lexcast name (sent_to (pw_dests w0 ! i) (pw_sent w)) new_ledger;
      single = buffer_all lexcast name (passed matches blacklist hs) new_ledger;
      home = pick_dest hash (length (pw_dests w0)) n
    in map_of (counters aggregator) n = (if i = home then map_of (counters single) n else None)
    \<and> map_of (timers aggregator) n = (if i = home then map_of (timers single) n else None)
    \<and> map_of (timer_counters aggregator) n = (if i = home then map_of (timer_counters single) n else None)
    \<and> map_of (gauges aggregator) n = (if i = home then map_of (gauges single) n else None)
    \<and> map_of (sets aggregator) n = (if i = home then map_of (sets single) n else None)"
proof -
  have sent: "sent_to (pw_dests w0 ! i) (pw_sent w)
      = routed (pick_dest hash (length (pw_dests w0))) i (passed matches blacklist hs)"
    using queue_client.preach_inv[OF fifo_queue_client[OF assms(1)] assms(3)] assms(2)
    by (simp add: proxy_fresh_def sent_to_datagrams[OF assms(4,5)])
  have nul: "\<forall>l \<in> set (passed matches blacklist hs). NUL \<notin> set l"
    using assms(7) by (auto simp: passed_def)
  show ?thesis
    by (simp add: sent history_counters history_timers history_timer_counters history_gauges history_sets
        proxy.routed_samples[OF nul] proxy.routed_counter_terms[OF assms(6) nul] Let_def)
qed


section \<open>An execution\<close>

abbreviation hash_len :: "string \<Rightarrow> 64 word" where
  "hash_len k \<equiv> of_nat (length k)"

definition proxy0 :: "string list proxy_worker" where
  "proxy0 = \<lparr>pw_queue = [], pw_dropped = 0, pw_bad = 0, pw_done = False, pw_sockfd = 3,
     pw_dests = [\<lparr>sa_addr = 1, sa_port = 8125\<rparr>, \<lparr>sa_addr = 2, sa_port = 8125\<rparr>],
     pw_hands = [None, None], pw_shown = [], pw_sent = []\<rparr>"

definition proxy1 :: "string list proxy_worker" where
  "proxy1 = proxy_handle (=) hash_len [''noise:1|c''] False 1 ''hits:1|c''
     (proxy_pop list_pop 1 (proxy_submit (list_push 10000) ''hits:1|c'' proxy0))"

lemma proxy1_reached:
  "preach (=) hash_len [''noise:1|c''] False (list_push 10000) list_pop proxy0
     [(''hits:1|c'', True)] [''hits:1|c''] proxy1"
proof -
  let ?reach = "preach (=) hash_len [''noise:1|c''] False (list_push 10000) list_pop proxy0"
  have "?reach [(''hits:1|c'', True)] [] (proxy_submit (list_push 10000) ''hits:1|c'' proxy0)"
    using preach.submit[OF preach.start, of "(=)" hash_len "[''noise:1|c'']" False "list_push 10000" list_pop proxy0 "''hits:1|c''"]
    by (simp add: proxy0_def list_push_def)
  then have "?reach [(''hits:1|c'', True)] [] (proxy_pop list_pop 1 (proxy_submit (list_push 10000) ''hits:1|c'' proxy0))"
    by (rule preach.pop) (simp_all add: proxy_submit_def proxy0_def list_push_def)
  from preach.handle[OF this, of 1 "''hits:1|c''"] show ?thesis
    by (simp add: proxy1_def proxy_pop_def proxy_submit_def proxy0_def list_push_def)
qed

lemma proxy0_fresh: "proxy_fresh (\<lambda>q. q) proxy0"
  by (simp add: proxy_fresh_def proxy0_def)

theorem proxy_forwards_accepted_witness:
  "pw_sent proxy1 = [(\<lparr>sa_addr = 1, sa_port = 8125\<rparr>, ''hits:1|c'')]"
proof -
  have "pick_dest hash_len 2 ''hits'' = 0" by code_simp
  then show ?thesis
    using proxy_forwards_accepted[OF fifo_list_queue proxy0_fresh proxy1_reached]
    by (simp add: proxy0_def datagrams_def passed_def has_key_def key_of_def numeral_2_eq_2)
qed

theorem proxy_sharding_is_exact_witness:
  "map_of (counters (buffer_all sample_lex ''st'' (sent_to \<lparr>sa_addr = 1, sa_port = 8125\<rparr> (pw_sent proxy1)) new_ledger)) ''hits''
     = map_of (counters (buffer_all sample_lex ''st'' [''hits:1|c''] new_ledger)) ''hits''"
proof -
  have "pick_dest hash_len 2 ''hits'' = 0" by code_simp
  then show ?thesis
    using proxy_sharding_is_exact[OF fifo_list_queue proxy0_fresh proxy1_reached, of 0 "''hits''" "''st''" sample_lex]
    by (simp add: proxy0_def bad_lines_key_def passed_def Let_def numeral_2_eq_2)
qed

end
