(* ===== verification/Servers.thy ===== *)
theory Servers
  imports Proxy
begin

text \<open>
  The servers that feed the consumers: \<^verbatim>\<open>include/statsdcc/net/servers/socket/server.h\<close>,
  \<^verbatim>\<open>lib/net/servers/socket/udp_server.cc\<close> and \<^verbatim>\<open>tcp_server.cc\<close>, and the factory of
  \<^verbatim>\<open>include/statsdcc/server_factory.h\<close>. The consumer is the parameter \<open>consume\<close>, a function on
  its state \<open>'c\<close>. The values the loop condition reads from \<^verbatim>\<open>done\<close>, one for each iteration, are
  the list \<open>flags\<close>; where it ends the loop is at its head.
\<close>

section \<open>The UDP server\<close>

definition max_msg_size :: nat where
  "max_msg_size = 65536"

text \<open>The lines of a datagram: the buffer is read as a C string.\<close>

definition packet_lines :: "string \<Rightarrow> string list" where
  "packet_lines bytes = getlines (c_str bytes)"

lemma set_split_on: "l \<in> set (split_on c s) \<Longrightarrow> set l \<subseteq> set s"
  by (induction c s arbitrary: l rule: split_on.induct) (fastforce split: if_splits list.splits)+

lemma split_on_whole: "l \<in> set (split_on c s) \<Longrightarrow> c \<notin> set l"
  by (induction c s arbitrary: l rule: split_on.induct) (fastforce split: if_splits list.splits)+

lemma packet_lines_part: "l \<in> set (packet_lines bytes) \<Longrightarrow> l \<in> set (split_on newline (c_str bytes))"
  by (auto simp: packet_lines_def getlines_def Let_def split: if_splits dest: in_set_butlastD)

text \<open>The lines of a packet have no NUL and no newline.\<close>

lemma packet_lines_whole: "l \<in> set (packet_lines bytes) \<Longrightarrow> newline \<notin> set l"
  by (rule split_on_whole[OF packet_lines_part])

lemma packet_lines_clean: "l \<in> set (packet_lines bytes) \<Longrightarrow> NUL \<notin> set l"
  using set_split_on[OF packet_lines_part] NUL_notin_c_str[of bytes] by blast

fun udp_loop ::
  "(string \<Rightarrow> 'c \<Rightarrow> 'c result) \<Rightarrow> int \<Rightarrow> bool list \<Rightarrow> 'c \<Rightarrow> env \<Rightarrow> (bool \<times> 'c) run"
where
  "udp_loop consume fd [] c s = Done (False, c) s"
| "udp_loop consume fd (stop # flags) c s =
     (if stop then Done (True, c) s
      else run_bind (w_recvfrom fd max_msg_size s) (\<lambda>r s. case r of
          Fail e \<Rightarrow>
            if e = EAGAIN \<or> e = EWOULDBLOCK then udp_loop consume fd flags c s else Done (True, c) s
        | Ret bytes \<Rightarrow>
            if length bytes \<le> max_msg_size
            then (case fold_result consume (packet_lines bytes) c of
                Inl e \<Rightarrow> Crash e s
              | Inr c \<Rightarrow> udp_loop consume fd flags c s)
            else Crash Out_of_bounds s))"

text \<open>\<^verbatim>\<open>listen\<close> of one thread. The options are set with the system call itself, not its wrapper.\<close>

definition set_option :: "int \<Rightarrow> string \<Rightarrow> env \<Rightarrow> nat answer run" where
  "set_option fd opt s = sys_call q_setsockopt q_setsockopt_update (Ev_setsockopt fd opt) s"

definition any_address :: "int \<Rightarrow> sockaddr" where
  "any_address p = sock_address 0 p"

definition udp_listen ::
  "(string \<Rightarrow> 'c \<Rightarrow> 'c result) \<Rightarrow> int \<Rightarrow> bool list \<Rightarrow> 'c \<Rightarrow> env \<Rightarrow> (bool \<times> 'c) run"
where
  "udp_listen consume port_no flags c s =
     run_bind (w_socket s) (\<lambda>sk s.
       let fd = fd_of sk in
       if fd = -1 then Done (True, c) s
       else run_bind (set_option fd ''SO_RCVTIMEO'' s) (\<lambda>_ s.
         run_bind (set_option fd ''SO_REUSEADDR'' s) (\<lambda>_ s.
         run_bind (set_option fd ''SO_REUSEPORT'' s) (\<lambda>_ s.
         run_bind (set_option fd ''SO_RCVBUF'' s) (\<lambda>_ s.
         run_bind (w_bind fd (any_address port_no) s) (\<lambda>b s. case b of
             Fail e \<Rightarrow> run_bind (w_close fd s) (\<lambda>_ s. Done (True, c) s)
           | Ret n \<Rightarrow>
               run_bind (udp_loop consume fd flags c s) (\<lambda>(left, c) s.
                 if left then run_bind (w_close fd s) (\<lambda>_ s. Done (True, c) s)
                 else Done (False, c) s)))))))"

section \<open>The TCP server\<close>

text \<open>
  \<open>tc_active\<close> is \<^verbatim>\<open>active_fd_set\<close>, \<open>tc_line\<close> the characters \<^verbatim>\<open>metric[0 .. pos)\<close>, one buffer for
  all connections. The call of the consumer is commented out in the source.
\<close>

record tcp_state =
  tc_active :: "int list"
  tc_line :: string

text \<open>
  One received character. The loop runs to \<^verbatim>\<open>i <= bytes_read\<close>, so it also takes the byte of the
  uninitialised \<^verbatim>\<open>buffer\<close> behind the ones read, the value of \<open>stale\<close>.
\<close>

definition tcp_store :: "char \<Rightarrow> string \<Rightarrow> string result" where
  "tcp_store ch line =
     (if length line < max_msg_size then Inr (if ch = newline then [] else line @ [ch])
      else Inl Out_of_bounds)"

definition tcp_data :: "(string \<Rightarrow> char) \<Rightarrow> string \<Rightarrow> string \<Rightarrow> string result" where
  "tcp_data stale bytes line = fold_result tcp_store (bytes @ [stale bytes]) line"

definition fd_setsize :: int where
  "fd_setsize = 1024"

definition tcp_ready :: "(string \<Rightarrow> char) \<Rightarrow> int \<Rightarrow> int \<Rightarrow> tcp_state \<Rightarrow> env \<Rightarrow> tcp_state run" where
  "tcp_ready stale sockfd i st s =
     (if i = sockfd
      then run_bind (w_accept sockfd s) (\<lambda>r s. case r of
          Fail e \<Rightarrow> Done st s
        | Ret n \<Rightarrow> if int n < fd_setsize then Done (st\<lparr>tc_active := List.insert (int n) (tc_active st)\<rparr>) s
            else Crash Out_of_bounds s)
      else run_bind (w_readn i (max_msg_size - 1) s) (\<lambda>r s.
        let closed = run_bind (w_close i s) (\<lambda>_ s. Done (st\<lparr>tc_active := removeAll i (tc_active st)\<rparr>) s) in
        case r of
          Fail e \<Rightarrow> closed
        | Ret bytes \<Rightarrow>
            if bytes = [] then closed
            else (case tcp_data stale bytes (tc_line st) of
                Inl e \<Rightarrow> Crash e s
              | Inr line \<Rightarrow> Done (st\<lparr>tc_line := line\<rparr>) s)))"

text \<open>One round over the descriptors \<^verbatim>\<open>select\<close> reports, in ascending order, and the loop of rounds.\<close>

fun tcp_scan :: "(string \<Rightarrow> char) \<Rightarrow> int \<Rightarrow> int list \<Rightarrow> tcp_state \<Rightarrow> env \<Rightarrow> tcp_state run" where
  "tcp_scan stale sockfd [] st s = Done st s"
| "tcp_scan stale sockfd (i # is) st s =
     run_bind (tcp_ready stale sockfd i st s) (\<lambda>st s. tcp_scan stale sockfd is st s)"

definition in_fd_order :: "nat list \<Rightarrow> int list" where
  "in_fd_order ready = filter (\<lambda>i. i \<in> set (map int ready)) (map int [0..<nat fd_setsize])"

fun tcp_loop :: "(string \<Rightarrow> char) \<Rightarrow> int \<Rightarrow> bool list \<Rightarrow> tcp_state \<Rightarrow> env \<Rightarrow> (bool \<times> tcp_state) run" where
  "tcp_loop stale sockfd [] st s = Done (False, st) s"
| "tcp_loop stale sockfd (stop # flags) st s =
     (if stop then Done (True, st) s
      else run_bind (w_select s) (\<lambda>r s. case r of
          Fail e \<Rightarrow> tcp_loop stale sockfd flags st s
        | Ret ready \<Rightarrow>
            if ready = [] then tcp_loop stale sockfd flags st s
            else run_bind (tcp_scan stale sockfd (in_fd_order ready) st s) (\<lambda>st s.
              tcp_loop stale sockfd flags st s)))"

definition tcp_listen :: "(string \<Rightarrow> char) \<Rightarrow> int \<Rightarrow> bool list \<Rightarrow> env \<Rightarrow> (bool \<times> tcp_state) run" where
  "tcp_listen stale sockfd flags s =
     (if sockfd < fd_setsize
      then run_bind (tcp_loop stale sockfd flags \<lparr>tc_active = [sockfd], tc_line = []\<rparr> s) (\<lambda>(left, st) s.
        if left then run_bind (w_close sockfd s) (\<lambda>_ s. Done (True, st) s) else Done (False, st) s)
      else Crash Out_of_bounds s)"

text \<open>The constructor; the descriptor of a socket that could not listen stays open.\<close>

definition new_tcp_server :: "int \<Rightarrow> env \<Rightarrow> int run" where
  "new_tcp_server port_no s =
     run_bind (w_socket s) (\<lambda>sk s.
       let fd = fd_of sk in
       if fd = -1 then Crash (Thrown ''Failed to create socket'') s
       else run_bind (w_bind fd (any_address port_no) s) (\<lambda>b s. case b of
           Fail e \<Rightarrow> run_bind (w_close fd s) (\<lambda>_ s. Crash (Thrown ''Failed to bind'') s)
         | Ret n \<Rightarrow> run_bind (w_listen fd 1 s) (\<lambda>l s. case l of
               Fail e \<Rightarrow> Crash (Thrown ''Listen failed'') s
             | Ret n \<Rightarrow> Done fd s)))"

section \<open>What the UDP server consumes\<close>

fun ev_received :: "event \<Rightarrow> string list" where
  "ev_received (Ev_recvfrom fd n (Ret bytes)) = [bytes]"
| "ev_received e = []"

definition received :: "event list \<Rightarrow> string list" where
  "received es = concat (map ev_received es)"

lemma received_append [simp]: "received (xs @ ys) = received xs @ received ys" "received [] = []"
  by (simp_all add: received_def)

lemma retrying_received:
  "retrying (Ev_recvfrom fd n) q tr = (Some (r, q'), tr') \<Longrightarrow>
     \<exists>new. tr' = tr @ new \<and> received new = (case r of Ret b \<Rightarrow> [b] | Fail e \<Rightarrow> [])"
proof (induction q arbitrary: tr)
  case (Cons a q)
  show ?case
  proof (cases "a = Fail EINTR")
    case True
    with Cons.prems have "retrying (Ev_recvfrom fd n) q (tr @ [Ev_recvfrom fd n a]) = (Some (r, q'), tr')" by simp
    from Cons.IH[OF this] True show ?thesis by (auto simp: received_def)
  next
    case False
    with Cons.prems show ?thesis by (cases a) (auto simp: received_def)
  qed
qed simp

lemma w_recvfrom_received:
  assumes "w_recvfrom fd n s = Done r t"
  shows "\<exists>new. trace t = trace s @ new \<and> received new = (case r of Ret b \<Rightarrow> [b] | Fail e \<Rightarrow> [])"
proof -
  from assms obtain u where u: "retry_call q_recvfrom q_recvfrom_update (Ev_recvfrom fd n) s = Done r u"
    "trace t = trace u"
    by (auto simp: w_recvfrom_def log_error_msg_def split: answer.split_asm if_split_asm elim!: run_bind_DoneE)
  then obtain q' tr where "retrying (Ev_recvfrom fd n) (q_recvfrom s) (trace s) = (Some (r, q'), tr)" "trace u = tr"
    by (auto simp: retry_call_def split: option.split_asm prod.split_asm)
  from retrying_received[OF this(1)] this(2) u(2) show ?thesis by simp
qed

lemma udp_loop_consumes:
  "udp_loop consume fd flags c s = Done (left, c') t \<Longrightarrow>
     \<exists>new. trace t = trace s @ new
       \<and> fold_result consume (concat (map packet_lines (received new))) c = Inr c'"
proof (induction consume fd flags c s rule: udp_loop.induct)
  case (1 consume fd c s)
  then show ?case by auto
next
  case (2 consume fd stop flags c s)
  show ?case
  proof (cases stop)
    case True
    with "2.prems" show ?thesis by auto
  next
    case False
    with "2.prems" obtain r u where r: "w_recvfrom fd max_msg_size s = Done r u"
      and rest: "(case r of
          Fail e \<Rightarrow> if e = EAGAIN \<or> e = EWOULDBLOCK then udp_loop consume fd flags c u else Done (True, c) u
        | Ret bytes \<Rightarrow>
            if length bytes \<le> max_msg_size
            then (case fold_result consume (packet_lines bytes) c of
                Inl e \<Rightarrow> Crash e u
              | Inr c \<Rightarrow> udp_loop consume fd flags c u)
            else Crash Out_of_bounds u) = Done (left, c') t"
      by (auto elim!: run_bind_DoneE)
    from w_recvfrom_received[OF r] obtain x where x: "trace u = trace s @ x"
      "received x = (case r of Ret b \<Rightarrow> [b] | Fail e \<Rightarrow> [])" by blast
    show ?thesis
    proof (cases r)
      case (Ret bytes)
      with rest obtain c1 where c1: "fold_result consume (packet_lines bytes) c = Inr c1"
        "length bytes \<le> max_msg_size" "udp_loop consume fd flags c1 u = Done (left, c') t"
        by (auto split: if_split_asm sum.split_asm)
      from "2.IH"(1)[OF False Ret c1(2,1,3)] obtain y where "trace t = trace u @ y"
        "fold_result consume (concat (map packet_lines (received y))) c1 = Inr c'" by blast
      with x Ret c1(1) show ?thesis
        by (intro exI[of _ "x @ y"]) (simp add: fold_result_append)
    next
      case (Fail e)
      show ?thesis
      proof (cases "e = EAGAIN \<or> e = EWOULDBLOCK")
        case True
        with rest Fail have "udp_loop consume fd flags c u = Done (left, c') t" by auto
        from "2.IH"(2)[OF False Fail True this] obtain y where "trace t = trace u @ y"
          "fold_result consume (concat (map packet_lines (received y))) c = Inr c'" by blast
        with x Fail show ?thesis by (intro exI[of _ "x @ y"]) simp
      next
        case False
        with rest Fail have "c' = c" "t = u" by auto
        with x Fail show ?thesis by (intro exI[of _ x]) simp
      qed
    qed
  qed
qed


section \<open>Lines of a packet\<close>

lemma split_on_line: "c \<notin> set l \<Longrightarrow> split_on c (l @ c # r) = l # split_on c r"
  by (induction l) auto

lemma split_on_last: "c \<notin> set l \<Longrightarrow> split_on c l = [l]"
  by (induction l) auto

lemma split_on_lines:
  "\<forall>l \<in> set ls. c \<notin> set l \<Longrightarrow> split_on c (concat (map (\<lambda>l. l @ [c]) ls) @ r) = ls @ split_on c r"
  by (induction ls) (auto simp: split_on_line)

lemma getlines_lines:
  assumes "\<forall>l \<in> set ls. newline \<notin> set l" "newline \<notin> set r"
  shows "getlines (concat (map (\<lambda>l. l @ [newline]) ls) @ r) = ls @ (if r = [] then [] else [r])"
  using assms by (simp add: getlines_def split_on_lines split_on_last)

section \<open>Characters of a stream\<close>

lemma tcp_store_overflow:
  "newline \<notin> set cs \<Longrightarrow> max_msg_size < length line + length cs \<Longrightarrow> length line \<le> max_msg_size \<Longrightarrow>
     fold_result tcp_store cs line = Inl Out_of_bounds"
proof (induction cs arbitrary: line)
  case (Cons ch cs)
  show ?case
  proof (cases "length line < max_msg_size")
    case True
    with Cons.prems Cons.IH[of "line @ [ch]"] show ?thesis by (auto simp: tcp_store_def)
  next
    case False
    then show ?thesis by (simp add: tcp_store_def)
  qed
qed simp

fun chunk :: "string answer \<Rightarrow> string" where
  "chunk (Ret b) = b"
| "chunk (Fail e) = []"

lemma readn_waits:
  "\<forall>a \<in> set (q_read s). a = Fail EINTR \<or> chunk a \<noteq> [] \<Longrightarrow> length (concat (map chunk (q_read s))) < n \<Longrightarrow>
     \<exists>t. readn_loop fd n got s = Waiting t"
proof (induction fd n got s rule: readn_loop.induct)
  case (1 fd n got s)
  show ?case
  proof (cases "q_read s")
    case Nil
    with "1.prems"(2) show ?thesis by (simp add: readn_loop.simps[of fd n got s])
  next
    case (Cons a q)
    have n: "n \<noteq> 0" using "1.prems"(2) by simp
    let ?s = "s\<lparr>q_read := q, errno_now := errno_after a, trace := trace s @ [Ev_read fd n a]\<rparr>"
    have q: "\<forall>a \<in> set (q_read ?s). a = Fail EINTR \<or> chunk a \<noteq> []" using "1.prems"(1) Cons by simp
    show ?thesis
    proof (cases a)
      case (Fail e)
      with "1.prems"(1) Cons have e: "e = EINTR" by auto
      have "\<exists>t. readn_loop fd n got ?s = Waiting t"
        by (rule "1.IH"(2)[OF n Cons refl Fail e q]) (use "1.prems"(2) Cons Fail in simp)
      with Cons Fail e n show ?thesis by (simp add: readn_loop.simps[of fd n got s] Let_def)
    next
      case (Ret b)
      with "1.prems" Cons have b: "b \<noteq> []" "length b \<le> n" by auto
      have "\<exists>t. readn_loop fd (n - length b) (got @ b) ?s = Waiting t"
        by (rule "1.IH"(1)[OF n Cons refl Ret b q]) (use "1.prems"(2) Cons Ret in simp)
      with Cons Ret b n show ?thesis by (simp add: readn_loop.simps[of fd n got s] Let_def)
    qed
  qed
qed

section \<open>Properties\<close>

text \<open>
  C8. From the socket to the workers: whatever the operating system answers (interrupts, time-outs,
  datagrams, an error that ends the thread) and whenever the loop is looked at, the queue of
  every aggregator worker has received exactly the lines of the received datagrams that belong
  to its shard, in order, as long as the queues have room.
\<close>

theorem datagrams_reach_workers:
  assumes "fifo_queue cap push pop items" "0 < workers" "workers \<le> int_max" "length ws = nat workers"
    and "new_agg_consumer hash name workers = Inr c"
    and "udp_loop (agg_consume hash workers push c True) fd flags ws s = Done (left, ws') t"
  shows "\<exists>new. trace t = trace s @ new \<and>
    (let lines = concat (map packet_lines (received new)) in
     (\<forall>w \<in> set ws. length (items (work_queue w)) + length lines \<le> cap) \<longrightarrow>
       length ws' = length ws \<and> (\<forall>i < length ws. items (work_queue (ws' ! i)) =
         items (work_queue (ws ! i)) @ shard_stream hash workers name lines i))"
proof -
  from udp_loop_consumes[OF assms(6)] obtain new where new: "trace t = trace s @ new"
    "agg_consume_all hash workers push c (concat (map packet_lines (received new))) ws = Inr ws'"
    by (auto simp: agg_consume_all_def)
  with queue_client.consume_all[OF fifo_queue_client[OF assms(1)] assms(2-5), of "concat (map packet_lines (received new))"]
  show ?thesis by (intro exI[of _ new]) (auto simp: Let_def)
qed

text \<open>
  Framing: the lines of a packet that ends every line with a newline, or all but the last,
  are read back as they were written, if no line contains a newline or a NUL.
\<close>

theorem packet_lines_roundtrip:
  assumes "\<forall>l \<in> set ls. newline \<notin> set l \<and> NUL \<notin> set l" "newline \<notin> set r \<and> NUL \<notin> set r"
  shows "packet_lines (concat (map (\<lambda>l. l @ [newline]) ls) @ r) = ls @ (if r = [] then [] else [r])"
proof -
  have "NUL \<notin> set (concat (map (\<lambda>l. l @ [newline]) ls) @ r)"
    using assms by (auto simp: newline_def)
  with assms show ?thesis by (simp add: packet_lines_def c_str_id getlines_lines)
qed

text \<open>
  The TCP server has one line buffer for all connections and never checks its end: data that
  brings the characters since the last newline to the size of the buffer writes past it, since
  the byte behind the data is stored as well.
\<close>

theorem tcp_long_line_overflows:
  assumes "w_readn i (max_msg_size - 1) s = Done (Ret bytes) u" "bytes \<noteq> []" "i \<noteq> sockfd"
    and "newline \<notin> set bytes" "stale bytes \<noteq> newline"
    and "length (tc_line st) \<le> max_msg_size" "max_msg_size \<le> length (tc_line st) + length bytes"
  shows "tcp_ready stale sockfd i st s = Crash Out_of_bounds u"
proof -
  have "tcp_data stale bytes (tc_line st) = Inl Out_of_bounds"
    unfolding tcp_data_def by (rule tcp_store_overflow) (use assms(4-7) in auto)
  with assms(1-3) show ?thesis by (simp add: tcp_ready_def)
qed

text \<open>
  A TCP client stops the server: it reads with \<^verbatim>\<open>readn\<close>, which returns only after 65535 bytes,
  an error or the end of the stream. While a client has sent less and keeps its connection,
  the thread stays in that call, and with it every other connection.
\<close>

theorem tcp_short_message_blocks:
  assumes "i \<noteq> sockfd" "\<forall>a \<in> set (q_read s). a = Fail EINTR \<or> chunk a \<noteq> []"
    and "length (concat (map chunk (q_read s))) < max_msg_size - 1"
  shows "\<exists>t. tcp_ready stale sockfd i st s = Waiting t"
proof -
  have "\<exists>t. readn_loop i (max_msg_size - 1) [] (s\<lparr>errno_now := None\<rparr>) = Waiting t"
    by (rule readn_waits) (use assms(2,3) in auto)
  with assms(1) show ?thesis by (auto simp: tcp_ready_def w_readn_def log_failure_def)
qed

section \<open>Examples\<close>

theorem datagrams_reach_workers_witness:
  "\<exists>ws' t. udp_loop (agg_consume (\<lambda>_. 0) 1 (list_push 10000)
        \<lparr>bad_keys_metric = ''st.bad_keys:1|c'', bad_keys_queue_hash = 0\<rparr> True) 4 [False, False]
        [worker0] (quiet_env\<lparr>q_recvfrom := [Fail EINTR, Ret ''hits:1|c'', Fail EAGAIN]\<rparr>) = Done (False, ws') t
     \<and> work_queue (ws' ! 0) = shard_stream (\<lambda>_. 0) 1 ''st'' [''hits:1|c''] 0"
proof -
  let ?c = "\<lparr>bad_keys_metric = ''st.bad_keys:1|c'', bad_keys_queue_hash = 0\<rparr>"
  let ?s = "quiet_env\<lparr>q_recvfrom := [Fail EINTR, Ret ''hits:1|c'', Fail EAGAIN]\<rparr>"
  have c: "new_agg_consumer (\<lambda>_. 0) ''st'' 1 = Inr ?c" by code_simp
  have l: "packet_lines ''hits:1|c'' = [''hits:1|c'']" by code_simp
  have a: "agg_consume (\<lambda>_. 0) 1 (list_push 10000) ?c True ''hits:1|c'' [worker0]
      = Inr [submit (list_push 10000) ''hits:1|c'' worker0]"
    by (simp add: agg_consume_def index_mod_def submit_to_def c_str_def)
  define new where "new = [Ev_recvfrom 4 max_msg_size (Fail EINTR), Ev_recvfrom 4 max_msg_size (Ret ''hits:1|c''),
      Ev_recvfrom 4 max_msg_size (Fail EAGAIN)]"
  have run: "\<exists>t. udp_loop (agg_consume (\<lambda>_. 0) 1 (list_push 10000) ?c True) 4 [False, False] [worker0] ?s
      = Done (False, [submit (list_push 10000) ''hits:1|c'' worker0]) t \<and> trace t = new"
    by (simp add: quiet_env_def w_recvfrom_def retry_call_def l a new_def max_msg_size_def)
  then obtain t where t: "udp_loop (agg_consume (\<lambda>_. 0) 1 (list_push 10000) ?c True) 4 [False, False] [worker0] ?s
      = Done (False, [submit (list_push 10000) ''hits:1|c'' worker0]) t" "trace t = new" by blast
  have r: "received new = [''hits:1|c'']" by (simp add: new_def received_def)
  from datagrams_reach_workers[OF fifo_list_queue _ _ _ c t(1)] t r l show ?thesis
    by (auto simp: quiet_env_def new_worker_def)
qed

theorem packet_lines_roundtrip_witness:
  "packet_lines (''hits:1|c'' @ [newline] @ ''t:4|ms'') = [''hits:1|c'', ''t:4|ms'']"
  using packet_lines_roundtrip[of "[''hits:1|c'']" "''t:4|ms''"] by (simp add: newline_def)

theorem tcp_long_line_overflows_witness:
  "\<exists>u. tcp_ready (\<lambda>_. CHR ''x'') 3 5 \<lparr>tc_active = [3, 5], tc_line = replicate 65535 CHR ''a''\<rparr>
     (quiet_env\<lparr>q_read := [Ret ''b'', Ret []]\<rparr>) = Crash Out_of_bounds u"
proof -
  have "\<exists>u. w_readn 5 (max_msg_size - 1) (quiet_env\<lparr>q_read := [Ret ''b'', Ret []]\<rparr>) = Done (Ret ''b'') u"
    by (simp add: quiet_env_def w_readn_def readn_loop.simps log_failure_def max_msg_size_def)
  then obtain u where u: "w_readn 5 (max_msg_size - 1) (quiet_env\<lparr>q_read := [Ret ''b'', Ret []]\<rparr>) = Done (Ret ''b'') u" ..
  from tcp_long_line_overflows[OF u, of 3 "\<lambda>_. CHR ''x''" "\<lparr>tc_active = [3, 5], tc_line = replicate 65535 CHR ''a''\<rparr>"]
  show ?thesis by (simp add: newline_def max_msg_size_def)
qed

theorem tcp_short_message_blocks_witness:
  "\<exists>t. tcp_ready (\<lambda>_. CHR ''x'') 3 5 \<lparr>tc_active = [3, 5], tc_line = []\<rparr>
     (quiet_env\<lparr>q_read := [Ret (''hits:1|c'' @ [newline])]\<rparr>) = Waiting t"
  by (rule tcp_short_message_blocks) (auto simp: quiet_env_def max_msg_size_def)

end
