(* ===== verification/Proxy_System.thy ===== *)
theory Proxy_System
  imports Proxy Servers
begin

text \<open>
  The running proxy, \<^verbatim>\<open>src/proxy.cc\<close> after its start: the threads of the UDP server put lines
  into the queue of the worker, whose threads take them out and send them on. A step is one
  operation of one thread; the steps interleave.
\<close>

section \<open>Steps\<close>

text \<open>\<open>pp_backlog\<close> holds for every UDP thread the lines of its datagram it has not consumed yet.\<close>

record 'q proxy_program =
  pp_worker :: "'q proxy_worker"
  pp_backlog :: "string list list"

definition proxy_started :: "'q proxy_worker \<Rightarrow> nat \<Rightarrow> 'q proxy_program" where
  "proxy_started w threads = \<lparr>pp_worker = w, pp_backlog = replicate threads []\<rparr>"

definition proxy_receive :: "nat \<Rightarrow> string \<Rightarrow> 'q proxy_program \<Rightarrow> 'q proxy_program" where
  "proxy_receive j bytes s = s\<lparr>pp_backlog := (pp_backlog s)[j := packet_lines bytes]\<rparr>"

definition proxy_consume_next ::
  "(string \<Rightarrow> 'q \<Rightarrow> 'q option) \<Rightarrow> bool \<Rightarrow> nat \<Rightarrow> 'q proxy_program \<Rightarrow> 'q proxy_program"
where
  "proxy_consume_next push alloc j s =
     s\<lparr>pp_worker := proxy_consume push alloc (hd (pp_backlog s ! j)) (pp_worker s),
       pp_backlog := (pp_backlog s)[j := tl (pp_backlog s ! j)]\<rparr>"

text \<open>
  Executions, with the datagrams received, the lines consumed, each with whether the queue took
  it, and the metrics handled, in order.
\<close>

inductive ppreach ::
  "('r \<Rightarrow> string \<Rightarrow> bool) \<Rightarrow> (string \<Rightarrow> 64 word) \<Rightarrow> 'r list \<Rightarrow> bool \<Rightarrow> (string \<Rightarrow> 'q \<Rightarrow> 'q option) \<Rightarrow>
    ('q \<Rightarrow> (string \<times> 'q) option) \<Rightarrow> 'q proxy_worker \<Rightarrow> nat \<Rightarrow>
    string list \<Rightarrow> submissions \<Rightarrow> string list \<Rightarrow> 'q proxy_program \<Rightarrow> bool"
  for matches hash blacklist stdout push pop w0 threads
where
  start: "ppreach matches hash blacklist stdout push pop w0 threads [] [] [] (proxy_started w0 threads)"
| receive: "ppreach matches hash blacklist stdout push pop w0 threads ds cs hs s \<Longrightarrow>
    j < length (pp_backlog s) \<Longrightarrow> pp_backlog s ! j = [] \<Longrightarrow> length bytes \<le> max_msg_size \<Longrightarrow>
    ppreach matches hash blacklist stdout push pop w0 threads (ds @ [bytes]) cs hs (proxy_receive j bytes s)"
| consume: "ppreach matches hash blacklist stdout push pop w0 threads ds cs hs s \<Longrightarrow>
    j < length (pp_backlog s) \<Longrightarrow> pp_backlog s ! j = l # ls \<Longrightarrow>
    ppreach matches hash blacklist stdout push pop w0 threads ds
      (cs @ [(l, alloc \<and> push (c_str l) (pw_queue (pp_worker s)) \<noteq> None)]) hs (proxy_consume_next push alloc j s)"
| stop: "ppreach matches hash blacklist stdout push pop w0 threads ds cs hs s \<Longrightarrow>
    ppreach matches hash blacklist stdout push pop w0 threads ds cs hs
      (s\<lparr>pp_worker := stop_proxy (pp_worker s)\<rparr>)"
| pop: "ppreach matches hash blacklist stdout push pop w0 threads ds cs hs s \<Longrightarrow>
    i < length (pw_hands (pp_worker s)) \<Longrightarrow> pw_hands (pp_worker s) ! i = None \<Longrightarrow>
    ppreach matches hash blacklist stdout push pop w0 threads ds cs hs
      (s\<lparr>pp_worker := proxy_pop pop i (pp_worker s)\<rparr>)"
| handle: "ppreach matches hash blacklist stdout push pop w0 threads ds cs hs s \<Longrightarrow>
    i < length (pw_hands (pp_worker s)) \<Longrightarrow> pw_hands (pp_worker s) ! i = Some m \<Longrightarrow>
    ppreach matches hash blacklist stdout push pop w0 threads ds cs (hs @ [m])
      (s\<lparr>pp_worker := proxy_handle matches hash blacklist stdout i m (pp_worker s)\<rparr>)"

section \<open>Lines\<close>

lemma proxy_lines_conserved:
  "ppreach matches hash blacklist stdout push pop w0 threads ds cs hs s \<Longrightarrow>
     mset (map fst cs) + mset (concat (pp_backlog s)) = mset (concat (map packet_lines ds))"
proof (induction rule: ppreach.induct)
  case start
  then show ?case by (simp add: proxy_started_def)
next
  case (receive ds cs hs s j bytes)
  from mset_concat_update[OF receive.hyps(2), of "packet_lines bytes"] receive.hyps(3) receive.IH
  show ?case by (simp add: proxy_receive_def)
next
  case (consume ds cs hs s j l ls alloc)
  from mset_concat_update[OF consume.hyps(2), of ls] consume.hyps(3) consume.IH
  show ?case
    by (simp add: proxy_consume_next_def) (metis (no_types, lifting) add_mset_add_single union_assoc union_commute)
qed simp_all

lemma proxy_lines_clean:
  assumes "ppreach matches hash blacklist stdout push pop w0 threads ds cs hs s" "l \<in> set (map fst cs)"
  shows "NUL \<notin> set l \<and> newline \<notin> set l"
proof -
  have "l \<in># mset (map fst cs) + mset (concat (pp_backlog s))" using assms(2) by simp
  then have "l \<in># mset (concat (map packet_lines ds))" unfolding proxy_lines_conserved[OF assms(1)] .
  then show ?thesis using packet_lines_clean packet_lines_whole by auto
qed

text \<open>The worker of the program makes the steps of \<open>Proxy\<close>.\<close>

lemma proxy_worker_reach:
  assumes "ppreach matches hash blacklist stdout push pop w0 threads ds cs hs s"
  shows "\<exists>subs. preach matches hash blacklist stdout push pop w0 subs hs (pp_worker s)
    \<and> accepted subs = map c_str (accepted cs)"
  using assms
proof (induction rule: ppreach.induct)
  case start
  show ?case by (intro exI[of _ "[]"]) (simp add: proxy_started_def accepted_def preach.start)
next
  case (consume ds cs hs s j l ls alloc)
  then obtain subs where r: "preach matches hash blacklist stdout push pop w0 subs hs (pp_worker s)"
    "accepted subs = map c_str (accepted cs)" by blast
  show ?case
  proof (cases alloc)
    case True
    with preach.submit[OF r(1), of "c_str l"] r(2) consume.hyps(3) show ?thesis
      by (intro exI[of _ "subs @ [(c_str l, push (c_str l) (pw_queue (pp_worker s)) \<noteq> None)]"])
        (simp add: proxy_consume_next_def proxy_consume_def accepted_def)
  next
    case False
    with r show ?thesis
      by (intro exI[of _ subs]) (simp add: proxy_consume_next_def proxy_consume_def accepted_def)
  qed
qed (auto simp: proxy_receive_def intro: preach.stop preach.pop preach.handle)

lemma proxy_program_inv:
  assumes "fifo_queue cap push pop items" "proxy_fresh items w0"
    and "ppreach matches hash blacklist stdout push pop w0 threads ds cs hs s"
  shows "mset (map fst cs) + mset (concat (pp_backlog s)) = mset (concat (map packet_lines ds))
    \<and> mset (accepted cs) = mset hs + in_hand (pp_worker s) + mset (items (pw_queue (pp_worker s)))
    \<and> pw_sent (pp_worker s) = datagrams hash (pw_dests w0) (passed matches blacklist hs)
    \<and> pw_shown (pp_worker s) = (if stdout then passed matches blacklist hs else [])
    \<and> pw_bad (pp_worker s) mod 2 ^ 64 = (pw_bad w0 + (if pw_dests w0 = [] then 0
          else int (length (filter (\<lambda>m. \<not> has_key m) (passed matches blacklist hs))))) mod 2 ^ 64"
proof -
  from proxy_worker_reach[OF assms(3)] obtain subs where
    r: "preach matches hash blacklist stdout push pop w0 subs hs (pp_worker s)" and
    a: "accepted subs = map c_str (accepted cs)" by blast
  have "map c_str (accepted cs) = accepted cs"
    using proxy_lines_clean[OF assms(3)] by (intro map_idI c_str_id) (auto simp: accepted_def)
  with a proxy_lines_conserved[OF assms(3)] show ?thesis
    using queue_client.preach_inv[OF fifo_queue_client[OF assms(1)] r] assms(2)
    by (simp add: proxy_fresh_def del: power_numeral)
qed

section \<open>Properties\<close>

text \<open>
  C6. From the datagrams in to the datagrams out. In every reachable state of the proxy, whatever the
  interleaving of its threads: every line of a received datagram has been consumed once or waits in the
  thread that got it; the lines the queue took are those that were handled, those in the hands of the
  worker's threads and those queued; and the datagrams sent are, in the order of handling, one for
  every handled line with a colon that no pattern of the blacklist matches, to the destination
  its name hashes to; \<^verbatim>\<open>stdout\<close> shows what was passed, and lines without a colon are counted, but
  only while there are destinations.
\<close>

theorem proxy_conserves_lines:
  assumes "fifo_queue cap push pop items" "proxy_fresh items w0"
    and "ppreach matches hash blacklist stdout push pop w0 threads ds cs hs s"
  shows "mset (map fst cs) + mset (concat (pp_backlog s)) = mset (concat (map packet_lines ds))
    \<and> mset (accepted cs) = mset hs + in_hand (pp_worker s) + mset (items (pw_queue (pp_worker s)))
    \<and> pw_sent (pp_worker s) = datagrams hash (pw_dests w0) (passed matches blacklist hs)
    \<and> pw_shown (pp_worker s) = (if stdout then passed matches blacklist hs else [])
    \<and> pw_bad (pp_worker s) mod 2 ^ 64 = (pw_bad w0 + (if pw_dests w0 = [] then 0
          else int (length (filter (\<lambda>m. \<not> has_key m) (passed matches blacklist hs))))) mod 2 ^ 64"
  by (rule proxy_program_inv[OF assms])

section \<open>An execution\<close>

text \<open>A datagram with one line, which the second thread of the worker sends on.\<close>

definition forwarded :: "string list proxy_program" where
  "forwarded = \<lparr>pp_worker = proxy0\<lparr>pw_sent := [(\<lparr>sa_addr = 1, sa_port = 8125\<rparr>, ''hits:1|c'')]\<rparr>,
     pp_backlog = [[]]\<rparr>"

lemma forwarded_reached:
  "ppreach (=) (\<lambda>_. 0) [''noise:1|c''] False (list_push 10000) list_pop proxy0 1
     [''hits:1|c''] [(''hits:1|c'', True)] [''hits:1|c''] forwarded"
proof -
  let ?P = "ppreach (=) (\<lambda>_. 0) [''noise:1|c''] False (list_push 10000) list_pop proxy0 1"
  have lines: "packet_lines ''hits:1|c'' = [''hits:1|c'']" by code_simp
  have c: "c_str ''hits:1|c'' = ''hits:1|c''" by (simp add: c_str_def)
  have "?P ([] @ [''hits:1|c'']) [] [] (proxy_receive 0 ''hits:1|c'' (proxy_started proxy0 1))"
    by (rule ppreach.receive[OF ppreach.start]) (simp_all add: proxy_started_def max_msg_size_def)
  then have "?P [''hits:1|c''] [] [] \<lparr>pp_worker = proxy0, pp_backlog = [[''hits:1|c'']]\<rparr>"
    by (simp add: proxy_receive_def proxy_started_def lines)
  from ppreach.consume[OF this, of 0 "''hits:1|c''" "[]" True]
  have "?P [''hits:1|c''] [(''hits:1|c'', True)] []
      \<lparr>pp_worker = proxy0\<lparr>pw_queue := [''hits:1|c'']\<rparr>, pp_backlog = [[]]\<rparr>"
    by (simp add: proxy_consume_next_def proxy_consume_def proxy_submit_def list_push_def proxy0_def c)
  from ppreach.pop[OF this, of 1]
  have "?P [''hits:1|c''] [(''hits:1|c'', True)] []
      \<lparr>pp_worker = proxy0\<lparr>pw_hands := [None, Some ''hits:1|c'']\<rparr>, pp_backlog = [[]]\<rparr>"
    by (simp add: proxy_pop_def proxy0_def)
  from ppreach.handle[OF this, of 1 "''hits:1|c''"] show ?thesis
    by (simp add: proxy_handle_def handle_metric_def pick_dest_def proxy0_def forwarded_def)
qed

theorem proxy_conserves_lines_witness:
  "pw_sent (pp_worker forwarded) = datagrams (\<lambda>_. 0) (pw_dests proxy0) (passed (=) [''noise:1|c''] [''hits:1|c''])"
  using proxy_conserves_lines[OF fifo_list_queue proxy0_fresh forwarded_reached] by simp

end
