(* ===== verification/Logger.thy ===== *)
theory Logger
  imports Cstdio "HOL-Library.Word"
begin

text \<open>
  The leveled logger of \<^verbatim>\<open>include/statsdcc/logger.h\<close> and \<^verbatim>\<open>lib/logger.cc\<close> and the times of
  \<^verbatim>\<open>include/statsdcc/chrono.h\<close>. \<^verbatim>\<open>syslog\<close>, \<^verbatim>\<open>openlog\<close> and \<^verbatim>\<open>closelog\<close> are the operating
  system's: what is called, and with what, is the value the model returns. The clock, what
  \<^verbatim>\<open>localtime\<close> makes of it and the id of the calling thread are arguments.
\<close>

section \<open>Times\<close>

text \<open>
  \<^verbatim>\<open>unixtime_ms\<close> of a system clock that counts nanoseconds: the division of durations truncates,
  and the signed result is returned as \<^verbatim>\<open>uint64_t\<close>.
\<close>

definition unixtime_ms :: "int \<Rightarrow> 64 word" where
  "unixtime_ms ns = word_of_int (sgn ns * (\<bar>ns\<bar> div 1000000))"

text \<open>What \<^verbatim>\<open>current_time\<close> reads of a \<^verbatim>\<open>struct tm\<close>, and its format in the C locale.\<close>

record tm =
  tm_min :: int
  tm_hour :: int
  tm_mday :: int
  tm_mon :: int
  tm_wday :: int

definition tm_ok :: "tm \<Rightarrow> bool" where
  "tm_ok t = (0 \<le> tm_min t \<and> tm_min t < 60 \<and> 0 \<le> tm_hour t \<and> tm_hour t < 24
    \<and> 1 \<le> tm_mday t \<and> tm_mday t \<le> 31 \<and> 0 \<le> tm_mon t \<and> tm_mon t < 12 \<and> 0 \<le> tm_wday t \<and> tm_wday t < 7)"

definition weekdays :: "string list" where
  "weekdays = [''Sun'', ''Mon'', ''Tue'', ''Wed'', ''Thu'', ''Fri'', ''Sat'']"

definition months :: "string list" where
  "months = [''Jan'', ''Feb'', ''Mar'', ''Apr'', ''May'', ''Jun'',
     ''Jul'', ''Aug'', ''Sep'', ''Oct'', ''Nov'', ''Dec'']"

definition name_at :: "string list \<Rightarrow> int \<Rightarrow> string" where
  "name_at names i = (if 0 \<le> i \<and> i < int (length names) then names ! nat i else ''?'')"

definition two_digits :: "int \<Rightarrow> string" where
  "two_digits n = pad_left 2 (show_int n)"

definition hour12 :: "int \<Rightarrow> int" where
  "hour12 h = (if h mod 12 = 0 then 12 else h mod 12)"

definition current_time :: "tm \<Rightarrow> string" where
  "current_time t = name_at weekdays (tm_wday t) @ '' '' @ name_at months (tm_mon t) @ '' ''
     @ two_digits (tm_mday t) @ '' '' @ two_digits (hour12 (tm_hour t)) @ '':'' @ two_digits (tm_min t)
     @ '' '' @ (if tm_hour t < 12 then ''AM'' else ''PM'')"

section \<open>Levels\<close>

datatype log_level = Debug | Info | Warn | Error

text \<open>\<^verbatim>\<open>static_cast<int16_t>(level)\<close>: the enumerators count from 0.\<close>

fun level_rank :: "log_level \<Rightarrow> int" where
  "level_rank Debug = 0"
| "level_rank Info = 1"
| "level_rank Warn = 2"
| "level_rank Error = 3"

lemma level_rank_inj: "level_rank a = level_rank b \<longleftrightarrow> a = b"
  by (cases a; cases b) auto

instantiation log_level :: linorder
begin

definition less_eq_log_level :: "log_level \<Rightarrow> log_level \<Rightarrow> bool" where
  "less_eq_log_level a b = (level_rank a \<le> level_rank b)"

definition less_log_level :: "log_level \<Rightarrow> log_level \<Rightarrow> bool" where
  "less_log_level a b = (level_rank a < level_rank b)"

instance
  by standard (auto simp: less_eq_log_level_def less_log_level_def level_rank_inj)

end

text \<open>The hash of the table's keys; \<^verbatim>\<open>std::hash<int>\<close> is an argument.\<close>

definition hash_level :: "(int \<Rightarrow> 64 word) \<Rightarrow> log_level \<Rightarrow> 64 word" where
  "hash_level hash_int level = hash_int (level_rank level)"

section \<open>Logging\<close>

datatype priority = LOG_ERR | LOG_WARNING | LOG_INFO | LOG_DEBUG

datatype syslog_call =
    Openlog "string option" "string list" string
  | Syslog priority string
  | Closelog

record logger =
  lg_level :: log_level

text \<open>
  \<^verbatim>\<open>construct\<close>, the two constructors, of which the first leaves the level as the memory had it,
  and the destructor.
\<close>

definition construct_logger :: "syslog_call list" where
  "construct_logger = [Openlog None [''LOG_CONS'', ''LOG_PERROR''] ''LOG_LOCAL7'']"

definition default_logger :: "log_level \<Rightarrow> logger \<times> syslog_call list" where
  "default_logger stale = (\<lparr>lg_level = stale\<rparr>, construct_logger)"

definition new_logger :: "log_level \<Rightarrow> logger \<times> syslog_call list" where
  "new_logger level = (let (lg, calls) = default_logger Debug in (lg\<lparr>lg_level := level\<rparr>, calls))"

definition destroy_logger :: "logger \<Rightarrow> syslog_call list" where
  "destroy_logger lg = [Closelog]"

text \<open>
  \<^verbatim>\<open>Logger::log\<close>: the syslog calls a message causes. \<open>now\<close> is the broken-down time and \<open>tid\<close>
  the thread; the message is read up to its first NUL.
\<close>

definition log_line :: "string \<Rightarrow> tm \<Rightarrow> int \<Rightarrow> string \<Rightarrow> string" where
  "log_line tag now tid message =
     tag @ '' ['' @ current_time now @ ''] ['' @ show_int tid @ ''] '' @ c_str message @ [newline]"

definition logger_log :: "logger \<Rightarrow> tm \<Rightarrow> int \<Rightarrow> string \<Rightarrow> log_level \<Rightarrow> syslog_call list" where
  "logger_log lg now tid message level =
     (case level of
        Error \<Rightarrow> [Syslog LOG_ERR (log_line ''[error]'' now tid message)]
      | Warn \<Rightarrow> [Syslog LOG_WARNING (log_line ''[warn]'' now tid message)]
      | Info \<Rightarrow>
          if level_rank (lg_level lg) < level_rank Warn
          then [Syslog LOG_INFO (log_line ''[info]'' now tid message)] else []
      | Debug \<Rightarrow>
          if level_rank (lg_level lg) < level_rank Info
          then [Syslog LOG_DEBUG (log_line ''[debug]'' now tid message)] else [])"

definition log_debug :: "logger \<Rightarrow> tm \<Rightarrow> int \<Rightarrow> string \<Rightarrow> syslog_call list" where
  "log_debug lg now tid message = logger_log lg now tid message Debug"

definition log_info :: "logger \<Rightarrow> tm \<Rightarrow> int \<Rightarrow> string \<Rightarrow> syslog_call list" where
  "log_info lg now tid message = logger_log lg now tid message Info"

definition log_warn :: "logger \<Rightarrow> tm \<Rightarrow> int \<Rightarrow> string \<Rightarrow> syslog_call list" where
  "log_warn lg now tid message = logger_log lg now tid message Warn"

definition log_error :: "logger \<Rightarrow> tm \<Rightarrow> int \<Rightarrow> string \<Rightarrow> syslog_call list" where
  "log_error lg now tid message = logger_log lg now tid message Error"

section \<open>The static table of loggers\<close>

text \<open>
  \<^verbatim>\<open>get_logger(level)\<close>: the logger of the level, created on first use. The table is the
  static member \<^verbatim>\<open>loggers\<close>; a null pointer is \<open>None\<close>.
\<close>

type_synonym loggers = "(log_level, logger option) umap"

definition get_logger :: "loggers \<Rightarrow> log_level \<Rightarrow> logger \<times> loggers \<times> syslog_call list" where
  "get_logger lgs level =
     (case umap_at None lgs level of
        Some lg \<Rightarrow> (lg, lgs, [])
      | None \<Rightarrow> (let (lg, calls) = new_logger level in (lg, umap_put level (Some lg) lgs, calls)))"

definition get_default_logger :: "loggers \<Rightarrow> logger \<times> loggers \<times> syslog_call list" where
  "get_default_logger lgs = get_logger lgs Warn"

definition loggers_ok :: "loggers \<Rightarrow> bool" where
  "loggers_ok ls = (\<forall>lv lg. map_of ls lv = Some (Some lg) \<longrightarrow> lg_level lg = lv)"

lemmas logger_defs = get_logger_def new_logger_def default_logger_def construct_logger_def umap_at_def

section \<open>What holds of times\<close>

lemma unixtime_ms_range: "0 \<le> ns \<Longrightarrow> ns < 2 ^ 63 \<Longrightarrow> uint (unixtime_ms ns) = ns div 1000000"
proof -
  assume ns: "0 \<le> ns" "ns < 2 ^ 63"
  then have "sgn ns * (\<bar>ns\<bar> div 1000000) = ns div 1000000" by (cases "ns = 0") simp_all
  then have "unixtime_ms ns = word_of_int (ns div 1000000)" by (simp only: unixtime_ms_def)
  moreover have "0 \<le> ns div 1000000" "ns div 1000000 < 2 ^ 64" using ns by simp_all
  ultimately show ?thesis by (simp add: uint_word_of_int_eq take_bit_int_eq_self)
qed

lemma unixtime_ms_mono: "0 \<le> a \<Longrightarrow> a \<le> b \<Longrightarrow> b < 2 ^ 63 \<Longrightarrow> unixtime_ms a \<le> unixtime_ms b"
  by (simp add: word_le_def unixtime_ms_range zdiv_mono1)

lemma name_at_length: "\<forall>s \<in> set names. length s = 3 \<Longrightarrow> 0 \<le> i \<Longrightarrow> i < int (length names) \<Longrightarrow> length (name_at names i) = 3"
  by (simp add: name_at_def)

lemma name_at_inj:
  "name_at names i = name_at names j \<Longrightarrow> distinct names \<Longrightarrow> 0 \<le> i \<Longrightarrow> i < int (length names) \<Longrightarrow>
    0 \<le> j \<Longrightarrow> j < int (length names) \<Longrightarrow> i = j"
  by (auto simp: name_at_def nth_eq_iff_index_eq)

lemma digit_chars:
  "digit_char 0 = CHR ''0''" "digit_char 2 = CHR ''2''" "digit_char 5 = CHR ''5''"
  by code_simp+

lemma two_digits_shape:
  assumes "0 \<le> n" "n < 100"
  shows "two_digits n = [digit_char (nat (n div 10)), digit_char (nat (n mod 10))]"
proof (cases "n < 10")
  case True
  with assms show ?thesis
    by (simp add: digit_chars two_digits_def show_int_def pad_left_def nat_digits.simps[of n] div_pos_pos_trivial)
next
  case False
  with assms have "nat_digits (n div 10) = [digit_char (nat (n div 10))]"
    by (subst nat_digits.simps) auto
  with False assms show ?thesis
    by (simp add: two_digits_def show_int_def pad_left_def nat_digits.simps[of n])
qed

lemma two_digits_inj:
  assumes "two_digits m = two_digits n" "0 \<le> m" "m < 100" "0 \<le> n" "n < 100"
  shows "m = n"
proof -
  have "digits_value 10 (two_digits k) = k" if "0 \<le> k" "k < 100" for k
    using that pos_imp_zdiv_nonneg_iff[of 10 k]
    by (simp add: two_digits_shape digits_value_def digit_value_digit_char nat_less_iff)
  with assms show ?thesis by metis
qed

lemma hour12_inj: "hour12 a = hour12 b \<Longrightarrow> (a < 12 \<longleftrightarrow> b < 12) \<Longrightarrow> 0 \<le> a \<Longrightarrow> a < 24 \<Longrightarrow> 0 \<le> b \<Longrightarrow> b < 24 \<Longrightarrow> a = b"
proof -
  have "k mod 12 = (if k < 12 then k else k - 12)" if "0 \<le> k" "k < 24" for k :: int
    using that by (cases "k < 12") (simp, presburger)
  then show "hour12 a = hour12 b \<Longrightarrow> (a < 12 \<longleftrightarrow> b < 12) \<Longrightarrow> 0 \<le> a \<Longrightarrow> a < 24 \<Longrightarrow> 0 \<le> b \<Longrightarrow> b < 24 \<Longrightarrow> a = b"
    by (simp add: hour12_def split: if_splits)
qed

text \<open>
  The text of a valid time has 19 characters, so the buffer of 100 holds it, and it determines
  the time to the minute, the month and the day of the week; the year is not in it.
\<close>

theorem current_time_length:
  assumes "tm_ok t"
  shows "length (current_time t) = 19"
proof -
  from assms have "length (name_at weekdays (tm_wday t)) = 3" "length (name_at months (tm_mon t)) = 3"
    by (auto intro!: name_at_length simp: weekdays_def months_def tm_ok_def)
  moreover have "0 \<le> hour12 (tm_hour t)" "hour12 (tm_hour t) < 100"
    using assms by (auto simp: hour12_def)
  ultimately show ?thesis using assms by (simp add: current_time_def two_digits_shape tm_ok_def)
qed

theorem current_time_inj:
  assumes "tm_ok t" "tm_ok u" "current_time t = current_time u"
  shows "t = u"
proof -
  have h: "0 \<le> hour12 (tm_hour v)" "hour12 (tm_hour v) < 100" for v by (auto simp: hour12_def)
  have len: "length (name_at weekdays (tm_wday v)) = 3" "length (name_at months (tm_mon v)) = 3"
    "length (two_digits (tm_mday v)) = 2" "length (two_digits (hour12 (tm_hour v))) = 2"
    "length (two_digits (tm_min v)) = 2" if "tm_ok v" for v
    using that h[of v]
    by (auto intro!: name_at_length simp: weekdays_def months_def tm_ok_def two_digits_shape)
  from assms(3) len[OF assms(1)] len[OF assms(2)]
  have eq: "name_at weekdays (tm_wday t) = name_at weekdays (tm_wday u)" "name_at months (tm_mon t) = name_at months (tm_mon u)"
    "two_digits (tm_mday t) = two_digits (tm_mday u)"
    "two_digits (hour12 (tm_hour t)) = two_digits (hour12 (tm_hour u))"
    "two_digits (tm_min t) = two_digits (tm_min u)" "tm_hour t < 12 \<longleftrightarrow> tm_hour u < 12"
    by (auto simp: current_time_def append_eq_append_conv split: if_splits)
  have "tm_wday t = tm_wday u" "tm_mon t = tm_mon u"
    using assms(1,2) name_at_inj[OF eq(1)] name_at_inj[OF eq(2)]
    by (auto simp: tm_ok_def weekdays_def months_def)
  moreover have "tm_mday t = tm_mday u" "tm_min t = tm_min u"
    using assms(1,2) two_digits_inj[OF eq(3)] two_digits_inj[OF eq(5)] by (auto simp: tm_ok_def)
  moreover have "tm_hour t = tm_hour u"
    using assms(1,2) hour12_inj[OF two_digits_inj[OF eq(4) h h] eq(6)] by (auto simp: tm_ok_def)
  ultimately show ?thesis by simp
qed

section \<open>What holds of loggers\<close>

lemma get_logger_level:
  "loggers_ok ls \<Longrightarrow> lg_level (fst (get_logger ls lv)) = lv"
  by (auto simp: logger_defs loggers_ok_def Let_def split: option.splits)

lemma get_logger_ok: "loggers_ok ls \<Longrightarrow> loggers_ok (fst (snd (get_logger ls lv)))"
  by (auto simp: logger_defs loggers_ok_def Let_def table_simps split: option.splits)

text \<open>
  A logger of level \<open>lv\<close> emits a message exactly when the message's level is at least
  \<open>lv\<close> or the message is a warning: a logger configured for errors only still emits
  warnings.
\<close>

theorem logged_iff:
  "loggers_ok ls \<Longrightarrow>
    (logger_log (fst (get_logger ls lv)) now tid msg m \<noteq> []) = (lv \<le> m \<or> m = Warn)"
  using get_logger_level[of ls lv]
  by (cases m; cases lv) (auto simp: logger_log_def less_eq_log_level_def)

text \<open>
  \<^verbatim>\<open>get_logger\<close> returns one logger per level: asking again, after any other level has
  been asked for, gives the same logger, leaves the table as it is and opens no log.
\<close>

theorem get_logger_stable:
  assumes "get_logger ls lv = (lg, ls1, calls1)" "get_logger ls1 lv2 = (lg2, ls2, calls2)"
  shows "get_logger ls2 lv = (lg, ls2, [])"
  using assms
  by (auto simp: logger_defs Let_def table_simps split: option.splits if_splits)

section \<open>Instances\<close>

lemma logged_iff_witness:
  "loggers_ok [] \<and> logger_log (fst (get_logger [] Error)) now 7 ''m'' Warn \<noteq> [] \<and> \<not> Error \<le> Warn"
  using logged_iff[of "[]" Error now 7 "''m''" Warn] by (simp add: loggers_ok_def less_eq_log_level_def)

text \<open>The example of the comment of \<^verbatim>\<open>current_time\<close>, which has brackets the function does not write.\<close>

lemma current_time_example:
  "current_time \<lparr>tm_min = 55, tm_hour = 14, tm_mday = 20, tm_mon = 7, tm_wday = 4\<rparr> = ''Thu Aug 20 02:55 PM''"
  by (simp add: current_time_def name_at_def weekdays_def months_def two_digits_shape hour12_def digit_chars)

end
