(* ===== verification/Config.thy ===== *)
theory Config
  imports Hashring Logger
begin

text \<open>
  The configuration: \<^verbatim>\<open>src/configs/config.cc\<close>, \<^verbatim>\<open>aggregator_config.cc\<close> and
  \<^verbatim>\<open>proxy_config.cc\<close> with their headers. The JSON library stays a parameter, the record of the
  reading functions the constructors call; what \<open>to_json\<close> builds is the list of the writes it
  makes to the document.
\<close>

section \<open>Reading a document\<close>

text \<open>
  \<open>json_get v k\<close> is the member that \<^verbatim>\<open>v.get(k, default)\<close> finds, \<open>None\<close> when the default is
  taken; \<open>json_member\<close> is \<^verbatim>\<open>v[k]\<close>; \<open>json_elems\<close> are the elements between \<^verbatim>\<open>begin()\<close> and
  \<^verbatim>\<open>end()\<close>; the conversions may throw.
\<close>

record 'j json_api =
  json_get :: "'j \<Rightarrow> string \<Rightarrow> 'j option"
  json_member :: "'j \<Rightarrow> string \<Rightarrow> 'j"
  json_names :: "'j \<Rightarrow> string list result"
  json_elems :: "'j \<Rightarrow> 'j list"
  as_string :: "'j \<Rightarrow> string result"
  as_int :: "'j \<Rightarrow> int result"
  as_bool :: "'j \<Rightarrow> bool result"

definition get_string :: "'j json_api \<Rightarrow> 'j \<Rightarrow> string \<Rightarrow> string \<Rightarrow> string result" where
  "get_string J v k d = (case json_get J v k of None \<Rightarrow> Inr d | Some x \<Rightarrow> as_string J x)"

definition get_int :: "'j json_api \<Rightarrow> 'j \<Rightarrow> string \<Rightarrow> int \<Rightarrow> int result" where
  "get_int J v k d = (case json_get J v k of None \<Rightarrow> Inr d | Some x \<Rightarrow> as_int J x)"

definition get_bool :: "'j json_api \<Rightarrow> 'j \<Rightarrow> string \<Rightarrow> bool \<Rightarrow> bool result" where
  "get_bool J v k d = (case json_get J v k of None \<Rightarrow> Inr d | Some x \<Rightarrow> as_bool J x)"

lemma get_default [simp]:
  "json_get J v k = None \<Longrightarrow> get_string J v k s = Inr s"
  "json_get J v k = None \<Longrightarrow> get_int J v k i = Inr i"
  "json_get J v k = None \<Longrightarrow> get_bool J v k b = Inr b"
  by (simp_all add: get_string_def get_int_def get_bool_def)

section \<open>The common part\<close>

record config =
  tcp_port :: int
  tcp_enabled :: bool
  udp_port :: int
  udp_threads :: int
  udp_recv_buffer :: int
  udp_enabled :: bool
  http_port :: int
  http_enabled :: bool
  cfg_workers :: int
  cfg_log_level :: log_level

definition parse_level :: "string \<Rightarrow> log_level" where
  "parse_level level =
     (if level = ''debug'' then Debug
      else if level = ''info'' then Info
      else if level = ''warn'' then Warn
      else if level = ''error'' then Error
      else Warn)"

definition new_config :: "'j json_api \<Rightarrow> 'j \<Rightarrow> config result" where
  "new_config J json =
     (let servers = json_member J json ''servers''; tcp = json_member J servers ''tcp'';
          udp = json_member J servers ''udp''; http = json_member J servers ''http'' in
      bind_result (get_int J tcp ''port'' (- 1)) (\<lambda>tp.
      bind_result (get_int J udp ''port'' (- 1)) (\<lambda>up.
      bind_result (get_int J udp ''threads'' 1) (\<lambda>th.
      bind_result (get_int J udp ''recv_buffer'' 8388608) (\<lambda>rb.
      bind_result (get_int J http ''port'' 8080) (\<lambda>hp.
      bind_result (get_bool J http ''enabled'' True) (\<lambda>he.
      bind_result (get_int J json ''workers'' 1) (\<lambda>ws.
      bind_result (get_string J json ''log_level'' ''warn'') (\<lambda>level. Inr
        \<lparr>tcp_port = tp, tcp_enabled = (tp \<noteq> - 1), udp_port = up, udp_threads = th,
         udp_recv_buffer = rb, udp_enabled = (up \<noteq> - 1), http_port = hp, http_enabled = he,
         cfg_workers = ws, cfg_log_level = parse_level level\<rparr>)))))))))"

section \<open>The aggregator's configuration\<close>

record aggregator_config = config +
  cfg_name :: string
  cfg_prefix :: string
  cfg_prefix_counter :: string
  cfg_prefix_timer :: string
  cfg_prefix_gauge :: string
  cfg_prefix_set :: string
  cfg_frequency :: int
  cfg_percentiles :: "int list"
  cfg_carbon :: "(string, node) umap"
  cfg_repeaters :: "hostport list"
  cfg_stdout :: bool

definition dotted :: "string \<Rightarrow> string" where
  "dotted s = (if s \<noteq> [] then s @ ''.'' else s)"

text \<open>\<open>asInt\<close> over the elements of an array, stopping at the first that throws.\<close>

definition read_percentiles :: "'j json_api \<Rightarrow> 'j \<Rightarrow> int list result" where
  "read_percentiles J ps =
     (if json_elems J ps = [] then Inr [90]
      else fold_result (\<lambda>e acc. bind_result (as_int J e) (\<lambda>p. Inr (acc @ [p]))) (json_elems J ps) [])"

text \<open>One entry of the carbon list; \<open>i\<close> counts the entries.\<close>

definition read_carbon_entry ::
  "'j json_api \<Rightarrow> 'j \<Rightarrow> (string, node) umap \<times> int \<Rightarrow> ((string, node) umap \<times> int) result"
where
  "read_carbon_entry J c = (\<lambda>(carbon, i).
     bind_result (get_string J c ''shard'' (show_int i)) (\<lambda>shard.
     bind_result (get_string J c ''host'' ''127.0.0.1'') (\<lambda>h.
     bind_result (get_int J c ''port'' 3000) (\<lambda>p.
     bind_result (get_int J c ''vnodes'' 1000) (\<lambda>vn.
     bind_result (get_int J c ''weight'' 1) (\<lambda>w. Inr
       (umap_put shard \<lparr>host = h, port = p, vnodes = vn, weight = w\<rparr> carbon, i + 1)))))))"

definition read_carbon :: "'j json_api \<Rightarrow> 'j list \<Rightarrow> (string, node) umap \<Rightarrow> (string, node) umap result" where
  "read_carbon J cs carbon =
     bind_result (fold_result (read_carbon_entry J) cs (carbon, 0)) (\<lambda>(c, _). Inr c)"

definition read_hostport :: "'j json_api \<Rightarrow> int \<Rightarrow> 'j \<Rightarrow> hostport list \<Rightarrow> hostport list result" where
  "read_hostport J dflt r acc =
     bind_result (get_string J r ''host'' ''127.0.0.1'') (\<lambda>h.
     bind_result (get_int J r ''port'' dflt) (\<lambda>p. Inr (acc @ [\<lparr>host = h, port = p\<rparr>])))"

text \<open>One member of \<open>backends\<close>.\<close>

definition read_backend ::
  "'j json_api \<Rightarrow> 'j \<Rightarrow> string \<Rightarrow> aggregator_config \<Rightarrow> aggregator_config result"
where
  "read_backend J backends name c =
     (if name = ''carbon'' then
        bind_result (read_carbon J (json_elems J (json_member J backends ''carbon'')) (cfg_carbon c))
          (\<lambda>cs. Inr (c\<lparr>cfg_carbon := cs\<rparr>))
      else if name = ''repeater'' then
        bind_result (fold_result (read_hostport J 3000) (json_elems J (json_member J backends ''repeater''))
            (cfg_repeaters c))
          (\<lambda>rs. Inr (c\<lparr>cfg_repeaters := rs\<rparr>))
      else if name = ''stdout'' then Inr (c\<lparr>cfg_stdout := True\<rparr>)
      else Inr c)"

definition new_aggregator_config :: "'j json_api \<Rightarrow> 'j \<Rightarrow> aggregator_config result" where
  "new_aggregator_config J json =
     bind_result (new_config J json) (\<lambda>base.
     bind_result (get_string J json ''name'' ''statsdcc'') (\<lambda>nm.
     bind_result (get_string J json ''prefix'' []) (\<lambda>pre.
     bind_result (get_string J json ''prefix_counter'' ''counters'') (\<lambda>pc.
     bind_result (get_string J json ''prefix_timer'' ''timers'') (\<lambda>pt.
     bind_result (get_string J json ''prefix_gauge'' ''gauges'') (\<lambda>pg.
     bind_result (get_string J json ''prefix_set'' ''sets'') (\<lambda>ps.
     bind_result (get_int J json ''frequency'' 10) (\<lambda>f.
     bind_result (read_percentiles J (json_member J json ''percentiles'')) (\<lambda>pcts.
     bind_result (json_names J (json_member J json ''backends'')) (\<lambda>ms.
       fold_result (read_backend J (json_member J json ''backends'')) ms
         (config.extend base
           \<lparr>cfg_name = nm, cfg_prefix = dotted pre, cfg_prefix_counter = dotted pc,
            cfg_prefix_timer = dotted pt, cfg_prefix_gauge = dotted pg, cfg_prefix_set = dotted ps,
            cfg_frequency = f, cfg_percentiles = pcts, cfg_carbon = [], cfg_repeaters = [],
            cfg_stdout = False\<rparr>)))))))))))"

section \<open>The proxy's configuration\<close>

record 'r proxy_config = config +
  px_aggregators :: "hostport list"
  px_stdout :: bool
  px_blacklist :: "'r list"

text \<open>\<open>regex\<close> is the constructor of \<^verbatim>\<open>boost::regex\<close>, which may throw.\<close>

definition read_proxy_backend ::
  "'j json_api \<Rightarrow> 'j \<Rightarrow> string \<Rightarrow> 'r proxy_config \<Rightarrow> 'r proxy_config result"
where
  "read_proxy_backend J backends name c =
     (if name = ''aggregator'' then
        bind_result (fold_result (read_hostport J 8125) (json_elems J (json_member J backends ''aggregator''))
            (px_aggregators c))
          (\<lambda>as. Inr (c\<lparr>px_aggregators := as\<rparr>))
      else if name = ''stdout'' then Inr (c\<lparr>px_stdout := True\<rparr>)
      else Inr c)"

definition new_proxy_config :: "'j json_api \<Rightarrow> (string \<Rightarrow> 'r result) \<Rightarrow> 'j \<Rightarrow> 'r proxy_config result" where
  "new_proxy_config J regex json =
     bind_result (new_config J json) (\<lambda>base.
     bind_result (json_names J (json_member J json ''backends'')) (\<lambda>ms.
     bind_result (fold_result (read_proxy_backend J (json_member J json ''backends'')) ms
         (config.extend base \<lparr>px_aggregators = [], px_stdout = False, px_blacklist = []\<rparr>)) (\<lambda>c.
     bind_result (fold_result
         (\<lambda>e acc. bind_result (as_string J e) (\<lambda>s. bind_result (regex s) (\<lambda>r. Inr (acc @ [r]))))
         (json_elems J (json_member J json ''blacklist'')) []) (\<lambda>bl.
       Inr (c\<lparr>px_blacklist := bl\<rparr>)))))"

section \<open>Writing a document\<close>

text \<open>
  \<^verbatim>\<open>root[k1][k2] = v\<close> and \<^verbatim>\<open>root[k1][k2].append(v)\<close>, in the order the code makes them.
\<close>

datatype jvalue = JString string | JInt int | JBool bool | JObject "(string \<times> jvalue) list"

datatype jwrite = Assign "string list" jvalue | Append "string list" jvalue

definition level_writes :: "log_level \<Rightarrow> jwrite list" where
  "level_writes level =
     (if level = Debug then [Assign [''log_level''] (JString ''debug'')]
      else if level = Info then [Assign [''log_level''] (JString ''info'')]
      else if level = Info then [Assign [''log_level''] (JString ''warn'')]
      else if level = Error then [Assign [''log_level''] (JString ''error'')]
      else [])"

definition config_to_json :: "'a config_scheme \<Rightarrow> jwrite list" where
  "config_to_json c =
     (if tcp_enabled c then [Assign [''servers'', ''tcp'', ''port''] (JInt (tcp_port c))] else [])
     @ (if udp_enabled c then
          [Assign [''servers'', ''udp'', ''port''] (JInt (udp_port c)),
           Assign [''servers'', ''udp'', ''threads''] (JInt (udp_threads c))] else [])
     @ (if http_enabled c then [Assign [''servers'', ''http'', ''port''] (JInt (http_port c))] else [])
     @ level_writes (cfg_log_level c)"

definition carbon_object :: "string \<times> node \<Rightarrow> jvalue" where
  "carbon_object sn = JObject [(''shard'', JString (fst sn)), (''host'', JString (host (snd sn))),
     (''port'', JInt (port (snd sn))), (''vnodes'', JInt (vnodes (snd sn))), (''weight'', JInt (weight (snd sn)))]"

definition hostport_object :: "hostport \<Rightarrow> jvalue" where
  "hostport_object hp = JObject [(''host'', JString (host hp)), (''port'', JInt (port hp))]"

definition aggregator_to_json :: "aggregator_config \<Rightarrow> jwrite list" where
  "aggregator_to_json c =
     config_to_json c
     @ [Assign [''name''] (JString (cfg_name c)), Assign [''workers''] (JInt (cfg_workers c)),
        Assign [''frequency''] (JInt (cfg_frequency c))]
     @ map (\<lambda>p. Append [''percentiles''] (JInt p)) (cfg_percentiles c)
     @ [Assign [''backends'', ''stdout''] (JBool (cfg_stdout c))]
     @ map (\<lambda>sn. Append [''backends'', ''carbon''] (carbon_object sn)) (cfg_carbon c)
     @ map (\<lambda>hp. Append [''backends'', ''repeater''] (hostport_object hp)) (cfg_repeaters c)"

definition proxy_to_json :: "'r proxy_config \<Rightarrow> jwrite list" where
  "proxy_to_json c =
     config_to_json c
     @ [Assign [''backends'', ''stdout''] (JBool (px_stdout c))]
     @ map (\<lambda>hp. Assign [''backends'', ''aggregator''] (hostport_object hp)) (px_aggregators c)"

text \<open>
  What a path of the document holds after the writes: the elements of an array, or the one
  value that was assigned.
\<close>

definition apply_write :: "jwrite \<Rightarrow> (string list \<Rightarrow> jvalue list) \<Rightarrow> string list \<Rightarrow> jvalue list" where
  "apply_write w m = (case w of Assign p v \<Rightarrow> m(p := [v]) | Append p v \<Rightarrow> m(p := m p @ [v]))"

definition document :: "jwrite list \<Rightarrow> string list \<Rightarrow> jvalue list" where
  "document ws = fold apply_write ws (\<lambda>_. [])"

fun write_path :: "jwrite \<Rightarrow> string list" where
  "write_path (Assign p v) = p"
| "write_path (Append p v) = p"

lemma apply_write_other: "write_path w \<noteq> p \<Longrightarrow> apply_write w m p = m p"
  by (cases w) (auto simp: apply_write_def)

lemma fold_write_other: "p \<notin> write_path ` set ws \<Longrightarrow> fold apply_write ws m p = m p"
  by (induction ws arbitrary: m) (auto simp: apply_write_other)

lemma fold_append:
  "fold apply_write (map (\<lambda>x. Append q (f x)) xs) m p = (if p = q then m p @ map f xs else m p)"
  by (induction xs arbitrary: m) (auto simp: apply_write_def)

lemma fold_assign:
  "fold apply_write (map (\<lambda>x. Assign p (f x)) xs) m p = (if xs = [] then m p else [f (last xs)])"
  by (induction xs arbitrary: m) (auto simp: apply_write_def)

lemma document_append: "document (ws @ vs) p = fold apply_write vs (document ws) p"
  by (simp add: document_def)

lemma config_paths:
  "write_path ` set (config_to_json c) \<subseteq>
     {[''servers'', ''tcp'', ''port''], [''servers'', ''udp'', ''port''], [''servers'', ''udp'', ''threads''],
      [''servers'', ''http'', ''port''], [''log_level'']}"
  by (auto simp: config_to_json_def level_writes_def split: if_splits)

lemma document_config_other:
  "hd p \<notin> {''servers'', ''log_level''} \<Longrightarrow> document (config_to_json c) p = []"
proof -
  assume h: "hd p \<notin> {''servers'', ''log_level''}"
  have "p \<notin> write_path ` set (config_to_json c)"
  proof
    assume "p \<in> write_path ` set (config_to_json c)"
    with config_paths[of c] have "p \<in> {[''servers'', ''tcp'', ''port''], [''servers'', ''udp'', ''port''],
      [''servers'', ''udp'', ''threads''], [''servers'', ''http'', ''port''], [''log_level'']}" by (rule subsetD)
    with h show False by auto
  qed
  from fold_write_other[OF this] show ?thesis by (simp add: document_def)
qed

section \<open>Properties\<close>

text \<open>
  A document without any of the settings gives the documented defaults: one worker, level
  \<open>warn\<close>, the status server on port 8080 and neither metric server, a flush every 10 seconds,
  the 90th percentile, the name \<open>statsdcc\<close>, dotted type prefixes and no backend.
\<close>

theorem empty_document_defaults:
  assumes "\<And>v k. json_get J v k = None" "\<And>v. json_elems J v = []" "\<And>v. json_names J v = Inr []"
  shows "\<exists>c. new_aggregator_config J json = Inr c
    \<and> config.truncate c = \<lparr>tcp_port = - 1, tcp_enabled = False, udp_port = - 1, udp_threads = 1,
        udp_recv_buffer = 8388608, udp_enabled = False, http_port = 8080, http_enabled = True,
        cfg_workers = 1, cfg_log_level = Warn\<rparr>
    \<and> cfg_name c = ''statsdcc'' \<and> cfg_frequency c = 10 \<and> cfg_percentiles c = [90]
    \<and> cfg_prefix c = [] \<and> cfg_prefix_counter c = ''counters.'' \<and> cfg_prefix_timer c = ''timers.''
    \<and> cfg_prefix_gauge c = ''gauges.'' \<and> cfg_prefix_set c = ''sets.''
    \<and> cfg_carbon c = [] \<and> cfg_repeaters c = [] \<and> \<not> cfg_stdout c"
  by (simp add: new_aggregator_config_def new_config_def Let_def assms read_percentiles_def
      config.defs parse_level_def dotted_def)

definition null_api :: "unit json_api" where
  "null_api = \<lparr>json_get = (\<lambda>_ _. None), json_member = (\<lambda>_ _. ()), json_names = (\<lambda>_. Inr []),
     json_elems = (\<lambda>_. []), as_string = (\<lambda>_. Inr []), as_int = (\<lambda>_. Inr 0), as_bool = (\<lambda>_. Inr False)\<rparr>"

theorem empty_document_defaults_witness:
  "\<exists>c. new_aggregator_config null_api () = Inr c \<and> cfg_percentiles c = [90] \<and> cfg_frequency c = 10"
  using empty_document_defaults[of null_api "()"] by (auto simp: null_api_def)

lemma show_int_inj: "0 \<le> i \<Longrightarrow> 0 \<le> j \<Longrightarrow> show_int i = show_int j \<Longrightarrow> i = j"
  by (simp add: show_int_def nat_digits_inj)

text \<open>What a carbon entry says when its fields convert.\<close>

definition reads_as :: "'j json_api \<Rightarrow> 'j \<Rightarrow> node \<Rightarrow> bool" where
  "reads_as J c n =
     (get_string J c ''host'' ''127.0.0.1'' = Inr (host n) \<and> get_int J c ''port'' 3000 = Inr (port n)
      \<and> get_int J c ''vnodes'' 1000 = Inr (vnodes n) \<and> get_int J c ''weight'' 1 = Inr (weight n))"

lemma read_carbon_entry_ok:
  assumes "reads_as J c n" "get_string J c ''shard'' (show_int i) = Inr shard"
  shows "read_carbon_entry J c (m, i) = Inr (umap_put shard n m, i + 1)"
  using assms by (cases n) (simp add: read_carbon_entry_def reads_as_def)

lemma read_carbon_numbered:
  assumes "\<forall>c \<in> set cs. json_get J c ''shard'' = None \<and> reads_as J c (nd c)" "0 \<le> i"
  shows "\<exists>m'. fold_result (read_carbon_entry J) cs (m, i) = Inr (m', i + int (length cs))
    \<and> (\<forall>j < length cs. map_of m' (show_int (i + int j)) = Some (nd (cs ! j)))
    \<and> (\<forall>k. (\<forall>j \<ge> i. k \<noteq> show_int j) \<longrightarrow> map_of m' k = map_of m k)"
  using assms
proof (induction cs arbitrary: m i)
  case Nil
  then show ?case by simp
next
  case (Cons c cs)
  let ?m = "umap_put (show_int i) (nd c) m"
  have step: "read_carbon_entry J c (m, i) = Inr (?m, i + 1)"
    by (rule read_carbon_entry_ok) (use Cons.prems in simp_all)
  have "\<forall>c \<in> set cs. json_get J c ''shard'' = None \<and> reads_as J c (nd c)" "0 \<le> i + 1"
    using Cons.prems by simp_all
  from Cons.IH[OF this, of ?m] obtain m' where
    m': "fold_result (read_carbon_entry J) cs (?m, i + 1) = Inr (m', i + 1 + int (length cs))"
      "\<forall>j < length cs. map_of m' (show_int (i + 1 + int j)) = Some (nd (cs ! j))"
      "\<forall>k. (\<forall>j \<ge> i + 1. k \<noteq> show_int j) \<longrightarrow> map_of m' k = map_of ?m k"
    by (elim exE conjE) (rule that; assumption)
  have "show_int i \<noteq> show_int j" if "i + 1 \<le> j" for j
    using show_int_inj[of i j] Cons.prems(2) that by linarith
  then have first: "map_of m' (show_int i) = Some (nd c)"
    using m'(3)[rule_format, of "show_int i"] by (simp add: table_simps)
  have "map_of m' (show_int (i + int j)) = Some (nd ((c # cs) ! j))" if "j < length (c # cs)" for j
    using first m'(2) that by (cases j) (simp_all add: algebra_simps)
  moreover have "map_of m' k = map_of m k" if k: "\<forall>j \<ge> i. k \<noteq> show_int j" for k
  proof -
    from k have "\<forall>j \<ge> i + 1. k \<noteq> show_int j" "k \<noteq> show_int i" by simp_all
    with m'(3) show ?thesis by (simp add: table_simps)
  qed
  moreover have "fold_result (read_carbon_entry J) (c # cs) (m, i) = Inr (m', i + int (length (c # cs)))"
    using m'(1) step by (simp add: algebra_simps)
  ultimately show ?case by blast
qed

text \<open>
  Carbon entries without a \<open>shard\<close> are numbered, so none of them replaces another: the
  node of the \<open>i\<close>-th entry is in the table under the decimal digits of \<open>i\<close>.
\<close>

theorem unnamed_shards_kept:
  assumes "\<forall>c \<in> set cs. json_get J c ''shard'' = None \<and> reads_as J c (nd c)"
  shows "\<exists>m. read_carbon J cs [] = Inr m
    \<and> (\<forall>i < length cs. map_of m (show_int (int i)) = Some (nd (cs ! i)))"
  using read_carbon_numbered[OF assms, of 0 "[]"] by (auto simp: read_carbon_def)

definition plain_node :: node where
  "plain_node = \<lparr>host = ''127.0.0.1'', port = 3000, vnodes = 1000, weight = 1\<rparr>"

theorem unnamed_shards_kept_witness:
  "\<exists>m. read_carbon null_api [(), ()] [] = Inr m \<and> map_of m ''0'' = Some plain_node \<and> map_of m ''1'' = Some plain_node"
proof -
  have "show_int 0 = ''0''" "show_int 1 = ''1''" by code_simp+
  then show ?thesis
    using unnamed_shards_kept[of "[(), ()]" null_api "\<lambda>_. plain_node"]
    by (auto simp: null_api_def reads_as_def plain_node_def All_less_Suc)
qed

text \<open>
  An entry that names its shard with the number of a later entry is silently replaced by
  it: the explicit shard \<open>1\<close> of the first entry and the default of the second collide, and the
  ring gets one node for the two.
\<close>

theorem numbered_shard_collides:
  assumes "json_get J c1 ''shard'' = Some s" "as_string J s = Inr ''1''" "json_get J c2 ''shard'' = None"
    and "reads_as J c1 n1" "reads_as J c2 n2"
  shows "read_carbon J [c1, c2] [] = Inr [(''1'', n2)]"
proof -
  have "show_int 1 = ''1''" by code_simp
  moreover have "get_string J c1 ''shard'' (show_int 0) = Inr ''1''" "get_string J c2 ''shard'' (show_int 1) = Inr (show_int 1)"
    using assms(1-3) by (simp_all add: get_string_def)
  ultimately show ?thesis
    using assms(4,5) by (simp add: read_carbon_def read_carbon_entry_ok umap_put_def)
qed

definition two_entries_api :: "nat json_api" where
  "two_entries_api =
     \<lparr>json_get = (\<lambda>v k. if v = 1 \<and> k = ''shard'' then Some 3 else None), json_member = (\<lambda>v _. v),
      json_names = (\<lambda>_. Inr []), json_elems = (\<lambda>_. []), as_string = (\<lambda>_. Inr ''1''),
      as_int = (\<lambda>_. Inr 0), as_bool = (\<lambda>_. Inr False)\<rparr>"

theorem numbered_shard_collides_witness:
  "read_carbon two_entries_api [1, 2] [] = Inr [(''1'', plain_node)]"
  by (rule numbered_shard_collides[of _ _ 3 _ plain_node])
    (simp_all add: two_entries_api_def reads_as_def get_string_def get_int_def plain_node_def)

text \<open>
  \<open>ProxyConfig::to_json\<close> keeps one aggregator: it assigns every aggregator to the same
  member instead of appending it, so the document holds the last one alone.
\<close>

theorem proxy_json_keeps_last:
  "document (proxy_to_json c) [''backends'', ''aggregator''] =
     (if px_aggregators c = [] then [] else [hostport_object (last (px_aggregators c))])"
proof -
  have "document (config_to_json c @ [Assign [''backends'', ''stdout''] (JBool (px_stdout c))])
      [''backends'', ''aggregator''] = []"
    by (simp add: document_append apply_write_def document_config_other)
  then show ?thesis
    unfolding proxy_to_json_def append_assoc[symmetric] document_append by (simp add: fold_assign)
qed

text \<open>
  \<open>AggregatorConfig::to_json\<close> writes every percentile, carbon node and repeater, in order.
\<close>

theorem aggregator_json_complete:
  "document (aggregator_to_json c) [''percentiles''] = map JInt (cfg_percentiles c)
   \<and> document (aggregator_to_json c) [''backends'', ''carbon''] = map carbon_object (cfg_carbon c)
   \<and> document (aggregator_to_json c) [''backends'', ''repeater''] = map hostport_object (cfg_repeaters c)"
  by (simp add: aggregator_to_json_def document_append fold_append apply_write_def document_config_other)

text \<open>
  The level \<open>warn\<close> is the one level \<open>to_json\<close> never writes: the test for it repeats the
  test for \<open>info\<close>.
\<close>

theorem warn_level_not_written:
  "document (config_to_json c) [''log_level''] = [] \<longleftrightarrow> cfg_log_level c = Warn"
  by (cases "cfg_log_level c")
    (simp_all add: config_to_json_def document_append level_writes_def apply_write_def document_def)

end
