(* ===== verification/Backends.thy ===== *)
theory Backends
  imports Config Ledger_Process Net
begin

text \<open>
  The flush targets: \<^verbatim>\<open>lib/backends/stdout.cc\<close>, \<^verbatim>\<open>repeater.cc\<close>, \<^verbatim>\<open>carbon.cc\<close> with their
  headers and \<^verbatim>\<open>include/statsdcc/backend_container.h\<close>. A flush is the text, the datagrams or the
  per-destination strings the code produces from a ledger; clock readings and the regular
  expression library are parameters.
\<close>

section \<open>Shared pieces\<close>

text \<open>\<^verbatim>\<open>ledger.counter_rates.at(key)\<close> throws for an absent key.\<close>

definition rate_of :: "ledger \<Rightarrow> string \<Rightarrow> double result" where
  "rate_of l key = (case map_of (counter_rates l) key of None \<Rightarrow> Inl Missing_key | Some r \<Rightarrow> Inr r)"

text \<open>The ending \<open>" <seconds>\n"\<close> of a plain text line; \<open>ms\<close> is the clock in milliseconds.\<close>

definition ts_suffix :: "64 word \<Rightarrow> string" where
  "ts_suffix ms = '' '' @ show_int (uint (ms div 1000)) @ [newline]"

definition stat_line :: "string \<Rightarrow> string \<Rightarrow> string \<Rightarrow> string" where
  "stat_line ending key value = key @ '' '' @ value @ ending"

definition thread_prefix :: "string \<Rightarrow> int \<Rightarrow> string" where
  "thread_prefix name flusher = name @ ''.thread_'' @ show_int flusher"

text \<open>The number of flushed metrics, which both text backends count as they go.\<close>

definition num_stats :: "ledger \<Rightarrow> int" where
  "num_stats l = int (length (counters l) + length (timer_data l) + length (gauges l) + length (sets l))"

section \<open>Stdout\<close>

definition stdout_counter :: "string \<Rightarrow> ledger \<Rightarrow> string \<times> double \<Rightarrow> string \<Rightarrow> string result" where
  "stdout_counter ending l kv out =
     bind_result (rate_of l (fst kv)) (\<lambda>r. Inr
       (out @ stat_line ending (fst kv @ ''.rate'') (to_string_ld r)
            @ stat_line ending (fst kv @ ''.count'') (to_string_ld (snd kv))))"

definition stdout_timer :: "string \<Rightarrow> string \<times> (string, double) umap \<Rightarrow> string" where
  "stdout_timer ending kd =
     concat (map (\<lambda>dv. stat_line ending (fst kd @ ''.'' @ fst dv) (to_string_ld (snd dv))) (snd kd))"

definition stdout_gauge :: "string \<Rightarrow> string \<times> double \<Rightarrow> string" where
  "stdout_gauge ending kv = stat_line ending (fst kv) (to_string_ld (snd kv))"

definition stdout_set :: "string \<Rightarrow> string \<times> string list \<Rightarrow> string" where
  "stdout_set ending kv = stat_line ending (fst kv @ ''.count'') (show_int (int (length (snd kv))))"

text \<open>\<open>now\<close>, \<open>start\<close> and \<open>stop\<close> are the three clock readings; the result is what is printed.\<close>

definition stdout_flush ::
  "string \<Rightarrow> 64 word \<Rightarrow> 64 word \<Rightarrow> 64 word \<Rightarrow> ledger \<Rightarrow> int \<Rightarrow> string result"
where
  "stdout_flush name now start stop l flusher =
     (let ending = ts_suffix now; lead = thread_prefix name flusher in
      bind_result (fold_result (stdout_counter ending l) (counters l) []) (\<lambda>out. Inr
        (out @ concat (map (stdout_timer ending) (timer_data l))
             @ concat (map (stdout_gauge ending) (gauges l))
             @ concat (map (stdout_set ending) (sets l))
             @ stat_line ending (lead @ ''.numStats'') (show_int (num_stats l))
             @ stat_line ending (lead @ ''.graphiteStats.calculationtime'') (show_int (uint (stop - start)))
             @ concat (map (\<lambda>kv. stat_line ending (lead @ ''.'' @ fst kv) (show_int (snd kv))) (statsd_metrics l))
             @ [newline])))"

section \<open>Repeater\<close>

text \<open>
  \<^verbatim>\<open>send\<close>: one datagram per destination; the string is shortened by one character before
  every one of them. The result pairs destination indices with payloads.
\<close>

fun repeater_send :: "'d list \<Rightarrow> string \<Rightarrow> ('d \<times> string) list" where
  "repeater_send [] metric = []"
| "repeater_send (d # ds) metric = (d, butlast metric) # repeater_send ds (butlast metric)"

definition repeater_counter ::
  "'d list \<Rightarrow> ledger \<Rightarrow> string \<times> double \<Rightarrow> ('d \<times> string) list \<Rightarrow> ('d \<times> string) list result"
where
  "repeater_counter dests l kv out =
     bind_result (rate_of l (fst kv)) (\<lambda>r. Inr
       (out @ repeater_send dests (fst kv @ ''.rate:'' @ to_string_ld r @ ''|c'' @ [newline] @
          fst kv @ ''.count:'' @ to_string_ld (snd kv) @ ''|c'')))"

definition repeater_timer ::
  "'d list \<Rightarrow> string \<times> (string, double) umap \<Rightarrow> ('d \<times> string) list \<Rightarrow> ('d \<times> string) list result"
where
  "repeater_timer dests kd out =
     (let text = concat (map (\<lambda>dv. fst kd @ ''.'' @ fst dv @ '':'' @ to_string_ld (snd dv) @ ''|ms'') (snd kd))
      in if text = [] then Inl Empty_access
         else Inr (out @ repeater_send dests (butlast text)))"

definition repeater_gauge :: "'d list \<Rightarrow> string \<times> double \<Rightarrow> ('d \<times> string) list" where
  "repeater_gauge dests kv = repeater_send dests (fst kv @ '':'' @ to_string_ld (snd kv) @ ''|g'')"

definition repeater_set :: "'d list \<Rightarrow> string \<times> string list \<Rightarrow> ('d \<times> string) list" where
  "repeater_set dests kv =
     repeater_send dests (fst kv @ ''.count:'' @ show_int (int (length (snd kv))) @ ''|s'')"

definition repeater_flush :: "'d list \<Rightarrow> ledger \<Rightarrow> int \<Rightarrow> ('d \<times> string) list result" where
  "repeater_flush dests l flusher =
     bind_result (fold_result (repeater_counter dests l) (counters l) []) (\<lambda>out.
     bind_result (fold_result (repeater_timer dests) (timer_data l) out) (\<lambda>out. Inr
       (out @ concat (map (repeater_gauge dests) (gauges l)) @ concat (map (repeater_set dests) (sets l)))))"

section \<open>Carbon\<close>

text \<open>\<open>rr\<close> is \<^verbatim>\<open>boost::regex_replace(name, regex, replacement)\<close>.\<close>

definition process_name :: "(string \<Rightarrow> string \<Rightarrow> string \<Rightarrow> string) \<Rightarrow> string \<Rightarrow> string" where
  "process_name rr name =
     rr (rr (rr name [CHR 0x5C, CHR ''s'', CHR ''+''] ''_'') ''/'' ''-'')
       (''[^a-zA-Z_'' @ [CHR 0x5C] @ ''-0-9'' @ [CHR 0x5C] @ ''.]'') []"

text \<open>
  A line for carbon is appended to the string of the node its key hashes to; \<open>get\<close> is the
  ring's lookup.
\<close>

definition carbon_put ::
  "(string \<Rightarrow> node result) \<Rightarrow> string \<Rightarrow> string \<Rightarrow> (hostport, string) umap \<Rightarrow> (hostport, string) umap result"
where
  "carbon_put get key line strings =
     bind_result (get key) (\<lambda>n. Inr (umap_upd [] (\<lambda>s. s @ line) (hostport_of n) strings))"

text \<open>The settings carbon reads.\<close>

record carbon_settings =
  cs_name :: string
  cs_prefix :: string
  cs_counter :: string
  cs_timer :: string
  cs_gauge :: string
  cs_set :: string

definition carbon_counter ::
  "(string \<Rightarrow> node result) \<Rightarrow> (string \<Rightarrow> string) \<Rightarrow> carbon_settings \<Rightarrow> string \<Rightarrow> ledger \<Rightarrow>
    string \<times> double \<Rightarrow> (hostport, string) umap \<Rightarrow> (hostport, string) umap result"
where
  "carbon_counter get clean cs ending l kv strings =
     bind_result (rate_of l (fst kv)) (\<lambda>r.
     bind_result (get (fst kv)) (\<lambda>n.
       let name = cs_prefix cs @ cs_counter cs @ clean (fst kv); dest = hostport_of n in Inr
         (umap_upd [] (\<lambda>s. s @ stat_line ending (name @ ''.count'') (to_string_ld (snd kv))) dest
           (umap_upd [] (\<lambda>s. s @ stat_line ending (name @ ''.rate'') (to_string_ld r)) dest strings))))"

definition carbon_timer ::
  "(string \<Rightarrow> node result) \<Rightarrow> (string \<Rightarrow> string) \<Rightarrow> carbon_settings \<Rightarrow> string \<Rightarrow>
    string \<times> (string, double) umap \<Rightarrow> (hostport, string) umap \<Rightarrow> (hostport, string) umap result"
where
  "carbon_timer get clean cs ending kd strings =
     fold_result (\<lambda>dv. carbon_put get (fst kd)
         (stat_line ending (cs_prefix cs @ cs_timer cs @ clean (fst kd) @ ''.'' @ fst dv) (to_string_ld (snd dv))))
       (snd kd) strings"

definition carbon_gauge ::
  "(string \<Rightarrow> node result) \<Rightarrow> (string \<Rightarrow> string) \<Rightarrow> carbon_settings \<Rightarrow> string \<Rightarrow>
    string \<times> double \<Rightarrow> (hostport, string) umap \<Rightarrow> (hostport, string) umap result"
where
  "carbon_gauge get clean cs ending kv =
     carbon_put get (fst kv)
       (stat_line ending (cs_prefix cs @ cs_gauge cs @ clean (fst kv)) (to_string_ld (snd kv)))"

definition carbon_set ::
  "(string \<Rightarrow> node result) \<Rightarrow> (string \<Rightarrow> string) \<Rightarrow> carbon_settings \<Rightarrow> string \<Rightarrow>
    string \<times> string list \<Rightarrow> (hostport, string) umap \<Rightarrow> (hostport, string) umap result"
where
  "carbon_set get clean cs ending kv =
     carbon_put get (fst kv)
       (stat_line ending (cs_prefix cs @ cs_set cs @ clean (fst kv) @ ''.count'')
         (show_int (int (length (snd kv)))))"

definition carbon_strings ::
  "(string \<Rightarrow> node result) \<Rightarrow> (string \<Rightarrow> string) \<Rightarrow> carbon_settings \<Rightarrow> 64 word \<Rightarrow> 64 word \<Rightarrow> 64 word \<Rightarrow>
    ledger \<Rightarrow> int \<Rightarrow> (hostport, string) umap result"
where
  "carbon_strings get clean cs now start stop l flusher =
     (let ending = ts_suffix now; lead = thread_prefix (cs_name cs) flusher;
          line = (\<lambda>key value. carbon_put get key (stat_line ending key value)) in
      bind_result (fold_result (carbon_counter get clean cs ending l) (counters l) []) (\<lambda>s.
      bind_result (fold_result (carbon_timer get clean cs ending) (timer_data l) s) (\<lambda>s.
      bind_result (fold_result (carbon_gauge get clean cs ending) (gauges l) s) (\<lambda>s.
      bind_result (fold_result (carbon_set get clean cs ending) (sets l) s) (\<lambda>s.
      bind_result (line (lead @ ''.numStats'') (show_int (num_stats l)) s) (\<lambda>s.
      bind_result (line (lead @ ''.carbonStats.calculationtime'') (show_int (uint (stop - start))) s) (\<lambda>s.
        fold_result (\<lambda>kv. line (lead @ ''.'' @ fst kv) (show_int (snd kv))) (statsd_metrics l) s)))))))"

text \<open>
  The whole flush of carbon, with the connections it keeps, and the whole flush of the
  repeater. Carbon's ring is built from the configured shards.
\<close>

definition new_carbon :: "(string \<Rightarrow> 8 word list) \<Rightarrow> aggregator_config \<Rightarrow> hashring result" where
  "new_carbon md4 c = new_hashring md4 (cfg_carbon c)"

definition carbon_flush ::
  "(string \<Rightarrow> node result) \<Rightarrow> (string \<Rightarrow> string) \<Rightarrow> carbon_settings \<Rightarrow> 64 word \<Rightarrow> 64 word \<Rightarrow> 64 word \<Rightarrow>
    ledger \<Rightarrow> int \<Rightarrow> (hostport, connection) umap \<Rightarrow> env \<Rightarrow> (hostport, connection) umap run"
where
  "carbon_flush get clean cs now start stop l flusher conns s =
     (case carbon_strings get clean cs now start stop l flusher of
        Inl e \<Rightarrow> Crash e s
      | Inr strings \<Rightarrow> deliver_all strings conns s)"

definition repeater_flush_stats :: "repeater \<Rightarrow> ledger \<Rightarrow> int \<Rightarrow> env \<Rightarrow> unit run" where
  "repeater_flush_stats r l flusher s =
     (case repeater_flush (rp_dests r) l flusher of
        Inl e \<Rightarrow> Crash e s
      | Inr datagrams \<Rightarrow> send_all (rp_sockfd r) datagrams s)"

section \<open>The container\<close>

datatype backend_kind = Carbon_Backend | Repeater_Backend | Stdout_Backend

definition new_container :: "aggregator_config \<Rightarrow> backend_kind list" where
  "new_container c =
     (if cfg_carbon c \<noteq> [] then [Carbon_Backend] else [])
     @ (if cfg_repeaters c \<noteq> [] then [Repeater_Backend] else [])
     @ (if cfg_stdout c then [Stdout_Backend] else [])"

text \<open>\<open>flush_one\<close> is the virtual \<^verbatim>\<open>flush_stats\<close>; the outputs are collected in order.\<close>

definition container_flush ::
  "(backend_kind \<Rightarrow> ledger \<Rightarrow> int \<Rightarrow> 'o result) \<Rightarrow> backend_kind list \<Rightarrow> ledger \<Rightarrow> int \<Rightarrow> 'o list result"
where
  "container_flush flush_one kinds l flusher =
     fold_result (\<lambda>k out. bind_result (flush_one k l flusher) (\<lambda>x. Inr (out @ [x]))) kinds []"

text \<open>The overload of \<^verbatim>\<open>flush_stats\<close> without a flusher; no part of the program calls it.\<close>

definition flush_stats_default :: "(ledger \<Rightarrow> int \<Rightarrow> 'o result) \<Rightarrow> ledger \<Rightarrow> 'o result" where
  "flush_stats_default flush_stats l = flush_stats l 0"

section \<open>The contract of a backend\<close>

text \<open>
  A ledger a backend can flush: every counter has its rate and every timer its data. A
  backend that is \<open>ready\<close> flushes such a ledger without a fault.
\<close>

definition flushable :: "ledger \<Rightarrow> bool" where
  "flushable l = ((\<forall>kv \<in> set (counters l). map_of (counter_rates l) (fst kv) \<noteq> None)
     \<and> (\<forall>kd \<in> set (timer_data l). snd kd \<noteq> []))"

locale backend =
  fixes ready :: bool and flush :: "ledger \<Rightarrow> int \<Rightarrow> 'o result"
  assumes flush_ok: "ready \<Longrightarrow> flushable l \<Longrightarrow> \<exists>out. flush l i = Inr out"

lemma rate_of_ok: "flushable l \<Longrightarrow> kv \<in> set (counters l) \<Longrightarrow> \<exists>r. rate_of l (fst kv) = Inr r"
  by (auto simp: flushable_def rate_of_def)

lemma fold_result_ok:
  assumes "\<forall>x \<in> set xs. \<forall>u. \<exists>v. f x u = Inr v"
  shows "\<exists>t. fold_result f xs s = Inr t"
  using fold_result_total[of "\<lambda>_. True" s xs f] assms by auto

lemma stdout_flush_ok: "flushable l \<Longrightarrow> \<exists>out. stdout_flush name now start stop l i = Inr out"
proof -
  assume h: "flushable l"
  have "\<forall>kv \<in> set (counters l). \<forall>u. \<exists>v. stdout_counter (ts_suffix now) l kv u = Inr v"
    using rate_of_ok[OF h] by (fastforce simp: stdout_counter_def)
  from fold_result_ok[OF this] obtain out where
    "fold_result (stdout_counter (ts_suffix now) l) (counters l) [] = Inr out" by blast
  then show ?thesis by (simp add: stdout_flush_def Let_def)
qed

lemma repeater_flush_ok: "flushable l \<Longrightarrow> \<exists>out. repeater_flush dests l i = Inr out"
proof -
  assume h: "flushable l"
  have "\<forall>kv \<in> set (counters l). \<forall>u. \<exists>v. repeater_counter dests l kv u = Inr v"
    using rate_of_ok[OF h] by (fastforce simp: repeater_counter_def)
  from fold_result_ok[OF this] obtain out where
    c: "fold_result (repeater_counter dests l) (counters l) [] = Inr out" by blast
  have "\<forall>kd \<in> set (timer_data l). \<forall>u. \<exists>v. repeater_timer dests kd u = Inr v"
  proof (intro ballI allI)
    fix kd u assume "kd \<in> set (timer_data l)"
    with h obtain dv rest where "snd kd = dv # rest" by (cases "snd kd") (auto simp: flushable_def)
    then show "\<exists>v. repeater_timer dests kd u = Inr v" by (simp add: repeater_timer_def Let_def)
  qed
  from fold_result_ok[OF this] obtain out2 where
    "fold_result (repeater_timer dests) (timer_data l) out = Inr out2" by blast
  with c show ?thesis by (simp add: repeater_flush_def)
qed

section \<open>Carbon's strings\<close>

text \<open>The lines of a flush with the key that routes each of them.\<close>

definition carbon_lines ::
  "(string \<Rightarrow> string) \<Rightarrow> carbon_settings \<Rightarrow> 64 word \<Rightarrow> 64 word \<Rightarrow> 64 word \<Rightarrow> ledger \<Rightarrow> int \<Rightarrow> (string \<times> string) list"
where
  "carbon_lines clean cs now start stop l flusher =
     (let ending = ts_suffix now; lead = thread_prefix (cs_name cs) flusher in
      concat (map (\<lambda>kv.
          [(fst kv, stat_line ending (cs_prefix cs @ cs_counter cs @ clean (fst kv) @ ''.rate'')
              (to_string_ld (umap_at zero (counter_rates l) (fst kv)))),
           (fst kv, stat_line ending (cs_prefix cs @ cs_counter cs @ clean (fst kv) @ ''.count'')
              (to_string_ld (snd kv)))]) (counters l))
      @ concat (map (\<lambda>kd. map (\<lambda>dv.
          (fst kd, stat_line ending (cs_prefix cs @ cs_timer cs @ clean (fst kd) @ ''.'' @ fst dv)
              (to_string_ld (snd dv)))) (snd kd)) (timer_data l))
      @ map (\<lambda>kv. (fst kv, stat_line ending (cs_prefix cs @ cs_gauge cs @ clean (fst kv))
          (to_string_ld (snd kv)))) (gauges l)
      @ map (\<lambda>kv. (fst kv, stat_line ending (cs_prefix cs @ cs_set cs @ clean (fst kv) @ ''.count'')
          (show_int (int (length (snd kv)))))) (sets l)
      @ [(lead @ ''.numStats'', stat_line ending (lead @ ''.numStats'') (show_int (num_stats l)))]
      @ [(lead @ ''.carbonStats.calculationtime'',
          stat_line ending (lead @ ''.carbonStats.calculationtime'') (show_int (uint (stop - start))))]
      @ map (\<lambda>kv. (lead @ ''.'' @ fst kv, stat_line ending (lead @ ''.'' @ fst kv)
          (show_int (snd kv)))) (statsd_metrics l))"

definition put_lines ::
  "(string \<Rightarrow> hostport) \<Rightarrow> (string \<times> string) list \<Rightarrow> (hostport, string) umap \<Rightarrow> (hostport, string) umap"
where
  "put_lines dest ls m = fold (\<lambda>kl. umap_upd [] (\<lambda>s. s @ snd kl) (dest (fst kl))) ls m"

lemma put_lines_append: "put_lines dest (xs @ ys) m = put_lines dest ys (put_lines dest xs m)"
  by (simp add: put_lines_def)

lemma put_lines_Cons: "put_lines dest (x # xs) m =
    put_lines dest xs (umap_upd [] (\<lambda>s. s @ snd x) (dest (fst x)) m)"
  by (simp add: put_lines_def)

lemma put_lines_Nil: "put_lines dest [] m = m"
  by (simp add: put_lines_def)

lemmas put_lines_simps = put_lines_append put_lines_Cons put_lines_Nil

lemma map_of_put_lines:
  "map_of (put_lines dest ls []) h =
    (let xs = map snd (filter (\<lambda>kl. dest (fst kl) = h) ls) in entry xs (concat xs))"
proof -
  have acc: "fold (\<lambda>kl s. s @ snd kl) ys acc = acc @ concat (map snd ys)" for ys :: "(string \<times> string) list" and acc
    by (induction ys arbitrary: acc) auto
  show ?thesis
    using map_of_fold_upd[of "\<lambda>_. True" "[]" "\<lambda>kl s. s @ snd kl" "\<lambda>kl. dest (fst kl)" ls "[]" h]
    by (simp add: put_lines_def acc entry_def umap_at_def Let_def)
qed

text \<open>A loop over a table whose body puts lines puts all of them.\<close>

lemma fold_result_put_lines:
  assumes "\<And>x m. x \<in> set xs \<Longrightarrow> f x m = Inr (put_lines dest (lines x) m)"
  shows "fold_result f xs m = Inr (put_lines dest (concat (map lines xs)) m)"
  using assms by (induction xs arbitrary: m) (simp_all add: put_lines_simps)

lemma carbon_put_line:
  "get key = Inr n \<Longrightarrow> hostport_of n = dest key \<Longrightarrow> carbon_put get key line m = Inr (put_lines dest [(key, line)] m)"
  by (simp add: carbon_put_def put_lines_simps)

lemma carbon_counter_lines:
  assumes "\<And>k. \<exists>n. get k = Inr n \<and> hostport_of n = dest k" "rate_of l (fst kv) = Inr r"
  shows "carbon_counter get clean cs ending l kv m = Inr (put_lines dest
    [(fst kv, stat_line ending (cs_prefix cs @ cs_counter cs @ clean (fst kv) @ ''.rate'') (to_string_ld r)),
     (fst kv, stat_line ending (cs_prefix cs @ cs_counter cs @ clean (fst kv) @ ''.count'') (to_string_ld (snd kv)))] m)"
  using assms(1)[of "fst kv"] assms(2) by (auto simp: carbon_counter_def Let_def put_lines_simps)

lemma carbon_timer_lines:
  assumes "\<And>k. \<exists>n. get k = Inr n \<and> hostport_of n = dest k"
  shows "carbon_timer get clean cs ending kd m = Inr (put_lines dest (map (\<lambda>dv.
    (fst kd, stat_line ending (cs_prefix cs @ cs_timer cs @ clean (fst kd) @ ''.'' @ fst dv) (to_string_ld (snd dv))))
      (snd kd)) m)"
proof -
  obtain n where n: "get (fst kd) = Inr n" "hostport_of n = dest (fst kd)" using assms by blast
  have "concat (map (\<lambda>x. [g x]) xs) = map g xs" for g :: "string \<times> double \<Rightarrow> string \<times> string" and xs
    by (induction xs) auto
  moreover have "carbon_put get (fst kd) line m = Inr (put_lines dest [(fst kd, line)] m)" for line m
    using n by (simp add: carbon_put_def put_lines_simps)
  note fold_result_put_lines[OF this]
  ultimately show ?thesis unfolding carbon_timer_def by simp
qed

lemma carbon_strings_lines:
  assumes get: "\<And>k. \<exists>n. get k = Inr n \<and> hostport_of n = dest k" and "flushable l"
  shows "carbon_strings get clean cs now start stop l i =
    Inr (put_lines dest (carbon_lines clean cs now start stop l i) [])"
proof -
  let ?ending = "ts_suffix now"
  have put: "carbon_put get k line m = Inr (put_lines dest [(k, line)] m)" for k line m
    using get[of k] carbon_put_line by blast
  have single: "concat (map (\<lambda>x. [g x]) xs) = map g xs" for g :: "'z \<Rightarrow> string \<times> string" and xs
    by (induction xs) auto
  have 1: "fold_result (carbon_counter get clean cs ?ending l) (counters l) m = Inr (put_lines dest
      (concat (map (\<lambda>kv. [(fst kv, stat_line ?ending (cs_prefix cs @ cs_counter cs @ clean (fst kv) @ ''.rate'')
           (to_string_ld (umap_at zero (counter_rates l) (fst kv)))),
        (fst kv, stat_line ?ending (cs_prefix cs @ cs_counter cs @ clean (fst kv) @ ''.count'') (to_string_ld (snd kv)))])
       (counters l))) m)" for m
  proof (rule fold_result_put_lines)
    fix kv m assume "kv \<in> set (counters l)"
    with assms(2) have "rate_of l (fst kv) = Inr (umap_at zero (counter_rates l) (fst kv))"
      by (auto simp: flushable_def rate_of_def umap_at_def split: option.split)
    from carbon_counter_lines[OF get this] show "carbon_counter get clean cs ?ending l kv m = Inr (put_lines dest
      [(fst kv, stat_line ?ending (cs_prefix cs @ cs_counter cs @ clean (fst kv) @ ''.rate'')
           (to_string_ld (umap_at zero (counter_rates l) (fst kv)))),
        (fst kv, stat_line ?ending (cs_prefix cs @ cs_counter cs @ clean (fst kv) @ ''.count'') (to_string_ld (snd kv)))] m)" .
  qed
  note 2 = fold_result_put_lines[OF carbon_timer_lines[OF get]]
  have 3: "fold_result (carbon_gauge get clean cs ?ending) (gauges l) m = Inr (put_lines dest (map (\<lambda>kv.
      (fst kv, stat_line ?ending (cs_prefix cs @ cs_gauge cs @ clean (fst kv)) (to_string_ld (snd kv)))) (gauges l)) m)" for m
    unfolding carbon_gauge_def by (subst fold_result_put_lines[OF put]) (simp add: single)
  have 4: "fold_result (carbon_set get clean cs ?ending) (sets l) m = Inr (put_lines dest (map (\<lambda>kv.
      (fst kv, stat_line ?ending (cs_prefix cs @ cs_set cs @ clean (fst kv) @ ''.count'')
        (show_int (int (length (snd kv)))))) (sets l)) m)" for m
    unfolding carbon_set_def by (subst fold_result_put_lines[OF put]) (simp add: single)
  have 5: "fold_result (\<lambda>kv. carbon_put get (p @ ''.'' @ fst kv) (stat_line ?ending (p @ ''.'' @ fst kv) (show_int (snd kv))))
      (statsd_metrics l) m = Inr (put_lines dest (map (\<lambda>kv.
        (p @ ''.'' @ fst kv, stat_line ?ending (p @ ''.'' @ fst kv) (show_int (snd kv)))) (statsd_metrics l)) m)" for p m
    by (subst fold_result_put_lines[OF put]) (simp add: single)
  show ?thesis
    by (simp only: carbon_strings_def Let_def 1 2 3 4 5 put bind_result.simps carbon_lines_def
        put_lines_append[symmetric] append_assoc)
qed

interpretation stdout_backend: backend True "stdout_flush name now start stop" for name now start stop
  by unfold_locales (rule stdout_flush_ok)

interpretation repeater_backend: backend True "repeater_flush dests" for dests
  by unfold_locales (rule repeater_flush_ok)

interpretation carbon_backend: backend "\<forall>k. ok (get k)" "carbon_strings get clean cs now start stop"
  for get clean cs now start stop
proof
  fix l :: ledger and i assume r: "\<forall>k. ok (get k)" and l: "flushable l"
  from r have "\<exists>n. get k = Inr n \<and> hostport_of n = hostport_of (projr (get k))" for k
    using ok_iff by (metis sum.sel(2))
  from carbon_strings_lines[where get = get and dest = "\<lambda>k. hostport_of (projr (get k))", OF this l]
  show "\<exists>out. carbon_strings get clean cs now start stop l i = Inr out"
    by blast
qed

section \<open>What process leaves can be flushed\<close>

lemma timer_data_process_timer:
  "process_timer ps kv l = Inr l' \<Longrightarrow> umap_ok (timer_data l) \<Longrightarrow> umap_ok (timer_data l')"
  by (auto simp: process_timer_def Let_def bind_result_Inr_iff umap_ok_put split: if_splits)

lemma timer_data_process:
  assumes "process start stop freq ps l = Inr l'" "umap_ok (timer_data l)"
  shows "umap_ok (timer_data l')"
proof -
  from assms(1) obtain l1 where
    "fold_result (process_timer ps) (timers l) (process_counters freq l) = Inr l1" "timer_data l' = timer_data l1"
    by (auto simp: process_def bind_result_Inr_iff)
  moreover have "umap_ok (timer_data l1)"
    by (rule fold_result_invariant[OF calculation(1)])
      (use assms(2) timer_data_process_timer in \<open>auto simp: process_counters_tables\<close>)
  ultimately show ?thesis by simp
qed

lemma umap_put_mem: "x \<in> set (umap_put k v m) \<Longrightarrow> x = (k, v) \<or> x \<in> set m"
  unfolding umap_put_def by (induction m) (auto split: if_splits)

lemma umap_put_ne: "umap_put k v m \<noteq> []"
  using dom_umap_put[of k v m] by auto

lemma timer_summary_data: "timer_summary ps key vs tc = Inr data \<Longrightarrow> data \<noteq> []"
  by (auto simp: timer_summary_def Let_def bind_result_Inr_iff umap_put_ne split: if_splits)

lemma processed_timers:
  assumes "fold_result (process_timer ps) kvs l = Inr l'" "\<forall>kd \<in> set (timer_data l). snd kd \<noteq> []"
  shows "counters l' = counters l \<and> counter_rates l' = counter_rates l \<and> (\<forall>kd \<in> set (timer_data l'). snd kd \<noteq> [])"
  by (rule fold_result_invariant[OF assms(1)])
    (use assms(2) in \<open>auto simp: process_timer_def Let_def bind_result_Inr_iff
        dest!: umap_put_mem timer_summary_data split: if_splits\<close>)

text \<open>No condition on the values is needed: where \<open>process\<close> has a result, every entry is complete.\<close>

lemma processed_flushable:
  assumes "umap_ok (counters l)" "timer_data l = []" "process start stop freq ps l = Inr l'"
  shows "flushable (copy_ledger l')"
proof -
  from assms(3) obtain l1 where l1: "fold_result (process_timer ps) (timers l) (process_counters freq l) = Inr l1"
    "l' = l1\<lparr>statsd_metrics := umap_put ''processing_time'' (sint (stop - start)) (statsd_metrics l1)\<rparr>"
    by (auto simp: process_def bind_result_Inr_iff)
  from processed_timers[OF l1(1)] have t: "counters l' = counters l"
    "counter_rates l' = counter_rates (process_counters freq l)" "\<forall>kd \<in> set (timer_data l'). snd kd \<noteq> []"
    using assms(2) by (simp_all add: l1(2) process_counters_tables)
  have "map_of (counter_rates l') (fst kv) \<noteq> None" if "kv \<in> set (counters l')" for kv
  proof -
    from that assms(1) have "map_of (counters l) (fst kv) = Some (snd kv)" by (simp add: t(1) umap_ok_mem[symmetric])
    with counter_rates_process_counters[OF assms(1), of freq "fst kv"] show ?thesis by (simp add: t(2))
  qed
  with t(3) show ?thesis by (simp add: flushable_def copy_ledger_def)
qed

lemma counters_history_ok: "umap_ok (counters (buffer_all lexcast name lines new_ledger))"
  using ledger_ok_buffer_all[OF ledger_ok_new, of lexcast name lines] by (simp add: ledger_ok_def tables_ok_def)

lemma timer_data_buffer: "timer_data (buffer lexcast name m l) = timer_data l"
  by (simp add: step_simps split: parsed.split metric_type.split)

lemma timer_data_history: "timer_data (buffer_all lexcast name lines new_ledger) = []"
  by (induction lines rule: rev_induct) (simp_all add: timer_data_buffer)

context backend begin

lemma flush_history:
  assumes "ready" "timers_clean lexcast lines"
    and "int (length lines) \<le> int_max" "\<forall>p \<in> set ps. pct_ok p"
  shows "\<exists>l out. process start stop freq ps (buffer_all lexcast name lines new_ledger) = Inr l
    \<and> flush (copy_ledger l) i = Inr out"
proof -
  have p: "processable ps (buffer_all lexcast name lines new_ledger)"
    by (rule history_processable) (use assms in auto)
  from process_ok[OF p] obtain l where
    l: "process start stop freq ps (buffer_all lexcast name lines new_ledger) = Inr l" by blast
  from flush_ok[OF assms(1) processed_flushable[OF counters_history_ok timer_data_history l]] l show ?thesis by blast
qed

end

section \<open>The repeater's lines at the receiver\<close>

text \<open>A line whose only bar is its last character has no type.\<close>

lemma trailing_bar_bad:
  assumes "CHR ''|'' \<notin> set p" "NUL \<notin> set p"
  shows "parse_metric lexcast (p @ ''|'') = Bad" "parse_metric lexcast p = Bad"
proof -
  have "type_buffer (scan_metric s) = []" if s: "s = p @ ''|'' \<or> s = p" for s
  proof (rule ccontr)
    assume "type_buffer (scan_metric s) \<noteq> []"
    then obtain n r1 v r2 r3 t r4 where
      "scan_until 1496 CHR '':'' s = Some (n, r1)" "scan_lit CHR '':'' r1 = Some r2"
      "scan_until 1496 CHR ''|'' r2 = Some (v, r3)" "scan_lit CHR ''|'' r3 = Some r4"
      "scan_until 2 CHR ''|'' r4 = Some t"
      by (auto simp: scan_metric_def split: option.splits Option.bind_splits)
    moreover obtain t1 t2 where "t = (t1, t2)" by fastforce
    ultimately have "s = (n @ CHR '':'' # v) @ CHR ''|'' # t1 @ t2" "t1 \<noteq> []" "CHR ''|'' \<notin> set t1"
      by (auto dest!: scan_until_Some simp: scan_lit_Some)
    moreover obtain t' c where "t1 @ t2 = t' @ [c]" using calculation(2) by (cases "t1 @ t2" rule: rev_cases) auto
    ultimately show False using s assms(1)
      by (metis append_assoc append_Cons append_is_Nil_conv butlast_append butlast_snoc in_set_conv_decomp list.simps(3) append_Nil)
  qed
  moreover have "c_str (p @ ''|'') = p @ ''|''" "c_str p = p"
    by (rule c_str_id; use assms(2) in simp)+
  ultimately show "parse_metric lexcast (p @ ''|'') = Bad" "parse_metric lexcast p = Bad"
    by (simp_all add: parse_metric_def Let_def trim_leading_def classify_def)
qed

text \<open>The text of a value has digits, a sign, a point or letters, and no bar.\<close>

lemma nat_digits_char: "0 \<le> n \<Longrightarrow> c \<in> set (nat_digits n) \<Longrightarrow> \<exists>d. digit_value c = Some d"
  using nat_digits_chars digit_value_digit_char by metis

lemma plain_digits: "0 \<le> n \<Longrightarrow> CHR ''|'' \<notin> set (nat_digits n) \<and> NUL \<notin> set (nat_digits n)"
  using nat_digits_char[of n "CHR ''|''"] nat_digits_char[of n NUL]
  by (auto simp: digit_value_def)

lemma plain_value: "CHR ''|'' \<notin> set (to_string_ld x) \<and> NUL \<notin> set (to_string_ld x)"
proof -
  have "0 \<le> round_half_even (\<bar>dval x\<bar> * 10 ^ 6)"
    using round_half_even_mono[of 0 "\<bar>dval x\<bar> * 10 ^ 6"] round_half_even_of_int[of 0] by simp
  then have "0 \<le> round_half_even (\<bar>dval x\<bar> * 10 ^ 6) div 10 ^ 6" "0 \<le> round_half_even (\<bar>dval x\<bar> * 10 ^ 6) mod 10 ^ 6"
    by simp_all
  note plain_digits[OF this(1)] plain_digits[OF this(2)]
  then show ?thesis by (auto simp: to_string_ld_def pad_left_def Let_def)
qed

lemma plain_show_int: "CHR ''|'' \<notin> set (show_int i) \<and> NUL \<notin> set (show_int i)"
  using plain_digits[of i] plain_digits[of "- i"] by (auto simp: show_int_def)

lemma bad_tail_bad:
  assumes "CHR ''|'' \<notin> set (butlast s)" "NUL \<notin> set s"
  shows "parse_metric lexcast s = Bad"
proof (cases s rule: rev_cases)
  case Nil
  then show ?thesis using trailing_bar_bad(2)[of "[]"] by simp
next
  case (snoc p c)
  show ?thesis
  proof (cases "c = CHR ''|''")
    case True
    with assms snoc show ?thesis using trailing_bar_bad(1)[of p] by simp
  next
    case False
    with assms snoc show ?thesis using trailing_bar_bad(2)[of "p @ [c]"] by simp
  qed
qed

lemma set_butlast: "c \<in> set (butlast s) \<Longrightarrow> c \<in> set s"
  by (rule in_set_butlastD)

lemma repeater_send_bad:
  assumes "CHR ''|'' \<notin> set (butlast (butlast m))" "NUL \<notin> set m" "(d, p) \<in> set (repeater_send dests m)"
  shows "parse_metric lexcast p = Bad"
  using assms
proof (induction dests arbitrary: m)
  case (Cons e dests)
  have "CHR ''|'' \<notin> set (butlast (butlast (butlast m)))" "NUL \<notin> set (butlast m)"
    using Cons.prems(1,2) by (auto dest: set_butlast)
  with Cons show ?case by (auto intro: bad_tail_bad)
qed simp

section \<open>Properties\<close>


abbreviation the_node :: node where
  "the_node \<equiv> \<lparr>host = ''127.0.0.1'', port = 2003, vnodes = 1, weight = 1\<rparr>"

abbreviation no_prefix :: carbon_settings where
  "no_prefix \<equiv> \<lparr>cs_name = ''st'', cs_prefix = [], cs_counter = [], cs_timer = [], cs_gauge = [], cs_set = []\<rparr>"


text \<open>
  C17. Carbon's flush sends every line to the node that owns the metric's unprocessed key, and
  to no other: the string of a destination is the concatenation, in the order of the tables,
  of the lines whose key the ring places there.
\<close>

theorem carbon_strings_by_owner:
  assumes "\<forall>k. get k = Inr (owner k)" "flushable l"
  shows "\<exists>strings. carbon_strings get clean cs now t0 t1 l i = Inr strings
    \<and> (\<forall>h. map_of strings h =
        (let xs = map snd (filter (\<lambda>kl. hostport_of (owner (fst kl)) = h) (carbon_lines clean cs now t0 t1 l i))
         in entry xs (concat xs)))"
proof -
  have "\<exists>n. get k = Inr n \<and> hostport_of n = hostport_of (owner k)" for k
    using assms(1) by simp
  from carbon_strings_lines[where get = get and dest = "\<lambda>k. hostport_of (owner k)", OF this assms(2)]
  have "carbon_strings get clean cs now t0 t1 l i =
    Inr (put_lines (\<lambda>k. hostport_of (owner k)) (carbon_lines clean cs now t0 t1 l i) [])" .
  moreover note map_of_put_lines[of "\<lambda>k. hostport_of (owner k)" "carbon_lines clean cs now t0 t1 l i"]
  ultimately show ?thesis by (intro exI conjI allI) assumption+
qed

theorem carbon_strings_by_owner_witness:
  "\<exists>strings. carbon_strings (\<lambda>_. Inr the_node) (\<lambda>k. k) no_prefix 1000 0 1 new_ledger 1 = Inr strings
    \<and> map_of strings (hostport_of the_node) =
      (let xs = map snd (carbon_lines (\<lambda>k. k) no_prefix 1000 0 1 new_ledger 1) in entry xs (concat xs))"
proof -
  have "flushable new_ledger" by (simp add: flushable_def)
  from carbon_strings_by_owner[of "\<lambda>_. Inr the_node" "\<lambda>_. the_node", OF allI[OF refl] this, of "\<lambda>k. k" no_prefix 1000 0 1 1]
  obtain strings where s: "carbon_strings (\<lambda>_. Inr the_node) (\<lambda>k. k) no_prefix 1000 0 1 new_ledger 1 = Inr strings" and
    m: "\<forall>h. map_of strings h = (let xs = map snd (filter (\<lambda>kl. hostport_of the_node = h)
        (carbon_lines (\<lambda>k. k) no_prefix 1000 0 1 new_ledger 1)) in entry xs (concat xs))"
    by (elim exE conjE) (rule that; assumption)
  have "filter (\<lambda>kl. True) xs = xs" for xs :: "(string \<times> string) list" by simp
  with s m[rule_format, of "hostport_of the_node"] show ?thesis
    by (intro exI[of _ strings]) (simp only: simp_thms)
qed

text \<open>
  What the repeater sends for a gauge or a set, another aggregator counts as a bad line:
  \<^verbatim>\<open>send\<close> cuts the last character, the type, before the first destination, and one more for
  every further destination.
\<close>

theorem repeated_gauges_are_bad:
  assumes "CHR ''|'' \<notin> set k" "NUL \<notin> set k"
    and "(d, p) \<in> set (repeater_gauge dests (k, v)) \<union> set (repeater_set dests (k, vs))"
  shows "parse_metric lexcast p = Bad"
proof -
  let ?g = "k @ '':'' @ to_string_ld v @ ''|g''" and ?s = "k @ ''.count:'' @ show_int (int (length vs)) @ ''|s''"
  have cut: "butlast (butlast (x @ [a, b])) = x" for x :: string and a b
    by (simp add: butlast_append)
  have "butlast (butlast ((k @ '':'' @ to_string_ld v) @ [CHR ''|'', CHR ''g''])) = k @ '':'' @ to_string_ld v"
    "butlast (butlast ((k @ ''.count:'' @ show_int (int (length vs))) @ [CHR ''|'', CHR ''s''])) =
      k @ ''.count:'' @ show_int (int (length vs))"
    by (rule cut)+
  then have "CHR ''|'' \<notin> set (butlast (butlast ?g))" "CHR ''|'' \<notin> set (butlast (butlast ?s))"
    using assms(1) plain_value[of v] plain_show_int[of "int (length vs)"] by simp_all
  moreover have "NUL \<notin> set ?g" "NUL \<notin> set ?s"
    using assms(2) plain_value[of v] plain_show_int[of "int (length vs)"] by simp_all
  ultimately show ?thesis
    using assms(3) repeater_send_bad by (fastforce simp: repeater_gauge_def repeater_set_def)
qed

theorem repeated_gauges_are_bad_witness:
  "parse_metric sample_lex (snd (hd (repeater_gauge [1::nat] (''g'', Fin 5)))) = Bad"
  by (rule repeated_gauges_are_bad[of "''g''" 1 _ "[1]" "Fin 5" "[]"]) (simp_all add: repeater_gauge_def)

end
