(* ===== verification/Flushing.thy ===== *)
theory Flushing
  imports Backends Worker
begin

text \<open>
  The threads that flush: a worker hands every interval to a thread of its own, which it keeps
  in the \<^verbatim>\<open>flusher_guard\<close> of \<^verbatim>\<open>src/workers/aggregator/worker.cc\<close> (\<^verbatim>\<open>include/statsdcc/thread_guard.h\<close>),
  and all of them call \<^verbatim>\<open>flush\<close> of the one container, under its mutex
  (\<^verbatim>\<open>include/statsdcc/backend_container.h\<close>). The steps of the workers and of their flushers
  interleave; which thread a free mutex goes to is left open, as it is in C++.
\<close>

section \<open>State and steps\<close>

text \<open>A flusher waits for the mutex, holds it with some backends done, or has returned.\<close>

datatype flush_stage = Blocked | Holding nat | Returned

text \<open>
  The flushers are numbered as they are started: \<open>fl_calls\<close> are the arguments of \<^verbatim>\<open>flush\<close>,
  \<open>fl_log\<close> the calls of \<^verbatim>\<open>flush_stats\<close> made. \<open>fl_guard\<close> is what \<^verbatim>\<open>flusher_guard\<close> of a worker
  points to, \<open>fl_joining\<close> the flusher its destructor waits for, \<open>fl_left\<close> the workers whose
  loop has ended. Workers are known by their \<^verbatim>\<open>id\<close>.
\<close>

record 'b flushers =
  fl_calls :: "(ledger \<times> int) list"
  fl_stage :: "flush_stage list"
  fl_lock :: "nat option"
  fl_log :: "(nat \<times> 'b) list"
  fl_guard :: "int \<Rightarrow> nat option"
  fl_joining :: "int \<Rightarrow> nat option"
  fl_left :: "int \<Rightarrow> bool"

definition no_flushers :: "'b flushers" where
  "no_flushers = \<lparr>fl_calls = [], fl_stage = [], fl_lock = None, fl_log = [], fl_guard = (\<lambda>_. None),
     fl_joining = (\<lambda>_. None), fl_left = (\<lambda>_. False)\<rparr>"

text \<open>
  \<^verbatim>\<open>flusher_guard.reset(new ThreadGuard(std::thread(...)))\<close>: the new thread runs before the old
  guard is destroyed, and that destructor joins the old thread.
\<close>

definition hand_off :: "int \<Rightarrow> ledger \<Rightarrow> 'b flushers \<Rightarrow> 'b flushers" where
  "hand_off i l f = f\<lparr>fl_calls := fl_calls f @ [(copy_ledger l, i)], fl_stage := fl_stage f @ [Blocked],
     fl_joining := (fl_joining f)(i := fl_guard f i),
     fl_guard := (fl_guard f)(i := Some (length (fl_calls f)))\<rparr>"

definition joined :: "int \<Rightarrow> 'b flushers \<Rightarrow> 'b flushers" where
  "joined i f = f\<lparr>fl_joining := (fl_joining f)(i := None)\<rparr>"

text \<open>The end of the worker's function destroys its \<^verbatim>\<open>flusher_guard\<close>.\<close>

definition leave :: "int \<Rightarrow> 'b flushers \<Rightarrow> 'b flushers" where
  "leave i f = f\<lparr>fl_joining := (fl_joining f)(i := fl_guard f i), fl_guard := (fl_guard f)(i := None),
     fl_left := (fl_left f)(i := True)\<rparr>"

definition acquire :: "nat \<Rightarrow> 'b flushers \<Rightarrow> 'b flushers" where
  "acquire t f = f\<lparr>fl_lock := Some t, fl_stage := (fl_stage f)[t := Holding 0]\<rparr>"

definition flush_next :: "'b list \<Rightarrow> nat \<Rightarrow> nat \<Rightarrow> 'b flushers \<Rightarrow> 'b flushers" where
  "flush_next kinds t k f =
     f\<lparr>fl_log := fl_log f @ [(t, kinds ! k)], fl_stage := (fl_stage f)[t := Holding (Suc k)]\<rparr>"

definition release :: "nat \<Rightarrow> 'b flushers \<Rightarrow> 'b flushers" where
  "release t f = f\<lparr>fl_lock := None, fl_stage := (fl_stage f)[t := Returned]\<rparr>"

inductive freach_from :: "'b list \<Rightarrow> 'b flushers \<Rightarrow> 'b flushers \<Rightarrow> bool" for kinds f0 where
  start: "freach_from kinds f0 f0"
| hand_off: "freach_from kinds f0 f \<Longrightarrow> fl_joining f i = None \<Longrightarrow> \<not> fl_left f i \<Longrightarrow> freach_from kinds f0 (hand_off i l f)"
| join: "freach_from kinds f0 f \<Longrightarrow> fl_joining f i = Some t \<Longrightarrow> fl_stage f ! t = Returned \<Longrightarrow> freach_from kinds f0 (joined i f)"
| leave: "freach_from kinds f0 f \<Longrightarrow> fl_joining f i = None \<Longrightarrow> \<not> fl_left f i \<Longrightarrow> freach_from kinds f0 (leave i f)"
| acquire: "freach_from kinds f0 f \<Longrightarrow> t < length (fl_stage f) \<Longrightarrow> fl_stage f ! t = Blocked \<Longrightarrow> fl_lock f = None \<Longrightarrow>
    freach_from kinds f0 (acquire t f)"
| flush: "freach_from kinds f0 f \<Longrightarrow> t < length (fl_stage f) \<Longrightarrow> fl_stage f ! t = Holding k \<Longrightarrow> k < length kinds \<Longrightarrow>
    freach_from kinds f0 (flush_next kinds t k f)"
| release: "freach_from kinds f0 f \<Longrightarrow> t < length (fl_stage f) \<Longrightarrow> fl_stage f ! t = Holding (length kinds) \<Longrightarrow>
    freach_from kinds f0 (release t f)"

abbreviation freach :: "'b list \<Rightarrow> 'b flushers \<Rightarrow> bool" where
  "freach kinds \<equiv> freach_from kinds no_flushers"

lemma freach_from_trans: "freach_from kinds f1 f2 \<Longrightarrow> freach_from kinds f0 f1 \<Longrightarrow> freach_from kinds f0 f2"
  by (induction rule: freach_from.induct) (auto intro: freach_from.intros)

lemmas flusher_steps = no_flushers_def hand_off_def joined_def leave_def acquire_def flush_next_def release_def

section \<open>The mutex\<close>

text \<open>
  The flusher that holds the mutex is the only one at work, and what has been flushed is a
  sequence of whole flushes, then its part.
\<close>

definition returned :: "'b flushers \<Rightarrow> nat set" where
  "returned f = {t. t < length (fl_stage f) \<and> fl_stage f ! t = Returned}"

definition under_way :: "'b list \<Rightarrow> 'b flushers \<Rightarrow> (nat \<times> 'b) list" where
  "under_way kinds f = (case fl_lock f of None \<Rightarrow> []
     | Some t \<Rightarrow> (case fl_stage f ! t of Holding k \<Rightarrow> map (Pair t) (take k kinds) | _ \<Rightarrow> []))"

definition whole :: "'b list \<Rightarrow> nat list \<Rightarrow> (nat \<times> 'b) list" where
  "whole kinds ts = concat (map (\<lambda>t. map (Pair t) kinds) ts)"

fun holds :: "flush_stage \<Rightarrow> bool" where
  "holds (Holding k) = True"
| "holds s = False"

definition mutex_ok :: "'b flushers \<Rightarrow> bool" where
  "mutex_ok f = (length (fl_stage f) = length (fl_calls f)
     \<and> (\<forall>t < length (fl_stage f). holds (fl_stage f ! t) \<longrightarrow> fl_lock f = Some t)
     \<and> (\<forall>t. fl_lock f = Some t \<longrightarrow> t < length (fl_stage f) \<and> holds (fl_stage f ! t)))"

definition log_ok :: "'b list \<Rightarrow> 'b flushers \<Rightarrow> bool" where
  "log_ok kinds f = (\<exists>served. distinct served \<and> set served = returned f
     \<and> fl_log f = whole kinds served @ under_way kinds f)"

lemma mutex_okD:
  assumes "mutex_ok f"
  shows "length (fl_stage f) = length (fl_calls f)"
    and "t < length (fl_stage f) \<Longrightarrow> holds (fl_stage f ! t) \<Longrightarrow> fl_lock f = Some t"
    and "fl_lock f = Some t \<Longrightarrow> t < length (fl_stage f) \<and> holds (fl_stage f ! t)"
  using assms unfolding mutex_ok_def by blast+

lemma mutex_okI:
  assumes "length (fl_stage f) = length (fl_calls f)"
    and "\<And>t. t < length (fl_stage f) \<Longrightarrow> holds (fl_stage f ! t) \<Longrightarrow> fl_lock f = Some t"
    and "\<And>t. fl_lock f = Some t \<Longrightarrow> t < length (fl_stage f) \<and> holds (fl_stage f ! t)"
  shows "mutex_ok f"
  using assms unfolding mutex_ok_def by blast

lemma mutex_ok_same [simp]: "mutex_ok (joined i f) = mutex_ok f" "mutex_ok (leave i f) = mutex_ok f"
  "mutex_ok no_flushers"
  by (simp_all add: mutex_ok_def flusher_steps)

lemma mutex_ok_reach: "freach kinds f \<Longrightarrow> mutex_ok f"
proof (induction rule: freach_from.induct)
  case (hand_off f i l)
  show ?case
  proof (rule mutex_okI)
    fix t assume "t < length (fl_stage (hand_off i l f))" "holds (fl_stage (hand_off i l f) ! t)"
    then show "fl_lock (hand_off i l f) = Some t"
      using mutex_okD(2)[OF hand_off.IH, of t] by (auto simp: hand_off_def nth_append less_Suc_eq)
  next
    fix t assume "fl_lock (hand_off i l f) = Some t"
    then show "t < length (fl_stage (hand_off i l f)) \<and> holds (fl_stage (hand_off i l f) ! t)"
      using mutex_okD(3)[OF hand_off.IH, of t] by (auto simp: hand_off_def nth_append)
  qed (use mutex_okD(1)[OF hand_off.IH] in \<open>simp add: hand_off_def\<close>)
next
  case (acquire f t)
  then have "\<not> holds (fl_stage f ! u)" if "u < length (fl_stage f)" for u
    using mutex_okD(2)[OF acquire.IH that] by auto
  with acquire.hyps mutex_okD(1)[OF acquire.IH] show ?case
    by (intro mutex_okI) (auto simp: acquire_def nth_list_update split: if_splits)
next
  case (flush f t k)
  with mutex_okD(2)[OF flush.IH, of t] have "fl_lock f = Some t" by simp
  then have "\<not> holds (fl_stage f ! u)" if "u < length (fl_stage f)" "u \<noteq> t" for u
    using mutex_okD(2)[OF flush.IH that(1)] that(2) by auto
  with flush.hyps \<open>fl_lock f = Some t\<close> mutex_okD(1)[OF flush.IH] show ?case
    by (intro mutex_okI) (auto simp: flush_next_def nth_list_update split: if_splits)
next
  case (release f t)
  with mutex_okD(2)[OF release.IH, of t] have "fl_lock f = Some t" by simp
  then have "\<not> holds (fl_stage f ! u)" if "u < length (fl_stage f)" "u \<noteq> t" for u
    using mutex_okD(2)[OF release.IH that(1)] that(2) by auto
  with release.hyps mutex_okD(1)[OF release.IH] show ?case
    by (intro mutex_okI) (auto simp: release_def nth_list_update split: if_splits)
qed simp_all

lemma holder: "freach kinds f \<Longrightarrow> t < length (fl_stage f) \<Longrightarrow> fl_stage f ! t = Holding k \<Longrightarrow> fl_lock f = Some t"
  by (rule mutex_okD(2)[OF mutex_ok_reach]) simp_all

lemma log_ok_reach: "freach kinds f \<Longrightarrow> log_ok kinds f"
proof (induction rule: freach_from.induct)
  case start
  then show ?case by (simp add: log_ok_def no_flushers_def returned_def under_way_def whole_def)
next
  case (hand_off f i l)
  have "returned (hand_off i l f) = returned f" by (auto simp: returned_def hand_off_def nth_append)
  moreover have "under_way kinds (hand_off i l f) = under_way kinds f"
    using mutex_okD(3)[OF mutex_ok_reach[OF hand_off.hyps(1)]]
    by (cases "fl_lock f") (simp_all add: under_way_def hand_off_def nth_append)
  ultimately show ?case using hand_off.IH by (simp add: log_ok_def hand_off_def)
next
  case (acquire f t)
  have "returned (acquire t f) = returned f"
    using acquire.hyps by (auto simp: returned_def acquire_def nth_list_update split: if_splits)
  with acquire show ?case by (simp add: log_ok_def under_way_def acquire_def)
next
  case (flush f t k)
  note lock = holder[OF flush.hyps(1-3)]
  have "returned (flush_next kinds t k f) = returned f"
    using flush.hyps by (auto simp: returned_def flush_next_def nth_list_update split: if_splits)
  with flush lock show ?case
    by (simp add: log_ok_def under_way_def flush_next_def take_Suc_conv_app_nth)
next
  case (release f t)
  note lock = holder[OF release.hyps]
  from release.IH obtain served where s: "distinct served" "set served = returned f"
    "fl_log f = whole kinds served @ under_way kinds f" by (auto simp: log_ok_def)
  have "returned (release t f) = insert t (returned f)"
    using release.hyps by (auto simp: returned_def release_def nth_list_update split: if_splits)
  moreover have "t \<notin> returned f" using release by (simp add: returned_def)
  moreover have "under_way kinds f = map (Pair t) kinds" "under_way kinds (release t f) = []"
    using release lock by (simp_all add: under_way_def release_def)
  ultimately show ?case unfolding log_ok_def using s
    by (intro exI[of _ "served @ [t]"]) (simp add: release_def whole_def)
next
  case (join f i t)
  have "under_way kinds (joined i f) = under_way kinds f" by (cases "fl_lock f") (simp_all add: under_way_def joined_def)
  with join.IH show ?case by (simp add: log_ok_def joined_def returned_def)
next
  case (leave f i)
  have "under_way kinds (leave i f) = under_way kinds f" by (cases "fl_lock f") (simp_all add: under_way_def leave_def)
  with leave.IH show ?case by (simp add: log_ok_def leave_def returned_def)
qed

section \<open>The guards\<close>

text \<open>
  The flushers of a worker that have not returned are the one in its guard and the one it
  waits for; when it starts a flusher, all but the one before have returned.
\<close>

definition flushers_of :: "int \<Rightarrow> 'b flushers \<Rightarrow> nat set" where
  "flushers_of i f = {t. t < length (fl_calls f) \<and> snd (fl_calls f ! t) = i}"

definition pending_of :: "int \<Rightarrow> 'b flushers \<Rightarrow> nat set" where
  "pending_of i f = {t. t \<in> flushers_of i f \<and> t \<notin> returned f}"

definition guards_ok :: "'b flushers \<Rightarrow> bool" where
  "guards_ok f = ((\<forall>i t. t \<in> pending_of i f \<longrightarrow> fl_guard f i = Some t \<or> fl_joining f i = Some t)
     \<and> (\<forall>i t. fl_guard f i = Some t \<longrightarrow> (\<forall>u \<in> flushers_of i f. u \<le> t))
     \<and> (\<forall>i. fl_left f i \<longrightarrow> fl_guard f i = None))"

lemma guards_okD:
  assumes "guards_ok f"
  shows "u \<in> flushers_of i f \<Longrightarrow> u \<notin> returned f \<Longrightarrow> fl_guard f i = Some u \<or> fl_joining f i = Some u"
    and "fl_guard f i = Some t \<Longrightarrow> u \<in> flushers_of i f \<Longrightarrow> u \<le> t"
    and "fl_left f i \<Longrightarrow> fl_guard f i = None"
  using assms by (simp_all add: guards_ok_def pending_of_def)

lemma guards_okI:
  assumes "\<And>i u. u \<in> flushers_of i f \<Longrightarrow> u \<notin> returned f \<Longrightarrow> fl_guard f i = Some u \<or> fl_joining f i = Some u"
    and "\<And>i t u. fl_guard f i = Some t \<Longrightarrow> u \<in> flushers_of i f \<Longrightarrow> u \<le> t"
    and "\<And>i. fl_left f i \<Longrightarrow> fl_guard f i = None"
  shows "guards_ok f"
  using assms by (simp add: guards_ok_def pending_of_def)

definition in_turn :: "'b flushers \<Rightarrow> bool" where
  "in_turn f = (\<forall>i t u v. {t, u, v} \<subseteq> flushers_of i f \<longrightarrow> t < u \<longrightarrow> u < v \<longrightarrow> t \<in> returned f)"

lemma flushers_of_step [simp]:
  "flushers_of i (joined j f) = flushers_of i f" "flushers_of i (leave j f) = flushers_of i f"
  "flushers_of i (acquire t f) = flushers_of i f" "flushers_of i (flush_next kinds t k f) = flushers_of i f"
  "flushers_of i (release t f) = flushers_of i f"
  "flushers_of i (hand_off j l f) = flushers_of i f \<union> (if i = j then {length (fl_calls f)} else {})"
  by (auto simp: flushers_of_def flusher_steps nth_append)

lemma guard_step [simp]:
  "fl_guard (joined j f) = fl_guard f" "fl_guard (acquire t f) = fl_guard f"
  "fl_guard (flush_next kinds t k f) = fl_guard f" "fl_guard (release t f) = fl_guard f"
  "fl_guard (leave j f) = (fl_guard f)(j := None)"
  "fl_guard (hand_off j l f) = (fl_guard f)(j := Some (length (fl_calls f)))"
  "fl_joining (joined j f) = (fl_joining f)(j := None)" "fl_joining (acquire t f) = fl_joining f"
  "fl_joining (flush_next kinds t k f) = fl_joining f" "fl_joining (release t f) = fl_joining f"
  "fl_joining (leave j f) = (fl_joining f)(j := fl_guard f j)"
  "fl_joining (hand_off j l f) = (fl_joining f)(j := fl_guard f j)"
  "fl_left (joined j f) = fl_left f" "fl_left (acquire t f) = fl_left f"
  "fl_left (flush_next kinds t k f) = fl_left f" "fl_left (release t f) = fl_left f"
  "fl_left (leave j f) = (fl_left f)(j := True)" "fl_left (hand_off j l f) = fl_left f"
  by (simp_all add: flusher_steps)

lemma returned_step [simp]:
  "returned (joined j f) = returned f" "returned (leave j f) = returned f"
  "returned (hand_off j l f) = returned f"
  by (auto simp: returned_def flusher_steps nth_append)

lemma returned_mutex:
  "t < length (fl_stage f) \<Longrightarrow> fl_stage f ! t \<noteq> Returned \<Longrightarrow> returned (acquire t f) = returned f"
  "t < length (fl_stage f) \<Longrightarrow> fl_stage f ! t \<noteq> Returned \<Longrightarrow> returned (flush_next kinds t k f) = returned f"
  "t < length (fl_stage f) \<Longrightarrow> returned (release t f) = insert t (returned f)"
  by (auto simp: returned_def flusher_steps nth_list_update split: if_splits)

lemma flushers_of_bound: "u \<in> flushers_of i f \<Longrightarrow> u < length (fl_calls f)"
  by (simp add: flushers_of_def)

lemma guards_ok_reach: "freach kinds f \<Longrightarrow> guards_ok f"
proof (induction rule: freach_from.induct)
  case start
  then show ?case by (simp add: guards_ok_def pending_of_def flushers_of_def no_flushers_def)
next
  case (hand_off f i l)
  note g = guards_okD[OF hand_off.IH]
  show ?case
  proof (rule guards_okI)
    fix j u assume "u \<in> flushers_of j (hand_off i l f)" "u \<notin> returned (hand_off i l f)"
    then show "fl_guard (hand_off i l f) j = Some u \<or> fl_joining (hand_off i l f) j = Some u"
      using g(1)[of u j] hand_off.hyps(2) by (auto split: if_splits)
  next
    fix j t u assume "fl_guard (hand_off i l f) j = Some t" "u \<in> flushers_of j (hand_off i l f)"
    then show "u \<le> t" using g(2)[of j t u] flushers_of_bound[of u j f] by (auto split: if_splits)
  qed (use g(3) hand_off.hyps(3) in auto)
next
  case (join f i t)
  then have "t \<in> returned f \<or> t \<notin> flushers_of i f"
    using mutex_ok_reach[OF join.hyps(1)] by (auto simp: returned_def flushers_of_def mutex_ok_def)
  then have j: "u \<in> flushers_of i f \<Longrightarrow> u \<notin> returned f \<Longrightarrow> fl_guard f i = Some u" for u
    using guards_okD(1)[OF join.IH, of u i] join.hyps(2) by auto
  show ?case
  proof (rule guards_okI)
    fix k u assume "u \<in> flushers_of k (joined i f)" "u \<notin> returned (joined i f)"
    then show "fl_guard (joined i f) k = Some u \<or> fl_joining (joined i f) k = Some u"
      using guards_okD(1)[OF join.IH, of u k] j[of u] by auto
  qed (use guards_okD(2,3)[OF join.IH] in auto)
next
  case (leave f i)
  show ?case
  proof (rule guards_okI)
    fix k u assume "u \<in> flushers_of k (leave i f)" "u \<notin> returned (leave i f)"
    then show "fl_guard (leave i f) k = Some u \<or> fl_joining (leave i f) k = Some u"
      using guards_okD(1)[OF leave.IH, of u k] leave.hyps(2) by auto
  qed (use guards_okD(2,3)[OF leave.IH] in \<open>auto split: if_splits\<close>)
next
  case (release f t)
  then show ?case using guards_okD[OF release.IH] by (intro guards_okI) (auto simp: returned_mutex)
qed (simp_all add: guards_ok_def pending_of_def returned_mutex)

lemma in_turn_reach: "freach kinds f \<Longrightarrow> in_turn f"
proof (induction rule: freach_from.induct)
  case start
  then show ?case by (simp add: in_turn_def flushers_of_def no_flushers_def)
next
  case (hand_off f i l)
  have new: "t \<in> returned f" if "{t, u} \<subseteq> flushers_of i f" "t < u" for t u
  proof (rule ccontr)
    assume "t \<notin> returned f"
    note g = guards_okD[OF guards_ok_reach[OF hand_off.hyps(1)]]
    from g(1)[of t i] \<open>t \<notin> returned f\<close> that hand_off.hyps(2) have "fl_guard f i = Some t" by simp
    from g(2)[OF this, of u] that show False by simp
  qed
  show ?case unfolding in_turn_def
  proof (intro allI impI)
    fix j t u v assume a: "{t, u, v} \<subseteq> flushers_of j (hand_off i l f)" "t < u" "u < v"
    then have tu: "{t, u} \<subseteq> flushers_of j f"
      by (auto split: if_splits dest: flushers_of_bound)
    show "t \<in> returned (hand_off i l f)"
    proof (cases "v \<in> flushers_of j f")
      case True
      with hand_off.IH tu a(2,3) show ?thesis by (auto simp: in_turn_def)
    next
      case False
      with a(1) have "j = i" by (auto split: if_splits)
      with new tu a(2) show ?thesis by simp
    qed
  qed
next
  case (release f t)
  then show ?case by (auto simp: in_turn_def returned_mutex)
qed (simp_all add: in_turn_def returned_mutex)


section \<open>Progress\<close>

text \<open>The steps a flusher still has to make.\<close>

fun steps_left :: "nat \<Rightarrow> flush_stage \<Rightarrow> nat" where
  "steps_left n Blocked = n + 2"
| "steps_left n (Holding k) = Suc (n - k)"
| "steps_left n Returned = 0"

definition work_left :: "'b list \<Rightarrow> 'b flushers \<Rightarrow> nat" where
  "work_left kinds f = sum_list (map (steps_left (length kinds)) (fl_stage f))"

lemma work_left_update:
  assumes "t < length (fl_stage f)" "steps_left (length kinds) x < steps_left (length kinds) (fl_stage f ! t)"
  shows "sum_list (map (steps_left (length kinds)) ((fl_stage f)[t := x])) < work_left kinds f"
proof -
  have "steps_left (length kinds) (fl_stage f ! t) \<le> work_left kinds f"
    unfolding work_left_def by (rule member_le_sum_list) (use assms(1) in auto)
  with assms show ?thesis by (simp add: work_left_def map_update sum_list_update)
qed

lemma holding_le: "freach kinds f \<Longrightarrow> t < length (fl_stage f) \<Longrightarrow> fl_stage f ! t = Holding k \<Longrightarrow> k \<le> length kinds"
  by (induction arbitrary: t k rule: freach_from.induct)
    (auto simp: flusher_steps nth_append nth_list_update less_Suc_eq split: if_splits)

lemma flusher_advances:
  assumes "freach kinds f" "t < length (fl_stage f)" "fl_stage f ! t \<noteq> Returned"
  shows "\<exists>f'. freach_from kinds f f' \<and> fl_calls f' = fl_calls f \<and> work_left kinds f' < work_left kinds f"
proof (cases "fl_lock f")
  case (Some h)
  from mutex_okD(3)[OF mutex_ok_reach[OF assms(1)] this] obtain k where
    h: "h < length (fl_stage f)" "fl_stage f ! h = Holding k" by (cases "fl_stage f ! h") auto
  show ?thesis
  proof (cases "k < length kinds")
    case True
    show ?thesis using freach_from.flush[OF freach_from.start h True] work_left_update[OF h(1), of kinds "Holding (Suc k)"] h True
      by (intro exI[of _ "flush_next kinds h k f"]) (simp add: flush_next_def work_left_def)
  next
    case False
    with holding_le[OF assms(1) h] have "k = length kinds" by simp
    with h freach_from.release[OF freach_from.start h(1)] work_left_update[OF h(1), of kinds Returned] show ?thesis
      by (intro exI[of _ "release h f"]) (simp add: release_def work_left_def)
  qed
next
  case None
  with mutex_okD(2)[OF mutex_ok_reach[OF assms(1)] assms(2)] assms(3) have b: "fl_stage f ! t = Blocked"
    by (cases "fl_stage f ! t") auto
  with freach_from.acquire[OF freach_from.start assms(2) b None] work_left_update[OF assms(2), of kinds "Holding 0"] show ?thesis
    by (intro exI[of _ "acquire t f"]) (simp add: acquire_def work_left_def)
qed

lemma flushers_finish:
  "freach kinds f \<Longrightarrow> \<exists>f'. freach_from kinds f f' \<and> fl_calls f' = fl_calls f \<and> returned f' = {..<length (fl_calls f)}"
proof (induction "work_left kinds f" arbitrary: f rule: less_induct)
  case less
  show ?case
  proof (cases "\<forall>t < length (fl_stage f). fl_stage f ! t = Returned")
    case True
    with mutex_okD(1)[OF mutex_ok_reach[OF less.prems]] have "returned f = {..<length (fl_calls f)}"
      by (auto simp: returned_def)
    with freach_from.start show ?thesis by blast
  next
    case False
    then obtain t where "t < length (fl_stage f)" "fl_stage f ! t \<noteq> Returned" by blast
    from flusher_advances[OF less.prems this] obtain f1 where
      f1: "freach_from kinds f f1" "fl_calls f1 = fl_calls f" "work_left kinds f1 < work_left kinds f" by blast
    from less.hyps[OF f1(3) freach_from_trans[OF f1(1) less.prems]] f1(2) freach_from_trans[OF _ f1(1)]
    show ?thesis by metis
  qed
qed

section \<open>Properties\<close>

text \<open>
  C7. The mutex of the container makes flushes whole: in every reachable state, with any number of
  workers and flushers, the calls of \<^verbatim>\<open>flush_stats\<close> made so far are those of a sequence of whole
  flushes, each to every backend in order and none twice, followed by the part of the one flush
  under way. The whole ones are exactly those whose thread has returned.
\<close>

theorem flushes_are_whole:
  assumes "freach kinds f"
  shows "\<exists>served. distinct served \<and> set served = returned f
    \<and> fl_log f = whole kinds served @ under_way kinds f"
  using log_ok_reach[OF assms] by (simp add: log_ok_def)

text \<open>
  C24. Bounds on the threads of a worker: at most two flushers have not returned, only one while the
  worker is not waiting, none once it has left and waited. A flush can be overtaken by the next
  one of its worker, but by no later one.
\<close>

theorem flushers_bounded:
  assumes "freach kinds f"
  shows "card (pending_of i f) \<le> 2
    \<and> (fl_joining f i = None \<longrightarrow> card (pending_of i f) \<le> 1)
    \<and> (fl_joining f i = None \<and> fl_left f i \<longrightarrow> flushers_of i f \<subseteq> returned f)
    \<and> (\<forall>t u v. {t, u, v} \<subseteq> flushers_of i f \<longrightarrow> t < u \<longrightarrow> u < v \<longrightarrow> t \<in> returned f)"
proof -
  note g = guards_okD[OF guards_ok_reach[OF assms]]
  have "pending_of i f \<subseteq> set_option (fl_guard f i) \<union> set_option (fl_joining f i)"
    using g(1) by (auto simp: pending_of_def)
  from card_mono[OF _ this]
  have "card (pending_of i f) \<le> card (set_option (fl_guard f i) \<union> set_option (fl_joining f i))" by simp
  also have "\<dots> \<le> (if fl_joining f i = None then 1 else 2)"
    by (cases "fl_guard f i"; cases "fl_joining f i") (simp_all add: card_insert_if)
  finally have "card (pending_of i f) \<le> (if fl_joining f i = None then 1 else 2)" .
  moreover have "flushers_of i f \<subseteq> returned f" if "fl_joining f i = None" "fl_left f i"
    using g(1)[of _ i] g(3)[OF that(2)] that(1) by auto
  moreover have "in_turn f" by (rule in_turn_reach[OF assms])
  ultimately show ?thesis unfolding in_turn_def by (auto split: if_splits)
qed

text \<open>
  C25. Flushing never gets stuck: every reachable state has an execution that starts in it, in which no
  flusher is started, and at whose end all have returned and every interval has been flushed to
  every backend.
\<close>

theorem flushes_complete:
  assumes "freach kinds f"
  shows "\<exists>f' served. freach_from kinds f f' \<and> fl_calls f' = fl_calls f \<and> fl_log f' = whole kinds served
    \<and> distinct served \<and> set served = {..<length (fl_calls f)}"
proof -
  from flushers_finish[OF assms] obtain f' where
    from_f: "freach_from kinds f f'" and
    f': "fl_calls f' = fl_calls f" "returned f' = {..<length (fl_calls f)}" by blast
  note reached = freach_from_trans[OF from_f assms]
  have "fl_lock f' = None"
  proof (rule ccontr)
    assume "fl_lock f' \<noteq> None"
    then obtain t where "fl_lock f' = Some t" by blast
    from mutex_okD(3)[OF mutex_ok_reach[OF reached] this] have h: "t < length (fl_stage f')" "holds (fl_stage f' ! t)"
      by simp_all
    then have "t \<notin> returned f'" by (auto simp: returned_def)
    with h(1) mutex_okD(1)[OF mutex_ok_reach[OF reached]] f' show False by simp
  qed
  with log_ok_reach[OF reached] from_f f' show ?thesis by (auto simp: log_ok_def under_way_def)
qed

section \<open>An execution\<close>

text \<open>
  Two intervals of one worker: the second flusher is started before the first one is joined, and
  the mutex goes to the second.
\<close>

definition overtaken :: "ledger \<Rightarrow> ledger \<Rightarrow> backend_kind flushers" where
  "overtaken l0 l1 = release 0 (flush_next [Stdout_Backend] 0 0 (acquire 0
     (release 1 (flush_next [Stdout_Backend] 1 0 (acquire 1 (hand_off 1 l1 (hand_off 1 l0 no_flushers)))))))"

lemma overtaken_reached: "freach [Stdout_Backend] (overtaken l0 l1)"
  unfolding overtaken_def
  by (rule freach_from.release freach_from.flush freach_from.acquire freach_from.hand_off freach_from.start
      | simp add: flusher_steps nth_list_update)+

text \<open>
  The intervals of one worker can be flushed in reverse order, so an older interval can reach
  carbon, which is sent the time of the flush, with the later time stamp.
\<close>

theorem intervals_can_swap:
  "\<exists>f. freach [Stdout_Backend] f \<and> fl_calls f = [(copy_ledger l0, 1), (copy_ledger l1, 1)]
     \<and> fl_log f = [(1, Stdout_Backend), (0, Stdout_Backend)]"
  by (rule exI[of _ "overtaken l0 l1"]) (simp add: overtaken_reached, simp add: overtaken_def flusher_steps)

theorem flushes_are_whole_witness:
  "\<exists>served. distinct served \<and> set served = returned (overtaken new_ledger new_ledger)
    \<and> fl_log (overtaken new_ledger new_ledger) = whole [Stdout_Backend] served"
  using flushes_are_whole[OF overtaken_reached[of new_ledger new_ledger]]
  by (simp add: under_way_def overtaken_def flusher_steps)

theorem flushers_bounded_witness:
  "card (pending_of 1 (overtaken new_ledger new_ledger)) \<le> 2"
  using flushers_bounded[OF overtaken_reached[of new_ledger new_ledger], of 1] by simp

lemma overtaken_calls: "length (fl_calls (overtaken l0 l1)) = 2"
  by (simp add: overtaken_def flusher_steps)

theorem flushes_complete_witness:
  "\<exists>f' served. freach_from [Stdout_Backend] (overtaken new_ledger new_ledger) f' \<and> fl_calls f' = fl_calls (overtaken new_ledger new_ledger)
    \<and> fl_log f' = whole [Stdout_Backend] served \<and> distinct served \<and> set served = {..<2}"
  using flushes_complete[OF overtaken_reached[of new_ledger new_ledger]] by (simp only: overtaken_calls)

end
