(* ===== verification/System.thy ===== *)
theory System
  imports Servers Flushing
begin

text \<open>
  The running aggregator, \<^verbatim>\<open>src/aggregator.cc\<close> after its start: the threads of the UDP server,
  the workers, the clock and the flushers of all workers, whose steps interleave. A step is one
  operation of one component; the clock may interrupt any worker at any time. The theorem
  follows the samples of a name from the datagrams to the flushes.
\<close>

section \<open>Steps\<close>

text \<open>
  \<open>ag_backlog\<close> holds for every UDP thread the lines of its datagram it has not consumed yet.
\<close>

record 'q aggregator =
  ag_workers :: "'q worker list"
  ag_backlog :: "string list list"
  ag_flushers :: "backend_kind flushers"

definition started :: "int \<Rightarrow> 'q \<Rightarrow> nat \<Rightarrow> 'q aggregator" where
  "started workers q threads =
     \<lparr>ag_workers = construct_workers (nat workers) q 0,
      ag_backlog = replicate threads [], ag_flushers = no_flushers\<rparr>"

lemmas started_simps = started_def construct_workers_numbers

lemma started_workers: "ag_workers (started workers q threads) = map (\<lambda>i. new_worker (int i + 1) q 0 0 0) [0..<nat workers]"
  by (simp add: started_simps)

text \<open>A datagram for thread \<open>j\<close>; the thread consumes its lines one by one, \<open>alloc\<close> as in the consumer.\<close>

definition receive :: "nat \<Rightarrow> string \<Rightarrow> 'q aggregator \<Rightarrow> 'q aggregator" where
  "receive j bytes s = s\<lparr>ag_backlog := (ag_backlog s)[j := packet_lines bytes]\<rparr>"

definition consume_next ::
  "(string \<Rightarrow> 64 word) \<Rightarrow> int \<Rightarrow> (string \<Rightarrow> 'q \<Rightarrow> 'q option) \<Rightarrow> agg_consumer \<Rightarrow> bool \<Rightarrow> nat \<Rightarrow>
    'q aggregator \<Rightarrow> 'q aggregator result"
where
  "consume_next hash workers push c alloc j s =
     bind_result (agg_consume hash workers push c alloc (hd (ag_backlog s ! j)) (ag_workers s)) (\<lambda>ws. Inr
       (s\<lparr>ag_workers := ws, ag_backlog := (ag_backlog s)[j := tl (ag_backlog s ! j)]\<rparr>))"

text \<open>An interval a worker flushes goes to a flusher; the copies of a copied ledger are equal.\<close>

definition flush_handed :: "'q worker \<Rightarrow> 'q worker \<Rightarrow> backend_kind flushers \<Rightarrow> backend_kind flushers" where
  "flush_handed w w' f =
     (if length (flushed w') = length (flushed w) then f else hand_off (wid w') (fst (last (flushed w'))) f)"

definition work_next ::
  "(string \<Rightarrow> double option) \<Rightarrow> ('q \<Rightarrow> (string \<times> 'q) option) \<Rightarrow> settings \<Rightarrow> 64 word \<Rightarrow> 64 word \<Rightarrow> nat \<Rightarrow>
    'q aggregator \<Rightarrow> 'q aggregator result"
where
  "work_next lexcast pop st start stop i s =
     bind_result (work lexcast pop st start stop (ag_workers s ! i)) (\<lambda>w. Inr
       (s\<lparr>ag_workers := (ag_workers s)[i := w],
          ag_flushers := flush_handed (ag_workers s ! i) w (ag_flushers s)\<rparr>))"

definition change_worker :: "nat \<Rightarrow> ('q worker \<Rightarrow> 'q worker) \<Rightarrow> 'q aggregator \<Rightarrow> 'q aggregator" where
  "change_worker i g s = s\<lparr>ag_workers := (ag_workers s)[i := g (ag_workers s ! i)]\<rparr>"

text \<open>The steps of the flushers themselves.\<close>

inductive flusher_step :: "'b list \<Rightarrow> 'b flushers \<Rightarrow> 'b flushers \<Rightarrow> bool" for kinds where
  join: "fl_joining f i = Some t \<Longrightarrow> fl_stage f ! t = Returned \<Longrightarrow> flusher_step kinds f (joined i f)"
| acquire: "t < length (fl_stage f) \<Longrightarrow> fl_stage f ! t = Blocked \<Longrightarrow> fl_lock f = None \<Longrightarrow>
    flusher_step kinds f (acquire t f)"
| flush: "t < length (fl_stage f) \<Longrightarrow> fl_stage f ! t = Holding k \<Longrightarrow> k < length kinds \<Longrightarrow>
    flusher_step kinds f (flush_next kinds t k f)"
| release: "t < length (fl_stage f) \<Longrightarrow> fl_stage f ! t = Holding (length kinds) \<Longrightarrow>
    flusher_step kinds f (release t f)"

inductive_cases flusher_stepE: "flusher_step kinds f f'"

lemma flusher_step_reach: "flusher_step kinds f f' \<Longrightarrow> freach kinds f \<Longrightarrow> freach kinds f'"
  by (erule flusher_stepE) (auto intro: freach_from.join freach_from.acquire freach_from.flush freach_from.release)

lemma flusher_step_calls: "flusher_step kinds f f' \<Longrightarrow> fl_calls f' = fl_calls f"
  by (erule flusher_stepE) (simp_all add: flusher_steps)

text \<open>
  Executions, with the datagrams received and the lines consumed, in order, and whether the
  worker's queue took them.
\<close>

definition line_taken :: "(string \<Rightarrow> 64 word) \<Rightarrow> int \<Rightarrow> (string \<Rightarrow> 'q \<Rightarrow> 'q option) \<Rightarrow> string \<Rightarrow> bool \<Rightarrow> string \<Rightarrow>
    'q worker list \<Rightarrow> bool"
where
  "line_taken hash workers push name alloc l ws =
     (alloc \<and> push (shard_line name l) (work_queue (ws ! shard_of hash workers name l)) \<noteq> None)"

inductive areach ::
  "(string \<Rightarrow> double option) \<Rightarrow> (string \<Rightarrow> 64 word) \<Rightarrow> int \<Rightarrow> (string \<Rightarrow> 'q \<Rightarrow> 'q option) \<Rightarrow>
    ('q \<Rightarrow> (string \<times> 'q) option) \<Rightarrow> settings \<Rightarrow> agg_consumer \<Rightarrow> backend_kind list \<Rightarrow> 'q \<Rightarrow> nat \<Rightarrow>
    string list \<Rightarrow> submissions \<Rightarrow> 'q aggregator \<Rightarrow> bool"
  for lexcast hash workers push pop st c kinds q threads
where
  start: "areach lexcast hash workers push pop st c kinds q threads [] [] (started workers q threads)"
| receive: "areach lexcast hash workers push pop st c kinds q threads ds cs s \<Longrightarrow>
    j < length (ag_backlog s) \<Longrightarrow> ag_backlog s ! j = [] \<Longrightarrow> length bytes \<le> max_msg_size \<Longrightarrow>
    areach lexcast hash workers push pop st c kinds q threads (ds @ [bytes]) cs (receive j bytes s)"
| consume: "areach lexcast hash workers push pop st c kinds q threads ds cs s \<Longrightarrow>
    j < length (ag_backlog s) \<Longrightarrow> ag_backlog s ! j = l # ls \<Longrightarrow>
    consume_next hash workers push c alloc j s = Inr s' \<Longrightarrow>
    areach lexcast hash workers push pop st c kinds q threads ds
      (cs @ [(l, line_taken hash workers push (set_name st) alloc l (ag_workers s))]) s'"
| ring: "areach lexcast hash workers push pop st c kinds q threads ds cs s \<Longrightarrow> i < length (ag_workers s) \<Longrightarrow>
    areach lexcast hash workers push pop st c kinds q threads ds cs (change_worker i interrupt s)"
| stop: "areach lexcast hash workers push pop st c kinds q threads ds cs s \<Longrightarrow> i < length (ag_workers s) \<Longrightarrow>
    areach lexcast hash workers push pop st c kinds q threads ds cs (change_worker i stop_worker s)"
| work: "areach lexcast hash workers push pop st c kinds q threads ds cs s \<Longrightarrow> i < length (ag_workers s) \<Longrightarrow>
    fl_joining (ag_flushers s) (wid (ag_workers s ! i)) = None \<Longrightarrow>
    \<not> fl_left (ag_flushers s) (wid (ag_workers s ! i)) \<Longrightarrow>
    work_next lexcast pop st start stop i s = Inr s' \<Longrightarrow>
    areach lexcast hash workers push pop st c kinds q threads ds cs s'"
| leave: "areach lexcast hash workers push pop st c kinds q threads ds cs s \<Longrightarrow> i < length (ag_workers s) \<Longrightarrow>
    is_done (ag_workers s ! i) \<Longrightarrow> pending (ag_workers s ! i) = None \<Longrightarrow> \<not> in_loop (ag_workers s ! i) \<Longrightarrow>
    fl_joining (ag_flushers s) (wid (ag_workers s ! i)) = None \<Longrightarrow>
    \<not> fl_left (ag_flushers s) (wid (ag_workers s ! i)) \<Longrightarrow>
    areach lexcast hash workers push pop st c kinds q threads ds cs
      (s\<lparr>ag_flushers := leave (wid (ag_workers s ! i)) (ag_flushers s)\<rparr>)"
| flusher: "areach lexcast hash workers push pop st c kinds q threads ds cs s \<Longrightarrow>
    flusher_step kinds (ag_flushers s) f \<Longrightarrow>
    areach lexcast hash workers push pop st c kinds q threads ds cs (s\<lparr>ag_flushers := f\<rparr>)"

section \<open>Datagrams and lines\<close>

text \<open>Every line of a datagram is consumed once, or still waits in the thread that got it.\<close>

lemma consume_next_backlog:
  "consume_next hash workers push c alloc j s = Inr s' \<Longrightarrow>
     ag_backlog s' = (ag_backlog s)[j := tl (ag_backlog s ! j)] \<and> ag_flushers s' = ag_flushers s"
  by (auto simp: consume_next_def bind_result_Inr_iff)

lemma work_next_backlog: "work_next lexcast pop st start stop i s = Inr s' \<Longrightarrow> ag_backlog s' = ag_backlog s"
  by (auto simp: work_next_def bind_result_Inr_iff)

lemma lines_conserved:
  "areach lexcast hash workers push pop st c kinds q threads ds cs s \<Longrightarrow>
     mset (map fst cs) + mset (concat (ag_backlog s)) = mset (concat (map packet_lines ds))"
proof (induction rule: areach.induct)
  case start
  then show ?case by (simp add: started_simps)
next
  case (receive ds cs s j bytes)
  from mset_concat_update[OF receive.hyps(2), of "packet_lines bytes"] receive.hyps(3) receive.IH
  show ?case by (simp add: receive_def)
next
  case (consume ds cs s j l ls alloc s')
  from mset_concat_update[OF consume.hyps(2), of ls] consume.hyps(3) consume.IH
    consume_next_backlog[OF consume.hyps(4)]
  show ?case by simp (metis (no_types, lifting) add_mset_add_single union_assoc union_commute)
qed (simp_all add: change_worker_def work_next_backlog)

lemma consumed_clean:
  assumes "areach lexcast hash workers push pop st c kinds q threads ds cs s" "l \<in> set (map fst cs)"
  shows "NUL \<notin> set l"
proof -
  have "l \<in># mset (map fst cs) + mset (concat (ag_backlog s))" using assms(2) by simp
  then have "l \<in># mset (concat (map packet_lines ds))" unfolding lines_conserved[OF assms(1)] .
  then show ?thesis using packet_lines_clean by auto
qed

section \<open>Workers\<close>

text \<open>
  In a system step a worker makes a step of its own execution: what it was submitted is its
  shard of the lines its queue took.
\<close>

lemma shard_stream_snoc:
  "shard_stream hash workers name (ls @ [l]) i =
     shard_stream hash workers name ls i @ (if shard_of hash workers name l = i then [shard_line name l] else [])"
  by (simp add: shard_stream_def)

definition worker_runs ::
  "(string \<Rightarrow> double option) \<Rightarrow> (string \<Rightarrow> 64 word) \<Rightarrow> int \<Rightarrow> (string \<Rightarrow> 'q \<Rightarrow> 'q option) \<Rightarrow>
    ('q \<Rightarrow> (string \<times> 'q) option) \<Rightarrow> settings \<Rightarrow> 'q \<Rightarrow> submissions \<Rightarrow> 'q worker list \<Rightarrow> bool"
where
  "worker_runs lexcast hash workers push pop st q cs ws = (length ws = nat workers \<and>
     (\<forall>i < nat workers. \<exists>subs. reach lexcast push pop st (new_worker (int i + 1) q 0 0 0) subs (ws ! i)
        \<and> accepted subs = shard_stream hash workers (set_name st) (accepted cs) i))"

lemma worker_runs_update:
  assumes "worker_runs lexcast hash workers push pop st q cs ws" "i < length ws"
    and "\<And>w0 subs. reach lexcast push pop st w0 subs (ws ! i) \<Longrightarrow> reach lexcast push pop st w0 subs w"
  shows "worker_runs lexcast hash workers push pop st q cs (ws[i := w])"
  using assms by (fastforce simp: worker_runs_def nth_list_update)

lemma worker_runs_consume:
  assumes "worker_runs lexcast hash workers push pop st q cs ws"
    and "0 < workers" "workers \<le> int_max" "new_agg_consumer hash (set_name st) workers = Inr c"
    and "agg_consume hash workers push c alloc l ws = Inr ws'"
  shows "worker_runs lexcast hash workers push pop st q
    (cs @ [(l, line_taken hash workers push (set_name st) alloc l ws)]) ws'"
proof (cases alloc)
  case False
  with assms(5) have "ws' = ws"
    by (auto simp: agg_consume_def bind_result_Inr_iff split: option.splits)
  with False assms(1) show ?thesis by (simp add: worker_runs_def line_taken_def accepted_def)
next
  case True
  let ?k = "shard_of hash workers (set_name st) l"
  let ?m = "shard_line (set_name st) l"
  from assms(1) have len: "length ws = nat workers" by (simp add: worker_runs_def)
  from agg_consume_shard[OF assms(2,3) len assms(4), of l push] assms(5) True
  have k: "?k < length ws" "ws' = ws[?k := submit push ?m (ws ! ?k)]" by auto
  let ?b = "push ?m (work_queue (ws ! ?k)) \<noteq> None"
  have "\<exists>subs. reach lexcast push pop st (new_worker (int i + 1) q 0 0 0) subs (ws' ! i)
      \<and> accepted subs = shard_stream hash workers (set_name st) (accepted (cs @ [(l, ?b)])) i"
    if i: "i < nat workers" for i
  proof -
    from assms(1) i obtain subs where
      r: "reach lexcast push pop st (new_worker (int i + 1) q 0 0 0) subs (ws ! i)" and
      a: "accepted subs = shard_stream hash workers (set_name st) (accepted cs) i"
      by (auto simp: worker_runs_def)
    show ?thesis
    proof (cases "i = ?k")
      case True
      with reach.submit[OF r, of ?m] k a show ?thesis
        by (intro exI[of _ "subs @ [(?m, ?b)]"]) (cases ?b; simp add: shard_stream_snoc)
    next
      case False
      with r k a show ?thesis by (intro exI[of _ subs]) (cases ?b; simp add: shard_stream_snoc)
    qed
  qed
  moreover have "line_taken hash workers push (set_name st) alloc l ws = ?b"
    using True by (simp add: line_taken_def)
  ultimately show ?thesis using len k(2) by (simp add: worker_runs_def)
qed

lemma workers_reach:
  assumes "areach lexcast hash workers push pop st c kinds q threads ds cs s"
    and "0 < workers" "workers \<le> int_max" "new_agg_consumer hash (set_name st) workers = Inr c"
  shows "worker_runs lexcast hash workers push pop st q cs (ag_workers s)"
  using assms(1)
proof (induction rule: areach.induct)
  case start
  then show ?case
    by (auto simp: worker_runs_def started_simps shard_stream_def intro: reach.start)
next
  case (consume ds cs s j l ls alloc s')
  then have "agg_consume hash workers push c alloc l (ag_workers s) = Inr (ag_workers s')"
    by (auto simp: consume_next_def bind_result_Inr_iff)
  from worker_runs_consume[OF consume.IH assms(2-4) this] show ?case .
next
  case (work ds cs s i start stop s')
  then obtain w where "work lexcast pop st start stop (ag_workers s ! i) = Inr w"
    "ag_workers s' = (ag_workers s)[i := w]"
    by (auto simp: work_next_def bind_result_Inr_iff)
  then show ?case using worker_runs_update[OF work.IH work.hyps(2), of w] by (auto intro: reach.work)
qed (auto simp: receive_def change_worker_def intro!: worker_runs_update intro: reach.interrupt reach.stop)

section \<open>Intervals\<close>

text \<open>The intervals a worker has flushed are the calls its flushers were started with.\<close>

definition handed_over :: "'q aggregator \<Rightarrow> bool" where
  "handed_over s = (\<forall>i < length (ag_workers s). wid (ag_workers s ! i) = int i + 1
     \<and> flushed (ag_workers s ! i) = filter (\<lambda>call. snd call = int i + 1) (fl_calls (ag_flushers s)))"

lemma work_flushed:
  assumes "work lexcast pop st start stop w = Inr w'"
  shows "flushed w' = flushed w \<or> (\<exists>l. flushed w' = flushed w @ [(copy_ledger l, wid w)])"
  using assms
proof (cases rule: work_cases)
  case (buffered m q)
  then show ?thesis by (auto dest: buffer_metric_Inr)
next
  case (flushing m q)
  from flush_ledger_Inr[OF flushing(5)] show ?thesis by auto
next
  case (finishing m w1)
  then show ?thesis by (auto dest!: buffer_metric_Inr finish_flush_Inr)
qed simp

lemma copy_copy [simp]: "copy_ledger (copy_ledger l) = copy_ledger l"
  by (simp add: copy_ledger_def)

lemma handed_over_update:
  assumes "handed_over s" "wid w = wid (ag_workers s ! i)" "flushed w = flushed (ag_workers s ! i)"
  shows "handed_over (s\<lparr>ag_workers := (ag_workers s)[i := w]\<rparr>)"
  using assms by (cases "i < length (ag_workers s)") (auto simp: handed_over_def nth_list_update)

lemma handed_over_consume:
  assumes "handed_over s" "agg_consume hash workers push c alloc l (ag_workers s) = Inr ws"
  shows "handed_over (s\<lparr>ag_workers := ws\<rparr>)"
proof -
  from assms(2) have "ws = ag_workers s \<or>
      (\<exists>k m. k < length (ag_workers s) \<and> ws = (ag_workers s)[k := submit push m (ag_workers s ! k)])"
    by (auto simp: agg_consume_def submit_to_def bind_result_Inr_iff split: option.splits if_splits)
  moreover have "wid (submit push m w) = wid w \<and> flushed (submit push m w) = flushed w" for m and w :: "'a worker"
    by (cases "push m (work_queue w)") (simp_all add: submit_def)
  ultimately show ?thesis using assms(1) by (auto intro: handed_over_update)
qed

lemma handed_over_work:
  assumes "handed_over s" "i < length (ag_workers s)" "work_next lexcast pop st start stop i s = Inr s'"
  shows "handed_over s'"
proof -
  from assms(3) obtain w where w: "work lexcast pop st start stop (ag_workers s ! i) = Inr w" and
    s': "s' = s\<lparr>ag_workers := (ag_workers s)[i := w],
          ag_flushers := flush_handed (ag_workers s ! i) w (ag_flushers s)\<rparr>"
    by (auto simp: work_next_def bind_result_Inr_iff)
  have wid: "wid w = int i + 1" using work_frame[OF w] assms(1,2) by (simp add: handed_over_def)
  show ?thesis using work_flushed[OF w]
  proof
    assume "flushed w = flushed (ag_workers s ! i)"
    with assms(1,2) wid show ?thesis
      by (auto simp: s' handed_over_def flush_handed_def nth_list_update)
  next
    assume "\<exists>l. flushed w = flushed (ag_workers s ! i) @ [(copy_ledger l, wid (ag_workers s ! i))]"
    with assms(1,2) wid show ?thesis
      by (auto simp: s' handed_over_def flush_handed_def hand_off_def nth_list_update)
  qed
qed

lemma handed_over_flushers:
  "handed_over s \<Longrightarrow> fl_calls f = fl_calls (ag_flushers s) \<Longrightarrow> handed_over (s\<lparr>ag_flushers := f\<rparr>)"
  by (simp add: handed_over_def)

lemma handed_over_reach:
  assumes "areach lexcast hash workers push pop st c kinds q threads ds cs s"
  shows "handed_over s"
  using assms
proof (induction rule: areach.induct)
  case start
  then show ?case by (simp add: handed_over_def started_simps new_worker_def no_flushers_def)
next
  case (receive ds cs s j bytes)
  then show ?case by (simp add: handed_over_def receive_def)
next
  case (consume ds cs s j l ls alloc s')
  then obtain ws where ws: "agg_consume hash workers push c alloc l (ag_workers s) = Inr ws"
    "s' = s\<lparr>ag_workers := ws, ag_backlog := (ag_backlog s)[j := ls]\<rparr>"
    by (auto simp: consume_next_def bind_result_Inr_iff)
  from handed_over_consume[OF consume.IH ws(1)] show ?case by (simp add: ws(2) handed_over_def)
next
  case (ring ds cs s i)
  then show ?case unfolding change_worker_def by (intro handed_over_update) (simp_all add: interrupt_def)
next
  case (stop ds cs s i)
  then show ?case unfolding change_worker_def by (intro handed_over_update) (simp_all add: stop_worker_def)
next
  case (work ds cs s i start stop s')
  show ?case by (rule handed_over_work[OF work.IH work.hyps(2,5)])
next
  case (leave ds cs s i)
  then show ?case by (intro handed_over_flushers) (simp_all add: leave_def)
next
  case (flusher ds cs s f)
  then show ?case by (intro handed_over_flushers) (simp_all add: flusher_step_calls)
qed

lemma flushers_reach:
  assumes "areach lexcast hash workers push pop st c kinds q threads ds cs s"
  shows "freach kinds (ag_flushers s)"
  using assms
proof (induction rule: areach.induct)
  case (consume ds cs s j l ls alloc s')
  then show ?case using consume_next_backlog[OF consume.hyps(4)] by simp
next
  case (work ds cs s i start stop s')
  then obtain w where w: "work lexcast pop st start stop (ag_workers s ! i) = Inr w"
    "ag_flushers s' = flush_handed (ag_workers s ! i) w (ag_flushers s)"
    by (auto simp: work_next_def bind_result_Inr_iff)
  with work_frame[OF w(1)] freach_from.hand_off[OF work.IH work.hyps(3,4)] work.IH show ?case
    by (simp add: flush_handed_def)
next
  case (leave ds cs s i)
  then show ?case by (auto intro: freach_from.leave)
next
  case (flusher ds cs s f)
  then show ?case using flusher_step_reach[OF flusher.hyps(2)] by simp
qed (simp_all add: started_simps receive_def change_worker_def freach_from.start)

section \<open>Samples\<close>

lemma accepted_clean:
  assumes "areach lexcast hash workers push pop st c kinds q threads ds cs s"
  shows "\<forall>l \<in> set (accepted cs). NUL \<notin> set l"
  using consumed_clean[OF assms] by (auto simp: accepted_def)

lemma worker_samples:
  assumes "fifo_queue cap push pop items" "items q = []" "0 < workers" "workers \<le> int_max"
    and "new_agg_consumer hash (set_name st) workers = Inr c"
    and "plain (set_name st)" "n \<noteq> bad_keys_key (set_name st)"
    and reach: "areach lexcast hash workers push pop st c kinds q threads ds cs s" and i: "i < nat workers"
  shows "\<exists>intervals cur. let w = ag_workers s ! i in
       list_all2 (flush_of lexcast st (int i + 1)) intervals
         (filter (\<lambda>call. snd call = int i + 1) (fl_calls (ag_flushers s)))
       \<and> current_ledger w = buffer_all lexcast (set_name st) cur new_ledger
       \<and> samples lexcast ty n (concat intervals @ cur
           @ (case pending w of None \<Rightarrow> [] | Some m \<Rightarrow> [m]) @ items (work_queue w))
         = (if i = agg_pick hash workers n then samples lexcast ty n (accepted cs) else [])"
proof -
  let ?w = "ag_workers s ! i"
  from workers_reach[OF reach assms(3-5)] i obtain subs where
    r: "reach lexcast push pop st (new_worker (int i + 1) q 0 0 0) subs ?w" and
    a: "accepted subs = shard_stream hash workers (set_name st) (accepted cs) i" and
    len: "length (ag_workers s) = nat workers"
    by (auto simp: worker_runs_def)
  from queue_client.stream_inv_reach[OF fifo_queue_client[OF assms(1)] r refl assms(2)]
  obtain intervals cur where
    acc: "accepted subs = concat intervals @ cur @ (case pending ?w of None \<Rightarrow> [] | Some m \<Rightarrow> [m])
           @ items (work_queue ?w)" and
    cur: "current_ledger ?w = buffer_all lexcast (set_name st) cur new_ledger" and
    ints: "list_all2 (flush_of lexcast st (wid ?w)) intervals (flushed ?w)"
    unfolding stream_inv_def by (elim exE conjE) (rule that; assumption)
  from handed_over_reach[OF reach] i len have "wid ?w = int i + 1"
    "flushed ?w = filter (\<lambda>call. snd call = int i + 1) (fl_calls (ag_flushers s))"
    by (simp_all add: handed_over_def)
  with ints cur shard_samples[OF assms(6,7) accepted_clean[OF reach], of lexcast ty hash workers i]
  show ?thesis
    by (intro exI[of _ intervals] exI[of _ cur]) (simp add: Let_def acc[symmetric] a)
qed

section \<open>Properties\<close>

text \<open>
  C3. From the datagrams to the flushes. In every reachable state of the aggregator, whatever the
  interleaving of its threads: every line of a received datagram has been consumed once or waits
  in the thread that got it; the samples of a name \<open>n\<close> in the lines the queues took are, in
  order, those of the intervals its one worker has handed to flushers, of the interval it is at,
  of the metric in its hand and of its queue, and of no other worker; and what the flushers have
  done is a sequence of whole flushes, each to every backend once, and the part of one more.
\<close>

theorem aggregator_conserves_metrics:
  assumes "fifo_queue cap push pop items" "items q = []" "0 < workers" "workers \<le> int_max"
    and "new_agg_consumer hash (set_name st) workers = Inr c"
    and "plain (set_name st)" "n \<noteq> bad_keys_key (set_name st)"
    and "areach lexcast hash workers push pop st c kinds q threads ds cs s"
  shows "mset (map fst cs) + mset (concat (ag_backlog s)) = mset (concat (map packet_lines ds))
    \<and> (\<forall>i < nat workers. \<exists>intervals cur. let w = ag_workers s ! i in
         list_all2 (flush_of lexcast st (int i + 1)) intervals
           (filter (\<lambda>call. snd call = int i + 1) (fl_calls (ag_flushers s)))
         \<and> current_ledger w = buffer_all lexcast (set_name st) cur new_ledger
         \<and> samples lexcast ty n (concat intervals @ cur
             @ (case pending w of None \<Rightarrow> [] | Some m \<Rightarrow> [m]) @ items (work_queue w))
           = (if i = agg_pick hash workers n then samples lexcast ty n (accepted cs) else []))
    \<and> (\<exists>served. distinct served \<and> set served = returned (ag_flushers s)
         \<and> fl_log (ag_flushers s) = whole kinds served @ under_way kinds (ag_flushers s))"
  using lines_conserved[OF assms(8)] worker_samples[OF assms]
    log_ok_reach[OF flushers_reach[OF assms(8)]]
  unfolding log_ok_def by blast

section \<open>An execution\<close>

text \<open>One worker and one UDP thread: a datagram with one counter line, consumed and buffered.\<close>

definition one_consumer :: agg_consumer where
  "one_consumer = \<lparr>bad_keys_metric = ''st.bad_keys:1|c'', bad_keys_queue_hash = 0\<rparr>"

definition seen_one :: "string list aggregator" where
  "seen_one = \<lparr>ag_workers = [submit (list_push 10000) ''hits:1|c'' (new_worker 1 [] 0 0 0)],
     ag_backlog = [[]], ag_flushers = no_flushers\<rparr>"

lemma seen_one_reached:
  "areach sample_lex (\<lambda>_. 0) 1 (list_push 10000) list_pop settings0 one_consumer kinds [] 1
     [''hits:1|c''] [(''hits:1|c'', True)] seen_one"
proof -
  let ?A = "areach sample_lex (\<lambda>_. 0) 1 (list_push 10000) list_pop settings0 one_consumer kinds [] 1"
  let ?s = "\<lparr>ag_workers = [new_worker 1 [] 0 0 0], ag_backlog = [[''hits:1|c'']], ag_flushers = no_flushers\<rparr>"
  have lines: "packet_lines ''hits:1|c'' = [''hits:1|c'']" by code_simp
  have key: "has_key ''hits:1|c''" "c_str ''hits:1|c'' = ''hits:1|c''" by (simp_all add: has_key_def c_str_def)
  have "?A ([] @ [''hits:1|c'']) [] (receive 0 ''hits:1|c'' (started 1 [] 1))"
    by (rule areach.receive[OF areach.start]) (simp_all add: started_simps max_msg_size_def)
  then have "?A [''hits:1|c''] [] ?s" by (simp add: receive_def started_simps lines)
  then have "?A [''hits:1|c''] ([] @ [(''hits:1|c'',
      line_taken (\<lambda>_. 0) 1 (list_push 10000) (set_name settings0) True ''hits:1|c'' (ag_workers ?s))]) seen_one"
    by (rule areach.consume[where j = 0 and ls = "[]"])
      (simp_all add: consume_next_def agg_consume_def index_mod_def submit_to_def c_str_def seen_one_def)
  moreover have "line_taken (\<lambda>_. 0) 1 (list_push 10000) (set_name settings0) True ''hits:1|c'' (ag_workers ?s)"
    by (simp add: line_taken_def shard_of_def agg_pick_def key new_worker_def list_push_def)
  ultimately show ?thesis by simp
qed

theorem aggregator_conserves_metrics_witness:
  "\<exists>cur. current_ledger (ag_workers seen_one ! 0) = buffer_all sample_lex ''st'' cur new_ledger
    \<and> samples sample_lex Counter ''hits'' (cur @ [''hits:1|c'']) = samples sample_lex Counter ''hits'' [''hits:1|c'']"
proof -
  have c: "new_agg_consumer (\<lambda>_. 0) (set_name settings0) 1 = Inr one_consumer"
    by (simp add: one_consumer_def) code_simp
  from aggregator_conserves_metrics[OF fifo_list_queue refl _ _ c _ _ seen_one_reached[of "[Stdout_Backend]"], of "''hits''" Counter]
  show ?thesis
    by (simp add: plain_def bad_keys_key_def seen_one_def no_flushers_def new_worker_def submit_def list_push_def
        accepted_def agg_pick_def Let_def)
qed

end
