(* ===== verification/Cluster.thy ===== *)
theory Cluster
  imports Proxy_System System
begin

text \<open>
  A proxy and one of the aggregators behind it: \<^verbatim>\<open>src/proxy.cc\<close> and \<^verbatim>\<open>src/aggregator.cc\<close>. The
  network may lose and reorder datagrams but not invent them. Both programs shard by
  \<^verbatim>\<open>std::hash\<close> of the name, so the argument \<open>hash\<close> is one.
\<close>

section \<open>Samples as multisets\<close>

lemma mset_samples:
  "mset (samples lexcast ty n ls) = (\<Sum>l \<in># mset ls. mset (sample_of ty n (parse_metric lexcast l)))"
  by (induction ls) (simp_all add: samples_def)

lemma samples_cong: "mset xs = mset ys \<Longrightarrow> mset (samples lexcast ty n xs) = mset (samples lexcast ty n ys)"
  by (simp add: mset_samples)

declare samples_append [simp]

lemma mset_accepted_rejected: "image_mset fst (mset cs) = mset (accepted cs) + mset (rejected cs)"
  by (induction cs) (auto simp: accepted_def rejected_def)

section \<open>From the proxy to an aggregator\<close>

text \<open>A datagram of the proxy is one line again.\<close>

lemma one_line: "has_key l \<Longrightarrow> NUL \<notin> set l \<Longrightarrow> newline \<notin> set l \<Longrightarrow> packet_lines l = [l]"
  using packet_lines_roundtrip[of "[]" l] by (auto simp: has_key_def)

lemma proxy_sends:
  assumes "fifo_queue cap push pop items" "proxy_fresh items w0"
    and "ppreach matches hash blacklist stdout push pop w0 pthreads pds pcs hs p"
    and "distinct (pw_dests w0)" "i < length (pw_dests w0)"
  shows "sent_to (pw_dests w0 ! i) (pw_sent (pp_worker p))
      = routed (pick_dest hash (length (pw_dests w0))) i (passed matches blacklist hs)"
    and "\<forall>l \<in> set hs. NUL \<notin> set l \<and> newline \<notin> set l"
proof -
  note p = proxy_program_inv[OF assms(1-3)]
  then show "sent_to (pw_dests w0 ! i) (pw_sent (pp_worker p))
      = routed (pick_dest hash (length (pw_dests w0))) i (passed matches blacklist hs)"
    by (simp add: sent_to_datagrams[OF assms(4,5)])
  show "\<forall>l \<in> set hs. NUL \<notin> set l \<and> newline \<notin> set l"
  proof
    fix l
    assume "l \<in> set hs"
    then have "l \<in># mset (accepted pcs)" using p by simp
    then have "l \<in> set (map fst pcs)" by (auto simp: accepted_def)
    from proxy_lines_clean[OF assms(3) this] show "NUL \<notin> set l \<and> newline \<notin> set l" .
  qed
qed

text \<open>The samples of a name in what an aggregator receives, takes, refuses and still holds.\<close>

lemma received_samples:
  assumes "fifo_queue cap push pop items" "proxy_fresh items w0"
    and "ppreach matches hash blacklist stdout push pop w0 pthreads pds pcs hs p"
    and "distinct (pw_dests w0)" "i < length (pw_dests w0)"
    and "areach lexcast hash workers push pop st c kinds q threads ds cs s"
    and "mset ds + mset lost = mset (sent_to (pw_dests w0 ! i) (pw_sent (pp_worker p)))"
  shows "mset (samples lexcast ty n (accepted cs)) + mset (samples lexcast ty n (rejected cs))
      + mset (samples lexcast ty n (concat (ag_backlog s))) + mset (samples lexcast ty n lost)
    = (if i = pick_dest hash (length (pw_dests w0)) n
       then mset (samples lexcast ty n (passed matches blacklist hs)) else {#})"
proof -
  let ?sent = "routed (pick_dest hash (length (pw_dests w0))) i (passed matches blacklist hs)"
  note sent = proxy_sends[OF assms(1-5)]
  have "set ds \<union> set lost = set_mset (mset ds + mset lost)" by simp
  also have "\<dots> = set ?sent" unfolding assms(7) sent(1) by simp
  finally have "packet_lines d = [d]" if "d \<in> set ds" for d
    using that sent(2) by (intro one_line) (auto simp: routed_def passed_def)
  then have "map packet_lines ds = map (\<lambda>d. [d]) ds" by simp
  with lines_conserved[OF assms(6)]
  have "mset (map fst cs) + mset (concat (ag_backlog s)) = mset ds" by (simp add: concat_map_singleton)
  with assms(7) have "mset (accepted cs @ rejected cs @ concat (ag_backlog s) @ lost) = mset ?sent"
    by (simp add: mset_accepted_rejected sent(1) add.assoc[symmetric])
  from samples_cong[OF this, of lexcast ty n] proxy.routed_samples[of "passed matches blacklist hs" lexcast ty n
      hash "length (pw_dests w0)" i] sent(2)
  show ?thesis by (auto simp: passed_def add.assoc)
qed

text \<open>What an aggregator behind the proxy has of a name, worker by worker.\<close>

lemma cluster_samples:
  assumes "fifo_queue cap push pop items" "proxy_fresh items w0"
    and "ppreach matches hash blacklist stdout push pop w0 pthreads pds pcs hs p"
    and "distinct (pw_dests w0)" "i < length (pw_dests w0)"
    and "items q = []" "0 < workers" "workers \<le> int_max"
    and "new_agg_consumer hash (set_name st) workers = Inr c"
    and "plain (set_name st)" "n \<noteq> bad_keys_key (set_name st)"
    and "areach lexcast hash workers push pop st c kinds q threads ds cs s"
    and "mset ds + mset lost = mset (sent_to (pw_dests w0 ! i) (pw_sent (pp_worker p)))"
    and "k < nat workers"
  shows "\<exists>intervals cur. let w = ag_workers s ! k in
       list_all2 (flush_of lexcast st (int k + 1)) intervals
         (filter (\<lambda>call. snd call = int k + 1) (fl_calls (ag_flushers s)))
       \<and> current_ledger w = buffer_all lexcast (set_name st) cur new_ledger
       \<and> mset (samples lexcast ty n (concat intervals @ cur
             @ (case pending w of None \<Rightarrow> [] | Some m \<Rightarrow> [m]) @ items (work_queue w)))
           + (if k = agg_pick hash workers n
              then mset (samples lexcast ty n (rejected cs @ concat (ag_backlog s) @ lost)) else {#})
         = (if k = agg_pick hash workers n \<and> i = pick_dest hash (length (pw_dests w0)) n
            then mset (samples lexcast ty n (passed matches blacklist hs)) else {#})"
proof -
  from worker_samples[OF assms(1,6-12,14), of ty] obtain intervals cur where
    h: "let w = ag_workers s ! k in
         list_all2 (flush_of lexcast st (int k + 1)) intervals
           (filter (\<lambda>call. snd call = int k + 1) (fl_calls (ag_flushers s)))
         \<and> current_ledger w = buffer_all lexcast (set_name st) cur new_ledger
         \<and> samples lexcast ty n (concat intervals @ cur
             @ (case pending w of None \<Rightarrow> [] | Some m \<Rightarrow> [m]) @ items (work_queue w))
           = (if k = agg_pick hash workers n then samples lexcast ty n (accepted cs) else [])" by blast
  from h received_samples[OF assms(1-5,12,13), of ty n] show ?thesis
    by (intro exI[of _ intervals] exI[of _ cur])
      (cases "i = pick_dest hash (length (pw_dests w0)) n";
        simp add: Let_def add.assoc del: samples_append; simp add: add.assoc)
qed

section \<open>Properties\<close>

text \<open>
  C2. From the clients to the backends, through both programs. Let a proxy have received and handled
  what it has, and one of its aggregators have received all but \<open>lost\<close> of the datagrams the
  proxy sent it, each at any moment of its run. Then for every name the worker its hash picks, in the
  aggregator its hash picks, has flushed, buffered or queued all samples of the lines that the
  proxy passed on, except those whose line its queue refused, those not consumed yet and those in
  \<open>lost\<close>; no sample twice, and none at another worker or aggregator.
\<close>

theorem cluster_conserves_metrics:
  assumes "fifo_queue cap push pop items" "proxy_fresh items w0"
    and "ppreach matches hash blacklist stdout push pop w0 pthreads pds pcs hs p"
    and "distinct (pw_dests w0)" "i < length (pw_dests w0)"
    and "items q = []" "0 < workers" "workers \<le> int_max"
    and "new_agg_consumer hash (set_name st) workers = Inr c"
    and "plain (set_name st)" "n \<noteq> bad_keys_key (set_name st)"
    and "areach lexcast hash workers push pop st c kinds q threads ds cs s"
    and "mset ds + mset lost = mset (sent_to (pw_dests w0 ! i) (pw_sent (pp_worker p)))"
  shows "\<forall>k < nat workers. \<exists>intervals cur. let w = ag_workers s ! k in
       list_all2 (flush_of lexcast st (int k + 1)) intervals
         (filter (\<lambda>call. snd call = int k + 1) (fl_calls (ag_flushers s)))
       \<and> current_ledger w = buffer_all lexcast (set_name st) cur new_ledger
       \<and> mset (samples lexcast ty n (concat intervals @ cur
             @ (case pending w of None \<Rightarrow> [] | Some m \<Rightarrow> [m]) @ items (work_queue w)))
           + (if k = agg_pick hash workers n
              then mset (samples lexcast ty n (rejected cs @ concat (ag_backlog s) @ lost)) else {#})
         = (if k = agg_pick hash workers n \<and> i = pick_dest hash (length (pw_dests w0)) n
            then mset (samples lexcast ty n (passed matches blacklist hs)) else {#})"
  using cluster_samples[OF assms] by blast

text \<open>The two choices are made from one hash, so they agree modulo every common divisor.\<close>

lemma picks_agree:
  assumes "0 < workers" "workers \<le> int_max" "m < 2 ^ 64"
  shows "agg_pick hash workers n mod gcd m (nat workers) = pick_dest hash m n mod gcd m (nat workers)"
proof -
  let ?h = "unat (hash n)"
  have "workers < 2 ^ 64" using assms(2) by simp
  with assms(1) have "unat (word_of_int workers :: 64 word) = nat workers"
    by (simp add: unat_eq_nat_uint uint_word_of_int)
  moreover have "unat (of_nat m :: 64 word) = m" using assms(3) by (simp add: unat_of_nat)
  ultimately have "agg_pick hash workers n = ?h mod nat workers" "pick_dest hash m n = ?h mod m"
    by (simp_all add: agg_pick_def pick_dest_def unat_mod)
  then show ?thesis by (simp add: mod_mod_cancel)
qed

text \<open>
  C16. Behind a proxy workers can stand idle. Proxy and aggregator reduce the same hash, so of the workers
  of aggregator \<open>i\<close> only those whose number is \<open>i\<close> modulo the common divisor of the numbers of aggregators
  and of workers ever see a sample: with two aggregators of two workers each, half of them
  have nothing to do.
\<close>

theorem one_hash_idles_workers:
  assumes "fifo_queue cap push pop items" "proxy_fresh items w0"
    and "ppreach matches hash blacklist stdout push pop w0 pthreads pds pcs hs p"
    and "distinct (pw_dests w0)" "i < length (pw_dests w0)"
    and "items q = []" "0 < workers" "workers \<le> int_max"
    and "new_agg_consumer hash (set_name st) workers = Inr c"
    and "plain (set_name st)" "n \<noteq> bad_keys_key (set_name st)"
    and "areach lexcast hash workers push pop st c kinds q threads ds cs s"
    and "mset ds + mset lost = mset (sent_to (pw_dests w0 ! i) (pw_sent (pp_worker p)))"
    and "k < nat workers" "length (pw_dests w0) < 2 ^ 64"
    and "k mod gcd (length (pw_dests w0)) (nat workers) \<noteq> i mod gcd (length (pw_dests w0)) (nat workers)"
  shows "\<exists>intervals cur. let w = ag_workers s ! k in
       list_all2 (flush_of lexcast st (int k + 1)) intervals
         (filter (\<lambda>call. snd call = int k + 1) (fl_calls (ag_flushers s)))
       \<and> current_ledger w = buffer_all lexcast (set_name st) cur new_ledger
       \<and> samples lexcast ty n (concat intervals @ cur
             @ (case pending w of None \<Rightarrow> [] | Some m \<Rightarrow> [m]) @ items (work_queue w)) = []"
proof -
  have "\<not> (k = agg_pick hash workers n \<and> i = pick_dest hash (length (pw_dests w0)) n)"
    using picks_agree[OF assms(7,8,15), of hash n] assms(16) by auto
  with cluster_samples[OF assms(1-14), of ty] show ?thesis
    by (simp add: Let_def cong: conj_cong) (metis empty_not_add_mset union_eq_empty mset_zero_iff)
qed

section \<open>Executions\<close>

text \<open>The proxy's datagram reaches the one worker of the first aggregator.\<close>

lemma forwarded_sent:
  "sent_to (pw_dests proxy0 ! 0) (pw_sent (pp_worker forwarded)) = [''hits:1|c'']"
  by (simp add: forwarded_def proxy0_def sent_to_def)

theorem cluster_conserves_metrics_witness:
  "\<exists>cur. current_ledger (ag_workers seen_one ! 0) = buffer_all sample_lex ''st'' cur new_ledger
    \<and> mset (samples sample_lex Counter ''hits'' (cur @ [''hits:1|c'']))
      = mset (samples sample_lex Counter ''hits'' [''hits:1|c''])"
proof -
  have c: "new_agg_consumer (\<lambda>_. 0) (set_name settings0) 1 = Inr one_consumer"
    by (simp add: one_consumer_def) code_simp
  have "distinct (pw_dests proxy0)" "0 < length (pw_dests proxy0)" by (simp_all add: proxy0_def)
  from cluster_conserves_metrics[OF fifo_list_queue proxy0_fresh forwarded_reached this refl _ _ c _ _
      seen_one_reached, of "''hits''" "[]" Counter]
  show ?thesis
    by (simp add: plain_def bad_keys_key_def seen_one_def no_flushers_def new_worker_def submit_def list_push_def
        accepted_def rejected_def agg_pick_def pick_dest_def passed_def forwarded_sent Let_def) auto
qed

text \<open>The first aggregator with two workers, the second of which sees nothing.\<close>

definition seen_two :: "string list aggregator" where
  "seen_two = \<lparr>ag_workers = [submit (list_push 10000) ''hits:1|c'' (new_worker 1 [] 0 0 0), new_worker 2 [] 0 0 0],
     ag_backlog = [[]], ag_flushers = no_flushers\<rparr>"

lemma seen_two_reached:
  "areach sample_lex (\<lambda>_. 0) 2 (list_push 10000) list_pop settings0 one_consumer [Stdout_Backend] [] 1
     [''hits:1|c''] [(''hits:1|c'', True)] seen_two"
proof -
  let ?A = "areach sample_lex (\<lambda>_. 0) 2 (list_push 10000) list_pop settings0 one_consumer [Stdout_Backend] [] 1"
  let ?s = "\<lparr>ag_workers = [new_worker 1 [] 0 0 0, new_worker 2 [] 0 0 0], ag_backlog = [[''hits:1|c'']],
     ag_flushers = no_flushers\<rparr>"
  have lines: "packet_lines ''hits:1|c'' = [''hits:1|c'']" by code_simp
  have key: "has_key ''hits:1|c''" "c_str ''hits:1|c'' = ''hits:1|c''" by (simp_all add: has_key_def c_str_def)
  have "?A ([] @ [''hits:1|c'']) [] (receive 0 ''hits:1|c'' (started 2 [] 1))"
    by (rule areach.receive[OF areach.start]) (simp_all add: started_simps max_msg_size_def)
  then have "?A [''hits:1|c''] [] ?s" by (simp add: receive_def started_simps lines numeral_2_eq_2)
  then have "?A [''hits:1|c''] ([] @ [(''hits:1|c'',
      line_taken (\<lambda>_. 0) 2 (list_push 10000) (set_name settings0) True ''hits:1|c'' (ag_workers ?s))]) seen_two"
    by (rule areach.consume[where j = 0 and ls = "[]"])
      (simp_all add: consume_next_def agg_consume_def index_mod_def submit_to_def c_str_def seen_two_def)
  moreover have "line_taken (\<lambda>_. 0) 2 (list_push 10000) (set_name settings0) True ''hits:1|c'' (ag_workers ?s)"
    by (simp add: line_taken_def shard_of_def agg_pick_def key new_worker_def list_push_def)
  ultimately show ?thesis by simp
qed

theorem one_hash_idles_workers_witness:
  "\<exists>cur. current_ledger (ag_workers seen_two ! 1) = buffer_all sample_lex ''st'' cur new_ledger
    \<and> samples sample_lex Counter ''hits'' cur = []"
proof -
  have c: "new_agg_consumer (\<lambda>_. 0) (set_name settings0) 2 = Inr one_consumer"
    by (simp add: one_consumer_def) code_simp
  have "distinct (pw_dests proxy0)" "0 < length (pw_dests proxy0)" by (simp_all add: proxy0_def)
  from one_hash_idles_workers[OF fifo_list_queue proxy0_fresh forwarded_reached this refl _ _ c _ _
      seen_two_reached, of "''hits''" "[]" 1 Counter]
  show ?thesis
    by (simp add: plain_def bad_keys_key_def seen_two_def no_flushers_def new_worker_def forwarded_sent
        Let_def) (auto simp: proxy0_def)
qed

end
