(* ===== verification/Clock.thy ===== *)
theory Clock
  imports Routing
begin

text \<open>
  The clock thread, \<^verbatim>\<open>include/statsdcc/clock.h\<close>: it sleeps on a condition variable for the flush
  interval and then interrupts every worker, until its destructor stops it. The destructor's two
  statements and the thread's steps interleave.
\<close>

section \<open>State and steps\<close>

text \<open>
  Where the clock thread is: before the test of \<^verbatim>\<open>done\<close>, between it and the wait, inside
  \<^verbatim>\<open>wait_for\<close>, in the loop over the workers with \<open>k\<close> interrupted, or at its end. The destructor sets \<^verbatim>\<open>done\<close>, then notifies, then
  joins the thread. \<open>ck_rung\<close> lists the workers interrupted so far; \<open>ck_late\<close> counts the rounds
  begun since \<^verbatim>\<open>done\<close> was set.
\<close>

datatype clock_stage = Testing | Entering | Sleeping | Ringing nat | Ended

datatype stopping = Running | Done_set | Notified

record 'q clock =
  ck_stage :: clock_stage
  ck_stopping :: stopping
  ck_workers :: "'q worker list"
  ck_rung :: "nat list"
  ck_late :: nat

definition new_clock :: "'q worker list \<Rightarrow> 'q clock" where
  "new_clock ws = \<lparr>ck_stage = Testing, ck_stopping = Running, ck_workers = ws, ck_rung = [], ck_late = 0\<rparr>"

definition clock_test :: "'q clock \<Rightarrow> 'q clock" where
  "clock_test s = s\<lparr>ck_stage := (if ck_stopping s = Running then Entering else Ended)\<rparr>"

definition clock_sleep :: "'q clock \<Rightarrow> 'q clock" where
  "clock_sleep s = s\<lparr>ck_stage := Sleeping\<rparr>"

text \<open>\<^verbatim>\<open>wait_for\<close> without a predicate returns after the interval, on a notification, or for no reason.\<close>

definition clock_wake :: "'q clock \<Rightarrow> 'q clock" where
  "clock_wake s = s\<lparr>ck_stage := Ringing 0, ck_late := ck_late s + (if ck_stopping s = Running then 0 else 1)\<rparr>"

definition clock_ring :: "nat \<Rightarrow> 'q clock \<Rightarrow> 'q clock" where
  "clock_ring k s =
     (if k < length (ck_workers s)
      then s\<lparr>ck_workers := (ck_workers s)[k := interrupt (ck_workers s ! k)], ck_rung := ck_rung s @ [k],
             ck_stage := Ringing (Suc k)\<rparr>
      else s\<lparr>ck_stage := Testing\<rparr>)"

definition clock_set_done :: "'q clock \<Rightarrow> 'q clock" where
  "clock_set_done s = s\<lparr>ck_stopping := Done_set\<rparr>"

text \<open>\<^verbatim>\<open>notify_one\<close> wakes the thread if it is waiting, and is lost if it is not.\<close>

definition clock_notify :: "'q clock \<Rightarrow> 'q clock" where
  "clock_notify s = (if ck_stage s = Sleeping then clock_wake (s\<lparr>ck_stopping := Notified\<rparr>)
     else s\<lparr>ck_stopping := Notified\<rparr>)"

inductive creach_from :: "'q clock \<Rightarrow> 'q clock \<Rightarrow> bool" for s0 where
  start: "creach_from s0 s0"
| test: "creach_from s0 s \<Longrightarrow> ck_stage s = Testing \<Longrightarrow> creach_from s0 (clock_test s)"
| sleep: "creach_from s0 s \<Longrightarrow> ck_stage s = Entering \<Longrightarrow> creach_from s0 (clock_sleep s)"
| wake: "creach_from s0 s \<Longrightarrow> ck_stage s = Sleeping \<Longrightarrow> creach_from s0 (clock_wake s)"
| ring: "creach_from s0 s \<Longrightarrow> ck_stage s = Ringing k \<Longrightarrow> creach_from s0 (clock_ring k s)"
| set_done: "creach_from s0 s \<Longrightarrow> ck_stopping s = Running \<Longrightarrow> creach_from s0 (clock_set_done s)"
| notify: "creach_from s0 s \<Longrightarrow> ck_stopping s = Done_set \<Longrightarrow> creach_from s0 (clock_notify s)"

abbreviation creach :: "'q worker list \<Rightarrow> 'q clock \<Rightarrow> bool" where
  "creach ws \<equiv> creach_from (new_clock ws)"

lemma creach_from_trans: "creach_from s1 s2 \<Longrightarrow> creach_from s0 s1 \<Longrightarrow> creach_from s0 s2"
  by (induction rule: creach_from.induct) (auto intro: creach_from.intros)

lemmas clock_steps = new_clock_def clock_test_def clock_sleep_def clock_wake_def clock_ring_def clock_set_done_def clock_notify_def

section \<open>Rounds\<close>

text \<open>
  The workers are interrupted in rounds, in order, each once per round; at most one round begins
  after \<^verbatim>\<open>done\<close> was set.
\<close>

definition part_of_round :: "'q clock \<Rightarrow> nat list" where
  "part_of_round s = (case ck_stage s of Ringing k \<Rightarrow> [0..<k] | _ \<Rightarrow> [])"

definition rounds_ok :: "'q worker list \<Rightarrow> 'q clock \<Rightarrow> bool" where
  "rounds_ok ws s = (length (ck_workers s) = length ws
     \<and> (\<forall>k. ck_stage s = Ringing k \<longrightarrow> k \<le> length ws)
     \<and> (\<exists>r. ck_rung s = concat (replicate r [0..<length ws]) @ part_of_round s))"

lemma concat_replicate_snoc: "concat (replicate (Suc r) xs) = concat (replicate r xs) @ xs"
  by (induction r) simp_all

lemma rounds_ok_reach: "creach ws s \<Longrightarrow> rounds_ok ws s"
proof (induction rule: creach_from.induct)
  case (ring s k)
  then obtain r where r: "ck_rung s = concat (replicate r [0..<length ws]) @ [0..<k]" "k \<le> length ws"
    "length (ck_workers s) = length ws"
    by (auto simp: rounds_ok_def part_of_round_def)
  show ?case
  proof (cases "k < length ws")
    case True
    with r show ?thesis by (auto simp: rounds_ok_def clock_ring_def part_of_round_def)
  next
    case False
    with r have "ck_rung s = concat (replicate (Suc r) [0..<length ws])"
      by (simp only: concat_replicate_snoc) simp
    with False r(3) show ?thesis
      by (auto simp: rounds_ok_def clock_ring_def part_of_round_def simp del: replicate_Suc)
  qed
next
  case start
  then show ?case by (auto simp: rounds_ok_def new_clock_def part_of_round_def intro: exI[of _ 0])
qed (auto simp: rounds_ok_def part_of_round_def clock_steps)

definition late_ok :: "'q clock \<Rightarrow> bool" where
  "late_ok s = (ck_late s \<le> 1 \<and> (ck_stopping s = Running \<longrightarrow> ck_late s = 0)
     \<and> (ck_late s = 1 \<longrightarrow> ck_stage s \<noteq> Sleeping \<and> ck_stage s \<noteq> Entering) \<and> (ck_stage s = Ended \<longrightarrow> ck_stopping s \<noteq> Running))"

lemma late_ok_reach: "creach ws s \<Longrightarrow> late_ok s"
  by (induction rule: creach_from.induct) (auto simp: late_ok_def clock_steps le_Suc_eq)

text \<open>What is left of the thread once \<^verbatim>\<open>done\<close> is set: at most a sleep, a round, and the test.\<close>

fun clock_left :: "nat \<Rightarrow> clock_stage \<Rightarrow> nat" where
  "clock_left n Entering = n + 4"
| "clock_left n Sleeping = n + 3"
| "clock_left n (Ringing k) = (n - k) + 2"
| "clock_left n Testing = 1"
| "clock_left n Ended = 0"

lemma clock_advances:
  assumes "length (ck_workers s) = n" "ck_stopping s \<noteq> Running" "ck_stage s \<noteq> Ended"
  shows "\<exists>s'. creach_from s s' \<and> ck_stopping s' = ck_stopping s
    \<and> clock_left n (ck_stage s') < clock_left n (ck_stage s)"
proof (cases "ck_stage s")
  case Testing
  from creach_from.test[OF creach_from.start this] assms(2) Testing show ?thesis
    by (intro exI[of _ "clock_test s"]) (simp add: clock_test_def)
next
  case Entering
  from creach_from.sleep[OF creach_from.start this] Entering show ?thesis
    by (intro exI[of _ "clock_sleep s"]) (simp add: clock_sleep_def)
next
  case Sleeping
  from creach_from.wake[OF creach_from.start this] Sleeping show ?thesis
    by (intro exI[of _ "clock_wake s"]) (simp add: clock_wake_def)
next
  case (Ringing k)
  from creach_from.ring[OF creach_from.start this] Ringing assms(1) show ?thesis
    by (intro exI[of _ "clock_ring k s"]) (cases "k < n", simp_all add: clock_ring_def)
qed (use assms(3) in simp)

lemma clock_ends:
  "creach ws s \<Longrightarrow> ck_stopping s \<noteq> Running \<Longrightarrow>
     \<exists>s'. creach_from s s' \<and> ck_stage s' = Ended \<and> ck_stopping s' = ck_stopping s"
proof (induction "clock_left (length ws) (ck_stage s)" arbitrary: s rule: less_induct)
  case less
  show ?case
  proof (cases "ck_stage s = Ended")
    case True
    then show ?thesis using creach_from.start by blast
  next
    case False
    from rounds_ok_reach[OF less.prems(1)] have "length (ck_workers s) = length ws" by (simp add: rounds_ok_def)
    from clock_advances[OF this less.prems(2) False] obtain s1 where
      s1: "creach_from s s1" "ck_stopping s1 = ck_stopping s"
        "clock_left (length ws) (ck_stage s1) < clock_left (length ws) (ck_stage s)" by blast
    from less.hyps[OF s1(3) creach_from_trans[OF s1(1) less.prems(1)]] s1(2) less.prems(2) obtain s2 where
      "creach_from s1 s2" "ck_stage s2 = Ended" "ck_stopping s2 = ck_stopping s" by auto
    with creach_from_trans[OF _ s1(1)] show ?thesis by blast
  qed
qed

section \<open>Properties\<close>

text \<open>
  C18. The clock rings in rounds: the interrupts are whole rounds over all workers, in order, and the
  part of the round under way; after \<^verbatim>\<open>done\<close> was set at most one more round begins; and from each of
  the states in which it is set there is an execution, starting in that state, at whose end the
  thread has ended, which is what the destructor waits for.
\<close>

theorem clock_rings_in_rounds:
  assumes "creach ws s"
  shows "(\<exists>r. ck_rung s = concat (replicate r [0..<length ws]) @ part_of_round s)
    \<and> ck_late s \<le> 1
    \<and> (ck_stopping s \<noteq> Running \<longrightarrow> (\<exists>s'. creach_from s s' \<and> ck_stage s' = Ended \<and> ck_late s' \<le> 1))"
proof -
  have "\<exists>s'. creach_from s s' \<and> ck_stage s' = Ended \<and> ck_late s' \<le> 1" if "ck_stopping s \<noteq> Running"
    using clock_ends[OF assms that] late_ok_reach[OF creach_from_trans[OF _ assms]] by (auto simp: late_ok_def)
  with rounds_ok_reach[OF assms] late_ok_reach[OF assms] show ?thesis
    unfolding rounds_ok_def late_ok_def by blast
qed

text \<open>
  The notification of the destructor can be lost: it can come after the thread has seen \<^verbatim>\<open>done\<close>
  unset and before it waits. Then the thread sleeps for the whole interval, and the shutdown
  waits for it.
\<close>

theorem stop_can_miss_the_clock:
  "\<exists>s. creach ws s \<and> ck_stopping s = Notified \<and> ck_stage s = Sleeping"
proof -
  let ?s = "clock_sleep (clock_notify (clock_set_done (clock_test (new_clock ws))))"
  have "creach ws (clock_test (new_clock ws))" by (rule creach_from.test[OF creach_from.start]) (simp add: new_clock_def)
  then have "creach ws (clock_set_done (clock_test (new_clock ws)))"
    by (rule creach_from.set_done) (simp add: clock_steps)
  then have "creach ws (clock_notify (clock_set_done (clock_test (new_clock ws))))"
    by (rule creach_from.notify) (simp add: clock_steps)
  then have "creach ws ?s" by (rule creach_from.sleep) (simp add: clock_steps)
  then show ?thesis by (intro exI[of _ ?s]) (simp add: clock_steps)
qed

section \<open>An execution\<close>

definition rung_once :: "string list clock" where
  "rung_once = clock_ring 0 (clock_wake (clock_sleep (clock_test (new_clock [worker0]))))"

theorem clock_rings_in_rounds_witness: "ck_rung rung_once = [0] \<and> ck_late rung_once \<le> 1"
proof -
  have "creach [worker0] rung_once" unfolding rung_once_def
    by (rule creach_from.ring creach_from.wake creach_from.sleep creach_from.test creach_from.start | simp add: clock_steps)+
  from clock_rings_in_rounds[OF this] show ?thesis by (simp add: rung_once_def clock_steps)
qed

end
