(* ===== verification/Teardown.thy ===== *)
theory Teardown
  imports Prelude
begin

text \<open>
  What a destructor does while the thread of the object still runs: the workers of
  \<^verbatim>\<open>include/statsdcc/workers/aggregator/worker.h\<close> and \<^verbatim>\<open>workers/proxy/worker.h\<close> and the clock of
  \<^verbatim>\<open>clock.h\<close>. The body of each destructor sets \<^verbatim>\<open>done\<close>; then the members are destroyed in the
  reverse order of their declaration, and the one that holds the thread guard waits for the
  thread. What matters is which members the thread uses and where the guard stands among them.
\<close>

section \<open>Members and threads\<close>

datatype member =
    Metrics_dropped | Metrics_rate | Frequency | Bad_lines_seen | Worker_id | Thread_guard | Done_flag
  | Work_queue | Lmut | Fmut | Current_ledger | Backend_container | Interrupt_flag
  | Sockfd | Destinations | Done_cond

text \<open>
  A thread is at a point of its loop; the step it takes there uses members and leads to one of
  some points, which depend on \<^verbatim>\<open>done\<close> only where it is tested. \<open>td_dead\<close> lists the uses of members that
  had been destroyed.
\<close>

record 'p teardown =
  td_done :: bool
  td_alive :: "member list"
  td_at :: "'p list"
  td_dead :: "member list"

text \<open>Members with nothing to destroy, which stay usable until the storage of the object goes: numbers and atomics.\<close>

fun trivial :: "member \<Rightarrow> bool" where
  "trivial Metrics_dropped = True"
| "trivial Metrics_rate = True"
| "trivial Bad_lines_seen = True"
| "trivial Worker_id = True"
| "trivial Done_flag = True"
| "trivial Interrupt_flag = True"
| "trivial Sockfd = True"
| "trivial m = False"

definition new_teardown :: "member list \<Rightarrow> 'p list \<Rightarrow> 'p teardown" where
  "new_teardown members ps = \<lparr>td_done = False, td_alive = members, td_at = ps, td_dead = []\<rparr>"

definition td_step :: "('p \<Rightarrow> member list) \<Rightarrow> nat \<Rightarrow> 'p \<Rightarrow> 'p teardown \<Rightarrow> 'p teardown" where
  "td_step uses i p' s =
     s\<lparr>td_at := (td_at s)[i := p'],
       td_dead := td_dead s @ filter (\<lambda>m. m \<notin> set (td_alive s) \<and> \<not> trivial m) (uses (td_at s ! i))\<rparr>"

definition td_body :: "'p teardown \<Rightarrow> 'p teardown" where
  "td_body s = s\<lparr>td_done := True\<rparr>"

definition td_destroy :: "'p teardown \<Rightarrow> 'p teardown" where
  "td_destroy s = s\<lparr>td_alive := butlast (td_alive s)\<rparr>"

inductive treach ::
  "('p \<Rightarrow> member list) \<Rightarrow> ('p \<Rightarrow> bool \<Rightarrow> 'p list) \<Rightarrow> 'p teardown \<Rightarrow> 'p teardown \<Rightarrow> bool"
  for uses succs s0
where
  start: "treach uses succs s0 s0"
| thread: "treach uses succs s0 s \<Longrightarrow> i < length (td_at s) \<Longrightarrow> p' \<in> set (succs (td_at s ! i) (td_done s)) \<Longrightarrow>
    treach uses succs s0 (td_step uses i p' s)"
| body: "treach uses succs s0 s \<Longrightarrow> \<not> td_done s \<Longrightarrow> treach uses succs s0 (td_body s)"
| destroy: "treach uses succs s0 s \<Longrightarrow> td_done s \<Longrightarrow> td_alive s \<noteq> [] \<Longrightarrow> last (td_alive s) \<noteq> Thread_guard \<Longrightarrow>
    treach uses succs s0 (td_destroy s)"
| join: "treach uses succs s0 s \<Longrightarrow> td_done s \<Longrightarrow> td_alive s \<noteq> [] \<Longrightarrow> last (td_alive s) = Thread_guard \<Longrightarrow>
    \<forall>p \<in> set (td_at s). succs p True = [] \<Longrightarrow> treach uses succs s0 (td_destroy s)"

lemmas teardown_steps = new_teardown_def td_step_def td_body_def td_destroy_def

lemma td_destroy_simps:
  "td_done (td_destroy s) = td_done s" "td_at (td_destroy s) = td_at s" "td_dead (td_destroy s) = td_dead s"
  "td_alive s = take k members \<Longrightarrow> k \<le> length members \<Longrightarrow> td_alive (td_destroy s) = take (k - 1) members"
  by (simp_all add: td_destroy_def butlast_take)

lemma treach_trans: "treach uses succs s1 s2 \<Longrightarrow> treach uses succs s0 s1 \<Longrightarrow> treach uses succs s0 s2"
  by (induction rule: treach.induct) (auto intro: treach.intros)

lemma treach_dead_mono: "treach uses succs s s' \<Longrightarrow> set (td_dead s) \<subseteq> set (td_dead s')"
  by (induction rule: treach.induct) (auto simp: td_step_def td_body_def td_destroy_def)

section \<open>The three classes\<close>

text \<open>The worker of the aggregator: members in the order of their declaration, and its loop.\<close>

definition worker_members :: "member list" where
  "worker_members = [Metrics_dropped, Metrics_rate, Frequency, Bad_lines_seen, Worker_id, Thread_guard,
     Done_flag, Work_queue, Lmut, Fmut, Current_ledger, Backend_container, Interrupt_flag]"

datatype worker_point =
    W_test | W_pop | W_flag | W_process | W_hand_off | W_bad_lines | W_frequency | W_new_ledger | W_clear
  | W_buffer | W_end

fun worker_uses :: "worker_point \<Rightarrow> member list" where
  "worker_uses W_test = [Done_flag]"
| "worker_uses W_pop = [Work_queue]"
| "worker_uses W_flag = [Interrupt_flag]"
| "worker_uses W_process = [Current_ledger]"
| "worker_uses W_hand_off = [Backend_container, Current_ledger, Worker_id]"
| "worker_uses W_bad_lines = [Bad_lines_seen, Current_ledger]"
| "worker_uses W_frequency = [Current_ledger, Fmut, Frequency]"
| "worker_uses W_new_ledger = [Current_ledger]"
| "worker_uses W_clear = [Metrics_rate, Interrupt_flag]"
| "worker_uses W_buffer = [Current_ledger]"
| "worker_uses W_end = []"

fun worker_next :: "worker_point \<Rightarrow> bool \<Rightarrow> worker_point list" where
  "worker_next W_test stop = (if stop then [W_end] else [W_pop])"
| "worker_next W_pop stop = [W_test, W_flag]"
| "worker_next W_flag stop = [W_process, W_buffer]"
| "worker_next W_process stop = [W_hand_off]"
| "worker_next W_hand_off stop = [W_bad_lines]"
| "worker_next W_bad_lines stop = [W_frequency]"
| "worker_next W_frequency stop = [W_new_ledger]"
| "worker_next W_new_ledger stop = [W_clear]"
| "worker_next W_clear stop = [W_buffer]"
| "worker_next W_buffer stop = [W_test]"
| "worker_next W_end stop = []"

text \<open>
  The worker of the proxy, whose threads share one vector of guards. The blacklist and \<^verbatim>\<open>stdout\<close>
  are in the global configuration.
\<close>

definition proxy_members :: "member list" where
  "proxy_members = [Metrics_dropped, Bad_lines_seen, Done_flag, Work_queue, Sockfd, Destinations, Thread_guard]"

datatype proxy_point = P_test | P_pop | P_blacklist | P_dests | P_send | P_bad | P_end

fun proxy_uses :: "proxy_point \<Rightarrow> member list" where
  "proxy_uses P_test = [Done_flag]"
| "proxy_uses P_pop = [Work_queue]"
| "proxy_uses P_blacklist = []"
| "proxy_uses P_dests = [Destinations]"
| "proxy_uses P_send = [Destinations, Sockfd]"
| "proxy_uses P_bad = [Bad_lines_seen]"
| "proxy_uses P_end = []"

fun proxy_next :: "proxy_point \<Rightarrow> bool \<Rightarrow> proxy_point list" where
  "proxy_next P_test stop = (if stop then [P_end] else [P_pop])"
| "proxy_next P_pop stop = [P_test, P_blacklist]"
| "proxy_next P_blacklist stop = [P_test, P_dests]"
| "proxy_next P_dests stop = [P_test, P_send, P_bad]"
| "proxy_next P_send stop = [P_test]"
| "proxy_next P_bad stop = [P_test]"
| "proxy_next P_end stop = []"

text \<open>The clock; the workers it interrupts are a global vector.\<close>

definition clock_members :: "member list" where
  "clock_members = [Done_cond, Thread_guard, Done_flag]"

datatype clock_point = C_test | C_sleep | C_ring | C_end

fun clock_uses :: "clock_point \<Rightarrow> member list" where
  "clock_uses C_test = [Done_flag]"
| "clock_uses C_sleep = [Done_cond]"
| "clock_uses C_ring = []"
| "clock_uses C_end = []"

fun clock_next :: "clock_point \<Rightarrow> bool \<Rightarrow> clock_point list" where
  "clock_next C_test stop = (if stop then [C_end] else [C_sleep])"
| "clock_next C_sleep stop = [C_ring]"
| "clock_next C_ring stop = [C_ring, C_test]"
| "clock_next C_end stop = []"

section \<open>Objects whose guard is destroyed in time\<close>

text \<open>A thread always has a way to its end once \<^verbatim>\<open>done\<close> is set; \<open>way\<close> counts its steps.\<close>

locale ending_thread =
  fixes uses :: "'p \<Rightarrow> member list" and succs :: "'p \<Rightarrow> bool \<Rightarrow> 'p list" and way :: "'p \<Rightarrow> nat"
  assumes way_out: "succs p True \<noteq> [] \<Longrightarrow> \<exists>p' \<in> set (succs p True). way p' < way p"
begin

lemma threads_end:
  assumes "treach uses succs s0 s" "td_done s"
  shows "\<exists>s'. treach uses succs s0 s' \<and> td_done s' \<and> td_alive s' = td_alive s
    \<and> (\<forall>p \<in> set (td_at s'). succs p True = [])"
  using assms
proof (induction "sum_list (map way (td_at s))" arbitrary: s rule: less_induct)
  case less
  show ?case
  proof (cases "\<forall>p \<in> set (td_at s). succs p True = []")
    case False
    then obtain i where i: "i < length (td_at s)" "succs (td_at s ! i) True \<noteq> []" by (auto simp: in_set_conv_nth)
    from way_out[OF i(2)] obtain p' where p': "p' \<in> set (succs (td_at s ! i) True)" "way p' < way (td_at s ! i)"
      by blast
    let ?s = "td_step uses i p' s"
    have r: "treach uses succs s0 ?s" using treach.thread[OF less.prems(1) i(1)] p'(1) less.prems(2) by simp
    have "sum_list (map way (td_at ?s)) < sum_list (map way (td_at s))"
      using i(1) p'(2) elem_le_sum_list[of i "map way (td_at s)"]
      by (simp add: td_step_def map_update sum_list_update)
    from less.hyps[OF this r] less.prems(2) show ?thesis by (simp add: td_step_def)
  qed (use less.prems in blast)
qed

text \<open>So the destructor can always run to its end.\<close>

lemma teardown_ends:
  assumes "treach uses succs s0 s"
  shows "\<exists>s'. treach uses succs s0 s' \<and> td_alive s' = []"
proof -
  have "\<exists>s1. treach uses succs s0 s1 \<and> td_done s1"
  proof (cases "td_done s")
    case False
    from treach.body[OF assms False] show ?thesis by (intro exI[of _ "td_body s"]) (simp add: td_body_def)
  qed (use assms in blast)
  then obtain s1 where "treach uses succs s0 s1" "td_done s1" by blast
  from threads_end[OF this] obtain s2 where
    s2: "treach uses succs s0 s2" "td_done s2" "\<forall>p \<in> set (td_at s2). succs p True = []" by blast
  then show ?thesis
  proof (induction "length (td_alive s2)" arbitrary: s2)
    case (Suc n)
    then have ne: "td_alive s2 \<noteq> []" by auto
    have "treach uses succs s0 (td_destroy s2)"
      using treach.destroy[OF Suc.prems(1,2) ne] treach.join[OF Suc.prems(1,2) ne _ Suc.prems(3)] by blast
    then show ?case
      using Suc.hyps(1)[of "td_destroy s2"] Suc.hyps(2) Suc.prems(2,3) by (simp add: td_destroy_def)
  qed auto
qed

end

text \<open>
  And the members its steps use are declared before the guard, or have nothing to destroy. A
  thread at its end stays there.
\<close>

locale timely_guard = ending_thread uses succs way
  for uses :: "'p \<Rightarrow> member list" and succs :: "'p \<Rightarrow> bool \<Rightarrow> 'p list" and way :: "'p \<Rightarrow> nat" +
  fixes earlier :: "member list" and later :: "member list"
  assumes uses_earlier: "m \<in> set (uses p) \<Longrightarrow> trivial m \<or> m \<in> set earlier"
    and one_guard: "Thread_guard \<notin> set earlier" "Thread_guard \<notin> set later"
    and end_stays: "succs p True = [] \<Longrightarrow> succs p stop = []"
begin

definition guarded :: "'p teardown \<Rightarrow> bool" where
  "guarded s = (td_dead s = [] \<and> (\<exists>k \<le> length (earlier @ Thread_guard # later).
     td_alive s = take k (earlier @ Thread_guard # later)
     \<and> (k \<le> length earlier \<longrightarrow> (\<forall>p \<in> set (td_at s). succs p True = []))))"

lemma guarded_reach:
  assumes "treach uses succs (new_teardown (earlier @ Thread_guard # later) ps) s"
  shows "guarded s"
  using assms
proof (induction rule: treach.induct)
  case start
  show ?case unfolding guarded_def
    by (intro conjI exI[of _ "length (earlier @ Thread_guard # later)"]) (simp_all add: new_teardown_def)
next
  case (thread s i p')
  from thread.IH obtain k where k: "k \<le> length (earlier @ Thread_guard # later)" "td_dead s = []"
    "td_alive s = take k (earlier @ Thread_guard # later)"
    "k \<le> length earlier \<Longrightarrow> \<forall>p \<in> set (td_at s). succs p True = []"
    unfolding guarded_def by blast
  have "\<not> k \<le> length earlier"
  proof
    assume "k \<le> length earlier"
    with k(4) thread.hyps(2) have "succs (td_at s ! i) True = []" by simp
    from end_stays[OF this] thread.hyps(3) show False by simp
  qed
  moreover from this have "set earlier \<subseteq> set (td_alive s)" by (auto simp: k(3))
  then have "filter (\<lambda>m. m \<notin> set (td_alive s) \<and> \<not> trivial m) (uses (td_at s ! i)) = []"
    using uses_earlier by (fastforce simp: filter_empty_conv)
  ultimately show ?case
    using k unfolding guarded_def by (intro conjI exI[of _ k]) (simp_all add: td_step_def)
next
  case (body s)
  then show ?case by (simp add: guarded_def td_body_def)
next
  case (destroy s)
  then obtain k where k: "k \<le> length (earlier @ Thread_guard # later)" "td_dead s = []"
    "td_alive s = take k (earlier @ Thread_guard # later)"
    "k \<le> length earlier \<Longrightarrow> \<forall>p \<in> set (td_at s). succs p True = []"
    unfolding guarded_def by blast
  have "k \<noteq> Suc (length earlier)" using destroy.hyps(4) k(3) by auto
  then show ?case
    using k unfolding guarded_def
    by (intro conjI exI[of _ "k - 1"]) (auto simp: td_destroy_simps(1,2,3) td_destroy_simps(4)[OF k(3,1)] simp del: take_append)
next
  case (join s)
  then obtain k where k: "k \<le> length (earlier @ Thread_guard # later)" "td_dead s = []"
    "td_alive s = take k (earlier @ Thread_guard # later)"
    unfolding guarded_def by blast
  with join.hyps(5) show ?case
    unfolding guarded_def by (intro conjI exI[of _ "k - 1"])
      (auto simp: td_destroy_simps(1,2,3) td_destroy_simps(4)[OF k(3,1)] simp del: take_append)
qed

lemma nothing_dead_used:
  "treach uses succs (new_teardown (earlier @ Thread_guard # later) ps) s \<Longrightarrow> td_dead s = []"
  using guarded_reach by (simp add: guarded_def)

end

section \<open>The classes as instances\<close>

fun proxy_way :: "proxy_point \<Rightarrow> nat" where
  "proxy_way P_end = 0"
| "proxy_way P_test = 1"
| "proxy_way p = 2"

interpretation proxy_guard: timely_guard proxy_uses proxy_next proxy_way
    "[Metrics_dropped, Bad_lines_seen, Done_flag, Work_queue, Sockfd, Destinations]" "[]"
proof
  fix p stop m
  show "proxy_next p True \<noteq> [] \<Longrightarrow> \<exists>p' \<in> set (proxy_next p True). proxy_way p' < proxy_way p"
    by (cases p) auto
  show "m \<in> set (proxy_uses p) \<Longrightarrow> trivial m
      \<or> m \<in> set [Metrics_dropped, Bad_lines_seen, Done_flag, Work_queue, Sockfd, Destinations]"
    by (cases p) auto
  show "proxy_next p True = [] \<Longrightarrow> proxy_next p stop = []" by (cases p) auto
qed auto

fun clock_way :: "clock_point \<Rightarrow> nat" where
  "clock_way C_end = 0"
| "clock_way C_test = 1"
| "clock_way C_ring = 2"
| "clock_way C_sleep = 3"

interpretation clock_guard: timely_guard clock_uses clock_next clock_way "[Done_cond]" "[Done_flag]"
proof
  fix p stop m
  show "clock_next p True \<noteq> [] \<Longrightarrow> \<exists>p' \<in> set (clock_next p True). clock_way p' < clock_way p"
    by (cases p) auto
  show "m \<in> set (clock_uses p) \<Longrightarrow> trivial m \<or> m \<in> set [Done_cond]" by (cases p) auto
  show "clock_next p True = [] \<Longrightarrow> clock_next p stop = []" by (cases p) auto
qed auto

fun worker_way :: "worker_point \<Rightarrow> nat" where
  "worker_way W_end = 0"
| "worker_way W_test = 1"
| "worker_way W_pop = 2"
| "worker_way W_buffer = 2"
| "worker_way W_flag = 3"
| "worker_way W_clear = 3"
| "worker_way W_new_ledger = 4"
| "worker_way W_frequency = 5"
| "worker_way W_bad_lines = 6"
| "worker_way W_hand_off = 7"
| "worker_way W_process = 8"

interpretation worker_end: ending_thread worker_uses worker_next worker_way
proof
  fix p
  show "worker_next p True \<noteq> [] \<Longrightarrow> \<exists>p' \<in> set (worker_next p True). worker_way p' < worker_way p"
    by (cases p) auto
qed

lemma worker_teardown_ends:
  "treach worker_uses worker_next s0 s \<Longrightarrow> \<exists>s'. treach worker_uses worker_next s0 s' \<and> td_alive s' = []"
  by (rule worker_end.teardown_ends)

section \<open>Properties\<close>

text \<open>
  C19. The proxy's worker, with any number of threads, and the clock are destroyed safely: whenever
  the destructor starts and however its steps and those of the threads interleave, no thread
  uses a member that was destroyed, and each state they reach can be continued, from that state
  on, to one in which the destructor has come to its end.
\<close>

theorem guards_joined_in_time:
  "(\<forall>ps s. treach proxy_uses proxy_next (new_teardown proxy_members ps) s \<longrightarrow> td_dead s = []
      \<and> (\<exists>s'. treach proxy_uses proxy_next s s' \<and> td_alive s' = [] \<and> td_dead s' = []))
    \<and> (\<forall>ps s. treach clock_uses clock_next (new_teardown clock_members ps) s \<longrightarrow> td_dead s = []
      \<and> (\<exists>s'. treach clock_uses clock_next s s' \<and> td_alive s' = [] \<and> td_dead s' = []))"
proof -
  have "td_dead s = [] \<and> (\<exists>s'. treach proxy_uses proxy_next s s' \<and> td_alive s' = [] \<and> td_dead s' = [])"
    if r: "treach proxy_uses proxy_next (new_teardown proxy_members ps) s" for ps s
    using proxy_guard.nothing_dead_used r proxy_guard.teardown_ends[OF treach.start, of s]
      treach_trans[OF _ r] by (simp add: proxy_members_def) blast
  moreover have "td_dead s = [] \<and> (\<exists>s'. treach clock_uses clock_next s s' \<and> td_alive s' = [] \<and> td_dead s' = [])"
    if r: "treach clock_uses clock_next (new_teardown clock_members ps) s" for ps s
    using clock_guard.nothing_dead_used r clock_guard.teardown_ends[OF treach.start, of s]
      treach_trans[OF _ r] by (simp add: clock_members_def) blast
  ultimately show ?thesis by blast
qed

text \<open>The aggregator's worker after a test of \<^verbatim>\<open>done\<close> and six members destroyed.\<close>

definition half_destroyed :: "worker_point teardown" where
  "half_destroyed = td_destroy (td_destroy (td_destroy (td_destroy (td_destroy (td_destroy
     (td_body (td_step worker_uses 0 W_pop (new_teardown worker_members [W_test]))))))))"

lemma half_destroyed_reached: "treach worker_uses worker_next (new_teardown worker_members [W_test]) half_destroyed"
  unfolding half_destroyed_def
  by (rule treach.destroy treach.body treach.thread treach.start
      | simp add: teardown_steps worker_members_def)+

text \<open>
  C40. In the aggregator's worker the guard is declared before the queue and the ledger, so they are
  destroyed while the thread runs: the destructor can come to its end after the thread has
  popped from the destroyed queue.
\<close>

theorem worker_outlives_its_queue:
  "\<exists>s. treach worker_uses worker_next (new_teardown worker_members [W_test]) s
     \<and> Work_queue \<in> set (td_dead s) \<and> td_alive s = []"
proof -
  let ?s = "td_step worker_uses 0 W_test half_destroyed"
  have r: "treach worker_uses worker_next (new_teardown worker_members [W_test]) ?s"
    by (rule treach.thread[OF half_destroyed_reached])
      (simp_all add: half_destroyed_def teardown_steps worker_members_def)
  have d: "Work_queue \<in> set (td_dead ?s)"
    by (simp add: half_destroyed_def teardown_steps worker_members_def)
  from worker_teardown_ends[OF treach.start, of ?s] obtain s' where
    "treach worker_uses worker_next ?s s'" "td_alive s' = []" by blast
  with treach_trans[OF _ r] treach_dead_mono d show ?thesis by blast
qed

section \<open>Executions\<close>

text \<open>A proxy that is stopped between a pop and the blacklist, a clock that is stopped while it sleeps.\<close>

definition stopped_proxy :: "proxy_point teardown" where
  "stopped_proxy = td_step proxy_uses 1 P_blacklist (td_body (td_step proxy_uses 1 P_pop
     (new_teardown proxy_members [P_test, P_test])))"

lemma stopped_proxy_reached: "treach proxy_uses proxy_next (new_teardown proxy_members [P_test, P_test]) stopped_proxy"
  unfolding stopped_proxy_def
  by (rule treach.body treach.thread treach.start | simp add: teardown_steps)+

definition stopped_clock :: "clock_point teardown" where
  "stopped_clock = td_step clock_uses 0 C_ring (td_destroy (td_body (td_step clock_uses 0 C_sleep
     (new_teardown clock_members [C_test]))))"

lemma stopped_clock_reached: "treach clock_uses clock_next (new_teardown clock_members [C_test]) stopped_clock"
  unfolding stopped_clock_def
  by (rule treach.destroy treach.body treach.thread treach.start
      | simp add: teardown_steps clock_members_def)+

theorem guards_joined_in_time_witness:
  "td_dead stopped_proxy = [] \<and> td_dead stopped_clock = []
   \<and> td_alive stopped_clock = [Done_cond, Thread_guard]"
  using guards_joined_in_time stopped_proxy_reached stopped_clock_reached
  by (auto simp: stopped_clock_def teardown_steps clock_members_def)

end
