(* ===== verification/Server_Threads.thy ===== *)
theory Server_Threads
  imports Servers
begin

text \<open>
  The life of a socket server: the base class of \<^verbatim>\<open>include/statsdcc/net/servers/socket/server.h\<close>, the
  constructors that start the threads, \<^verbatim>\<open>lib/net/servers/socket/udp_server.cc\<close> and
  \<^verbatim>\<open>tcp_server.cc\<close>, and what the threads and constructors do with descriptors.
\<close>

section \<open>Starting and joining threads\<close>

text \<open>
  What happens to the threads of a server, in order. Whether the operating system can start
  thread \<open>i\<close> is \<open>up i\<close>; a thread that was started is joinable until it is joined.
\<close>

datatype life = Started nat | Done_flag | Joined nat | Log_failed | Threw

text \<open>\<^verbatim>\<open>~Server\<close>, with the first \<open>n\<close> threads in the vector.\<close>

definition join_threads :: "nat \<Rightarrow> life list" where
  "join_threads n = map Joined [0..<n]"

definition destroy_server :: "nat \<Rightarrow> life list" where
  "destroy_server n = Done_flag # join_threads n"

text \<open>The loop of the UDP constructor: \<open>i\<close> threads are started, \<open>k\<close> are to come.\<close>

fun start_threads :: "(nat \<Rightarrow> bool) \<Rightarrow> nat \<Rightarrow> nat \<Rightarrow> life list \<times> nat \<times> bool" where
  "start_threads up i 0 = ([], i, True)"
| "start_threads up i (Suc k) =
     (if up i then (let (acts, n, all) = start_threads up (Suc i) k in (Started i # acts, n, all))
      else ([], i, False))"

text \<open>
  A constructor that throws leaves its base class constructed, whose destructor runs. The
  number is the one of the threads of a server that was constructed.
\<close>

definition new_udp_server :: "(nat \<Rightarrow> bool) \<Rightarrow> int \<Rightarrow> life list \<times> nat option" where
  "new_udp_server up threads =
     (let (acts, n, all) = start_threads up 0 (nat threads) in
      if all then (acts, Some n)
      else (acts @ [Log_failed, Done_flag] @ destroy_server n @ [Threw], None))"

definition tcp_start_thread :: "bool \<Rightarrow> life list \<times> nat option" where
  "tcp_start_thread up =
     (if up then ([Started 0], Some 1)
      else ([Log_failed, Done_flag] @ destroy_server 0 @ [Threw], None))"

text \<open>A server from its construction to its destruction.\<close>

definition server_life :: "life list \<times> nat option \<Rightarrow> life list" where
  "server_life made = (case made of (acts, None) \<Rightarrow> acts | (acts, Some n) \<Rightarrow> acts @ destroy_server n)"

lemma start_threads_shape:
  "start_threads up i k = (acts, n, all) \<Longrightarrow> acts = map Started [i..<n] \<and> i \<le> n \<and> n \<le> i + k \<and> (all \<longleftrightarrow> n = i + k)
     \<and> (\<forall>j. i \<le> j \<and> j < n \<longrightarrow> up j) \<and> (\<not> all \<longrightarrow> \<not> up n)"
proof (induction k arbitrary: i acts)
  case (Suc k)
  show ?case
  proof (cases "up i")
    case True
    with Suc.prems obtain acts' where a: "start_threads up (Suc i) k = (acts', n, all)" "acts = Started i # acts'"
      by (auto split: prod.split_asm)
    have "up j" if "i \<le> j" "j < n" for j
      using Suc.IH[OF a(1)] True that by (cases "j = i") auto
    with Suc.IH[OF a(1)] a(2) show ?thesis by (auto simp: upt_conv_Cons)
  next
    case False
    with Suc.prems show ?thesis by auto
  qed
qed auto

section \<open>Descriptors of the UDP thread\<close>

lemma retrying_moves:
  "retrying ev q tr = (Some r, tr') \<Longrightarrow> (\<And>a. ev_bytes (ev a) = [] \<and> ev_opened (ev a) = [] \<and> ev_closed (ev a) = []) \<Longrightarrow>
     \<exists>new. tr' = tr @ new \<and> taken new = [] \<and> opened new = {#} \<and> closed_fds new = {#}"
proof (induction q arbitrary: tr)
  case (Cons a q)
  show ?case
  proof (cases "a = Fail EINTR")
    case True
    with Cons.prems(1) have "retrying ev q (tr @ [ev a]) = (Some r, tr')" by simp
    from Cons.IH[OF this Cons.prems(2)] obtain new where
      "tr' = (tr @ [ev a]) @ new" "taken new = []" "opened new = {#}" "closed_fds new = {#}" by blast
    with Cons.prems(2)[of a] show ?thesis by (intro exI[of _ "ev a # new"]) (simp add: trace_Cons)
  next
    case False
    with Cons.prems show ?thesis by (intro exI[of _ "[ev a]"]) (auto simp: trace_Cons)
  qed
qed simp

lemma w_recvfrom_moves:
  assumes "w_recvfrom fd n s = Done r t"
  shows "moves s t a a"
proof -
  from assms obtain u where u: "retry_call q_recvfrom q_recvfrom_update (Ev_recvfrom fd n) s = Done r u"
    "trace t = trace u"
    by (auto simp: w_recvfrom_def log_error_msg_def split: answer.split_asm if_split_asm elim!: run_bind_DoneE)
  then obtain q' tr where "retrying (Ev_recvfrom fd n) (q_recvfrom s) (trace s) = (Some (r, q'), tr)" "trace u = tr"
    by (auto simp: retry_call_def split: option.split_asm prod.split_asm)
  from retrying_moves[OF this(1)] this(2) u(2) show ?thesis by (auto simp: moves_def)
qed

lemma set_option_moves: "set_option fd opt s = Done r t \<Longrightarrow> moves s t a a"
  unfolding set_option_def sys_call_Done by (auto intro!: moves_call)

lemma w_bind_moves: "w_bind fd addr s = Done r t \<Longrightarrow> moves s t a a"
  unfolding w_bind_def log_failure_Done sys_call_Done by (cases r) (auto intro!: moves_call)

lemma w_listen_moves: "w_listen fd n s = Done r t \<Longrightarrow> moves s t a a"
  unfolding w_listen_def log_failure_Done sys_call_Done by (cases r) (auto intro!: moves_call)

lemma udp_loop_moves: "udp_loop consume fd flags c s = Done (left, c') t \<Longrightarrow> moves s t a a"
proof (induction consume fd flags c s rule: udp_loop.induct)
  case (2 consume fd stop flags c s)
  show ?case
  proof (cases stop)
    case True
    with "2.prems" show ?thesis by simp
  next
    case False
    with "2.prems" obtain r u where r: "w_recvfrom fd max_msg_size s = Done r u"
      and rest: "(case r of
          Fail e \<Rightarrow> if e = EAGAIN \<or> e = EWOULDBLOCK then udp_loop consume fd flags c u else Done (True, c) u
        | Ret bytes \<Rightarrow>
            if length bytes \<le> max_msg_size
            then (case fold_result consume (packet_lines bytes) c of
                Inl e \<Rightarrow> Crash e u
              | Inr c \<Rightarrow> udp_loop consume fd flags c u)
            else Crash Out_of_bounds u) = Done (left, c') t"
      by (auto elim!: run_bind_DoneE)
    note here = w_recvfrom_moves[OF r, of a]
    show ?thesis
    proof (cases r)
      case (Ret bytes)
      with rest obtain c1 where c1: "fold_result consume (packet_lines bytes) c = Inr c1"
        "length bytes \<le> max_msg_size" "udp_loop consume fd flags c1 u = Done (left, c') t"
        by (auto split: if_split_asm sum.split_asm)
      from moves_trans[OF here "2.IH"(1)[OF False Ret c1(2,1,3)]] show ?thesis .
    next
      case (Fail e)
      show ?thesis
      proof (cases "e = EAGAIN \<or> e = EWOULDBLOCK")
        case True
        with rest Fail have "udp_loop consume fd flags c u = Done (left, c') t" by auto
        from moves_trans[OF here "2.IH"(2)[OF False Fail True this]] show ?thesis .
      next
        case False
        with rest Fail here show ?thesis by auto
      qed
    qed
  qed
qed simp

lemma udp_bound_moves:
  assumes "(case b of
      Fail e \<Rightarrow> run_bind (w_close fd s) (\<lambda>_ s. Done (True, c) s)
    | Ret n \<Rightarrow>
        run_bind (udp_loop consume fd flags c s) (\<lambda>(left, c) s.
          if left then run_bind (w_close fd s) (\<lambda>_ s. Done (True, c) s) else Done (False, c) s))
      = Done (left, c') t"
  shows "moves s t {#fd#} (if left then {#} else {#fd#})"
proof (cases b)
  case (Fail e)
  with assms obtain r where "w_close fd s = Done r t" "left" by (auto elim!: run_bind_DoneE)
  with wrapper_moves(3) show ?thesis by auto
next
  case (Ret n)
  with assms obtain l c1 u where l: "udp_loop consume fd flags c s = Done (l, c1) u"
    and last: "(if l then run_bind (w_close fd u) (\<lambda>_ s. Done (True, c1) s) else Done (False, c1) u)
      = Done (left, c') t"
    by (auto elim!: run_bind_DoneE)
  note here = udp_loop_moves[OF l, of "{#fd#}"]
  show ?thesis
  proof (cases l)
    case True
    with last obtain r where "w_close fd u = Done r t" "left" by (auto elim!: run_bind_DoneE)
    with moves_trans[OF here wrapper_moves(3)] show ?thesis by auto
  qed (use last here in auto)
qed

lemma udp_listen_moves:
  assumes "udp_listen consume port_no flags c s = Done (left, c') t"
  shows "\<exists>fd. moves s t {#} (if left then {#} else {#fd#})"
proof -
  from assms obtain sk s1 where sk: "w_socket s = Done sk s1"
    and rest: "fd_of sk = -1 \<and> left \<and> t = s1 \<or> fd_of sk \<noteq> -1 \<and> (\<exists>r2 s2 r3 s3 r4 s4 r5 s5 b s6.
      set_option (fd_of sk) ''SO_RCVTIMEO'' s1 = Done r2 s2 \<and> set_option (fd_of sk) ''SO_REUSEADDR'' s2 = Done r3 s3
      \<and> set_option (fd_of sk) ''SO_REUSEPORT'' s3 = Done r4 s4 \<and> set_option (fd_of sk) ''SO_RCVBUF'' s4 = Done r5 s5
      \<and> w_bind (fd_of sk) (any_address port_no) s5 = Done b s6
      \<and> (case b of
            Fail e \<Rightarrow> run_bind (w_close (fd_of sk) s6) (\<lambda>_ s. Done (True, c) s)
          | Ret n \<Rightarrow>
              run_bind (udp_loop consume (fd_of sk) flags c s6) (\<lambda>(left, c) s.
                if left then run_bind (w_close (fd_of sk) s) (\<lambda>_ s. Done (True, c) s)
                else Done (False, c) s)) = Done (left, c') t)"
    unfolding udp_listen_def Let_def by (elim run_bind_DoneE) (split if_split_asm, simp, elim run_bind_DoneE, blast)
  from rest show ?thesis
  proof (elim disjE conjE exE)
    assume "fd_of sk = -1" "left" "t = s1"
    with w_socket_moves[OF sk] show ?thesis by simp
  next
    let ?fd = "fd_of sk"
    fix r2 s2 r3 s3 r4 s4 r5 s5 b s6
    assume fd: "?fd \<noteq> -1" and steps:
      "set_option ?fd ''SO_RCVTIMEO'' s1 = Done r2 s2" "set_option ?fd ''SO_REUSEADDR'' s2 = Done r3 s3"
      "set_option ?fd ''SO_REUSEPORT'' s3 = Done r4 s4" "set_option ?fd ''SO_RCVBUF'' s4 = Done r5 s5"
      "w_bind ?fd (any_address port_no) s5 = Done b s6"
      and bound: "(case b of
            Fail e \<Rightarrow> run_bind (w_close ?fd s6) (\<lambda>_ s. Done (True, c) s)
          | Ret n \<Rightarrow>
              run_bind (udp_loop consume ?fd flags c s6) (\<lambda>(left, c) s.
                if left then run_bind (w_close ?fd s) (\<lambda>_ s. Done (True, c) s)
                else Done (False, c) s)) = Done (left, c') t"
    from w_socket_moves[OF sk] fd have "moves s s1 {#} {#?fd#}" by simp
    from moves_trans[OF moves_trans[OF moves_trans[OF moves_trans[OF moves_trans[OF moves_trans[OF this
      set_option_moves[OF steps(1)]] set_option_moves[OF steps(2)]] set_option_moves[OF steps(3)]]
      set_option_moves[OF steps(4)]] w_bind_moves[OF steps(5)]] udp_bound_moves[OF bound]]
    show ?thesis by blast
  qed
qed

section \<open>The TCP constructor\<close>

lemma run_bind_CrashE:
  assumes "run_bind x f = Crash e t"
  obtains "x = Crash e t" | a s where "x = Done a s" "f a s = Crash e t"
  using assms by (cases x) auto

lemma sys_call_no_crash [simp]: "sys_call get upd ev s \<noteq> Crash e t"
  by (auto simp: sys_call_def split: list.splits)

lemma wrapper_no_crash [simp]:
  "w_socket s \<noteq> Crash e t" "w_bind fd addr s \<noteq> Crash e t" "w_listen fd n s \<noteq> Crash e t" "w_close fd s \<noteq> Crash e t"
  by (auto simp: w_socket_def w_bind_def w_listen_def w_close_def log_failure_def
      elim!: run_bind_CrashE split: answer.split_asm)

lemma tcp_constructor_crash:
  assumes "new_tcp_server port_no s = Crash e t"
  shows "if e = Thrown ''Listen failed'' then \<exists>fd. moves s t {#} {#fd#} else moves s t {#} {#}"
proof -
  from assms obtain sk s1 where sk: "w_socket s = Done sk s1"
    and rest: "if fd_of sk = -1 then e = Thrown ''Failed to create socket'' \<and> t = s1
      else \<exists>b s2. w_bind (fd_of sk) (any_address port_no) s1 = Done b s2 \<and> (case b of
           Fail x \<Rightarrow> (\<exists>r. w_close (fd_of sk) s2 = Done r t) \<and> e = Thrown ''Failed to bind''
         | Ret n \<Rightarrow> (\<exists>x. w_listen (fd_of sk) 1 s2 = Done (Fail x) t) \<and> e = Thrown ''Listen failed'')"
    by (auto simp: new_tcp_server_def Let_def elim!: run_bind_CrashE split: if_split_asm answer.split_asm)
  show ?thesis
  proof (cases "fd_of sk = -1")
    case True
    with rest w_socket_moves[OF sk] show ?thesis by simp
  next
    case False
    with rest obtain b s2 where b: "w_bind (fd_of sk) (any_address port_no) s1 = Done b s2"
      and end_: "case b of
           Fail x \<Rightarrow> (\<exists>r. w_close (fd_of sk) s2 = Done r t) \<and> e = Thrown ''Failed to bind''
         | Ret n \<Rightarrow> (\<exists>x. w_listen (fd_of sk) 1 s2 = Done (Fail x) t) \<and> e = Thrown ''Listen failed''"
      by auto
    from w_socket_moves[OF sk] False have "moves s s1 {#} {#fd_of sk#}" by simp
    from moves_trans[OF this w_bind_moves[OF b]] have here: "moves s s2 {#} {#fd_of sk#}" .
    show ?thesis
    proof (cases b)
      case (Fail x)
      with end_ obtain r where "w_close (fd_of sk) s2 = Done r t" "e = Thrown ''Failed to bind''" by auto
      with moves_trans[OF here wrapper_moves(3)] show ?thesis by auto
    next
      case (Ret n)
      with end_ obtain x where l: "w_listen (fd_of sk) 1 s2 = Done (Fail x) t" "e = Thrown ''Listen failed''" by auto
      from moves_trans[OF here w_listen_moves[OF l(1)]] l(2) show ?thesis by auto
    qed
  qed
qed

section \<open>Properties\<close>

text \<open>
  Every thread a UDP server has started is joined exactly once, after the flag that ends its loop
  was set, whether the constructor gets through or fails after \<open>n\<close> of the threads.
\<close>

theorem server_joins_its_threads:
  "\<exists>n \<le> nat threads. (n = nat threads \<longleftrightarrow> (\<forall>i < nat threads. up i))
     \<and> server_life (new_udp_server up threads) = map Started [0..<n]
       @ (if n = nat threads then Done_flag # map Joined [0..<n]
          else [Log_failed, Done_flag, Done_flag] @ map Joined [0..<n] @ [Threw])"
proof -
  obtain acts n all where s: "start_threads up 0 (nat threads) = (acts, n, all)" by (metis prod_cases3)
  note h = start_threads_shape[OF s]
  then have "n = nat threads \<longleftrightarrow> (\<forall>i < nat threads. up i)" by (cases "n < nat threads") auto
  with h show ?thesis
    by (intro exI[of _ n]) (auto simp: new_udp_server_def s server_life_def destroy_server_def join_threads_def)
qed

text \<open>
  A UDP thread gives back what it takes: however the operating system answers, and whether the
  thread ends at once because it gets no socket or no port, on the flag, or on an error, it has
  closed every descriptor it opened; while it is in its loop it holds its one socket.
\<close>

theorem udp_thread_closes_its_socket:
  assumes "udp_listen consume port_no flags c s = Done (left, c') t"
  shows "\<exists>new fd. trace t = trace s @ new
    \<and> opened new = closed_fds new + (if left then {#} else {#fd#})"
  using udp_listen_moves[OF assms] by (fastforce simp: moves_def add.commute)

lemma new_tcp_server_moves:
  assumes "new_tcp_server port_no s = Done fd t"
  shows "moves s t {#} {#fd#}"
proof -
  from assms obtain sk s1 b s2 l where h: "w_socket s = Done sk s1" "fd_of sk = fd" "fd \<noteq> -1"
    "w_bind fd (any_address port_no) s1 = Done b s2" "w_listen fd 1 s2 = Done l t"
    by (auto simp: new_tcp_server_def Let_def elim!: run_bind_DoneE split: if_split_asm answer.split_asm)
  from w_socket_moves[OF h(1)] h(2,3) have "moves s s1 {#} {#fd#}" by simp
  from moves_trans[OF moves_trans[OF this w_bind_moves[OF h(4)]] w_listen_moves[OF h(5)]]
  show ?thesis by simp
qed

text \<open>
  The TCP constructor holds its socket when it returns and has closed it when the port is taken; a
  socket that cannot listen stays open when the exception leaves the constructor.
\<close>

theorem tcp_constructor_descriptors:
  "case new_tcp_server port_no s of
     Waiting t \<Rightarrow> True
   | Done fd t \<Rightarrow> moves s t {#} {#fd#}
   | Crash e t \<Rightarrow> if e = Thrown ''Listen failed'' then \<exists>fd. moves s t {#} {#fd#} else moves s t {#} {#}"
proof (cases "new_tcp_server port_no s")
  case (Done fd t)
  with new_tcp_server_moves[OF Done] show ?thesis by simp
next
  case (Crash e t)
  with tcp_constructor_crash[OF Crash] show ?thesis by simp
qed simp

section \<open>Examples\<close>

theorem server_joins_its_threads_witness:
  "\<exists>n \<le> 3. server_life (new_udp_server (\<lambda>i. i < 2) 3) = map Started [0..<n]
     @ [Log_failed, Done_flag, Done_flag] @ map Joined [0..<n] @ [Threw]"
proof -
  have "\<not> (\<forall>i < (3 :: nat). i < 2)" by (auto intro: exI[of _ 2])
  with server_joins_its_threads[of 3 "\<lambda>i. i < 2"] show ?thesis by auto
qed

text \<open>The port is taken.\<close>

definition taken_env :: env where
  "taken_env = quiet_env\<lparr>q_socket := [Ret 4], q_setsockopt := [Ret 0, Ret 0, Ret 0, Ret 0],
     q_bind := [Fail (Errno 98)], q_close := [Ret 0]\<rparr>"

theorem udp_thread_closes_its_socket_witness:
  "\<exists>t new. udp_listen (\<lambda>l c. Inr (c + 1)) 8125 [] (0 :: nat) taken_env = Done (True, 0) t
     \<and> trace t = new \<and> opened new = closed_fds new"
proof -
  have "\<exists>t. udp_listen (\<lambda>l c. Inr (c + 1)) 8125 [] (0 :: nat) taken_env = Done (True, 0) t"
    by (simp add: udp_listen_def taken_env_def quiet_env_def w_socket_def sys_call_def log_failure_def
        fd_of_def set_option_def w_bind_def w_close_def log_error_msg_def)
  then obtain t where t: "udp_listen (\<lambda>l c. Inr (c + 1)) 8125 [] (0 :: nat) taken_env = Done (True, 0) t" ..
  from udp_thread_closes_its_socket[OF this] t show ?thesis by (simp add: taken_env_def quiet_env_def)
qed

definition deaf_env :: env where
  "deaf_env = quiet_env\<lparr>q_socket := [Ret 4], q_bind := [Ret 0], q_listen := [Fail (Errno 98)]\<rparr>"

theorem tcp_constructor_descriptors_witness:
  "\<exists>t fd. new_tcp_server 8125 deaf_env = Crash (Thrown ''Listen failed'') t \<and> moves deaf_env t {#} {#fd#}"
proof -
  have "\<exists>t. new_tcp_server 8125 deaf_env = Crash (Thrown ''Listen failed'') t"
    by (simp add: new_tcp_server_def deaf_env_def quiet_env_def w_socket_def sys_call_def log_failure_def
        fd_of_def w_bind_def w_listen_def log_error_msg_def)
  with tcp_constructor_descriptors[of deaf_env 8125] show ?thesis by auto
qed

end
