(* ===== verification/Startup.thy ===== *)
theory Startup
  imports Routing Config
begin

text \<open>
  The two programs: \<^verbatim>\<open>src/aggregator.cc\<close>, \<^verbatim>\<open>src/proxy.cc\<close> with their headers. A run is the list
  of what its main thread does, up to the point where it waits for a signal or ends. Whether a part comes
  up, which depends on the operating system, is the argument \<open>m\<close>; \<open>opts\<close> are the values
  \<^verbatim>\<open>getopt_long\<close> returns, \<open>conf\<close> what reading the configuration file gives: nothing when it
  cannot be opened, an exception, or a configuration. What a run has in the global variables follows
  from its actions.
\<close>

section \<open>What a run does\<close>

datatype part = Worker_part nat | Clock_part | Udp_part | Tcp_part | Http_part

text \<open>
  \<open>Start p\<close> is the construction of a part, with its threads, \<open>Store p\<close> the assignment of the pointer to it to
  the global variable or vector, \<open>Stop p\<close> its destruction by a \<^verbatim>\<open>reset\<close> of that pointer.
\<close>

datatype action =
    Print_usage | Print_version | Log_error string
  | Start_container | Start part | Store part | Stop part
  | Caught_signal
  | Pause | Exit int
  | Terminate   \<comment> \<open>an exception nobody catches, or a fault\<close>

datatype failure = String_exception string | Other_exception

record machine =
  m_container :: bool
  m_worker :: "nat \<Rightarrow> bool"
  m_clock :: bool
  m_udp :: "failure option"
  m_tcp :: "failure option"
  m_http :: "failure option"

section \<open>The global variables\<close>

text \<open>
  The pointers \<^verbatim>\<open>http_server\<close> and \<^verbatim>\<open>_clock\<close> and the vectors \<^verbatim>\<open>servers\<close> and \<^verbatim>\<open>workers\<close>, \<open>None\<close> for a null
  pointer. The proxy's one \<^verbatim>\<open>worker\<close> is a vector of at most one here.
\<close>

record globals =
  gl_http :: "part option"
  gl_servers :: "part option list"
  gl_clock :: "part option"
  gl_workers :: "part option list"

definition null_globals :: globals where
  "null_globals = \<lparr>gl_http = None, gl_servers = [], gl_clock = None, gl_workers = []\<rparr>"

definition store :: "part \<Rightarrow> globals \<Rightarrow> globals" where
  "store p g = (case p of
     Worker_part i \<Rightarrow> g\<lparr>gl_workers := gl_workers g @ [Some p]\<rparr>
   | Clock_part \<Rightarrow> g\<lparr>gl_clock := Some p\<rparr>
   | Http_part \<Rightarrow> g\<lparr>gl_http := Some p\<rparr>
   | _ \<Rightarrow> g\<lparr>gl_servers := gl_servers g @ [Some p]\<rparr>)"

text \<open>\<^verbatim>\<open>unique_ptr::reset\<close> makes the pointer null before it destroys the object.\<close>

definition null_if :: "part \<Rightarrow> part option \<Rightarrow> part option" where
  "null_if p x = (if x = Some p then None else x)"

definition forget :: "part \<Rightarrow> globals \<Rightarrow> globals" where
  "forget p g = \<lparr>gl_http = null_if p (gl_http g), gl_servers = map (null_if p) (gl_servers g),
     gl_clock = null_if p (gl_clock g), gl_workers = map (null_if p) (gl_workers g)\<rparr>"

fun effect :: "action \<Rightarrow> globals \<Rightarrow> globals" where
  "effect (Store p) g = store p g"
| "effect (Stop p) g = forget p g"
| "effect a g = g"

definition globals_of :: "action list \<Rightarrow> globals" where
  "globals_of acts = fold effect acts null_globals"

text \<open>A \<^verbatim>\<open>reset\<close>, which does nothing on a null pointer.\<close>

definition reset :: "part option \<Rightarrow> action list" where
  "reset x = (case x of None \<Rightarrow> [] | Some p \<Rightarrow> [Stop p])"

section \<open>The command line\<close>

text \<open>Both programs print and exit on the first option they find.\<close>

definition usage :: "action list" where
  "usage = [Print_usage, Exit 0]"

definition version :: "action list" where
  "version = [Print_version, Exit 0]"

definition options :: "char list \<Rightarrow> action list option" where
  "options opts = (case opts of
     [] \<Rightarrow> None
   | opt # _ \<Rightarrow> if opt = CHR ''h'' then Some usage else if opt = CHR ''V'' then Some version else Some usage)"

definition configure :: "'c result option \<Rightarrow> ('c \<Rightarrow> action list) \<Rightarrow> action list" where
  "configure conf run = (case conf of
     None \<Rightarrow> [Log_error ''unable to open config file'', Exit 1]
   | Some (Inl e) \<Rightarrow> [Terminate]
   | Some (Inr c) \<Rightarrow> run c)"

section \<open>The aggregator\<close>

text \<open>\<^verbatim>\<open>stop\<close>, on what the global variables hold. It ends the program itself.\<close>

definition stop :: "globals \<Rightarrow> action list" where
  "stop g = reset (gl_http g) @ concat (map reset (gl_servers g)) @ reset (gl_clock g)
     @ concat (map reset (gl_workers g)) @ [Exit 0]"

definition bring_up :: "part \<Rightarrow> action list" where
  "bring_up p = [Start p, Store p]"

fun start_workers :: "(nat \<Rightarrow> bool) \<Rightarrow> nat \<Rightarrow> nat \<Rightarrow> action list \<times> bool" where
  "start_workers up i 0 = ([], True)"
| "start_workers up i (Suc k) =
     (if up i then (let (acts, all) = start_workers up (i + 1) k in (bring_up (Worker_part i) @ acts, all))
      else ([], False))"

text \<open>
  The servers, in order: those that come up and the failure, if there is one. The first failure ends the block.
\<close>

definition start_servers :: "machine \<Rightarrow> 'a config_scheme \<Rightarrow> part list \<times> failure option" where
  "start_servers m c =
     (let udp = (if udp_enabled c then [(Udp_part, m_udp m)] else []);
          tcp = (if tcp_enabled c then [(Tcp_part, m_tcp m)] else []);
          http = (if http_enabled c then [(Http_part, m_http m)] else []) in
      fold (\<lambda>(p, fails) (ps, failed).
          if failed \<noteq> None then (ps, failed)
          else (case fails of None \<Rightarrow> (ps @ [p], None) | Some f \<Rightarrow> (ps, Some f)))
        (udp @ tcp @ http) ([], None))"

text \<open>The end of \<^verbatim>\<open>main\<close>, after the actions \<open>acts\<close>: the servers, their failure, the wait.\<close>

definition serve_main :: "machine \<Rightarrow> 'a config_scheme \<Rightarrow> action list \<Rightarrow> action list" where
  "serve_main m c acts =
     (let (serve, failed) = start_servers m c; acts = acts @ concat (map bring_up serve) in
      case failed of
        None \<Rightarrow> acts @ [Pause]
      | Some (String_exception err) \<Rightarrow> acts @ [Log_error err] @ stop (globals_of acts)
      | Some Other_exception \<Rightarrow> acts @ [Terminate])"

definition aggregator_main ::
  "(string \<Rightarrow> 64 word) \<Rightarrow> machine \<Rightarrow> nat \<Rightarrow> char list \<Rightarrow> aggregator_config result option \<Rightarrow> action list"
where
  "aggregator_main hash m argc opts conf =
     (if argc = 1 then usage
      else case options opts of Some acts \<Rightarrow> acts | None \<Rightarrow>
        configure conf (\<lambda>c.
          if \<not> (tcp_enabled c \<or> udp_enabled c)
          then [Log_error ''Please configure a least one server'', Exit 1]
          else if \<not> m_container m then [Log_error ''Failed to create BackendContainer'', Exit 1]
          else
            (let (ws, started) = start_workers (m_worker m) 0 (nat (cfg_workers c)); acts = Start_container # ws in
             if \<not> started then acts @ [Log_error ''Failed to instanstiate Worker''] @ stop (globals_of acts)
             else if \<not> m_clock m then acts @ [Terminate]
             else
               (let acts = acts @ bring_up Clock_part in
                case new_agg_consumer hash (cfg_name c) (cfg_workers c) of
                  Inl e \<Rightarrow> acts @ [Terminate]
                | Inr consumer \<Rightarrow> serve_main m c acts))))"

text \<open>
  The signal handler, which the aggregator installs before anything else: it calls \<^verbatim>\<open>stop\<close> on what
  the global variables hold when it interrupts the main thread after the actions \<open>acts\<close>.
\<close>

definition sig_handler :: "action list \<Rightarrow> action list" where
  "sig_handler acts = Caught_signal # stop (globals_of acts)"

section \<open>The proxy\<close>

text \<open>
  The proxy's own copies of the functions of the command line. One worker and no clock; a worker
  that cannot start ends the program with status 0.
\<close>

definition proxy_usage :: "action list" where
  "proxy_usage = [Print_usage, Exit 0]"

definition proxy_version :: "action list" where
  "proxy_version = [Print_version, Exit 0]"

definition proxy_options :: "char list \<Rightarrow> action list option" where
  "proxy_options opts =
     (case opts of
        [] \<Rightarrow> None
      | opt # _ \<Rightarrow> if opt = CHR ''h'' then Some proxy_usage
          else if opt = CHR ''V'' then Some proxy_version else Some proxy_usage)"

definition proxy_configure :: "'c result option \<Rightarrow> ('c \<Rightarrow> action list) \<Rightarrow> action list" where
  "proxy_configure conf go = (case conf of
     None \<Rightarrow> [Log_error ''unable to open config file'', Exit 1]
   | Some (Inl e) \<Rightarrow> [Terminate]
   | Some (Inr c) \<Rightarrow> go c)"

definition proxy_stop :: "globals \<Rightarrow> action list" where
  "proxy_stop g = reset (gl_http g) @ concat (map reset (gl_servers g)) @ concat (map reset (gl_workers g)) @ [Exit 0]"

definition proxy_main :: "machine \<Rightarrow> nat \<Rightarrow> char list \<Rightarrow> 'r proxy_config result option \<Rightarrow> action list" where
  "proxy_main m argc opts conf =
     (if argc = 1 then proxy_usage
      else case proxy_options opts of Some acts \<Rightarrow> acts | None \<Rightarrow>
        proxy_configure conf (\<lambda>c.
          if \<not> m_worker m 0 then [Log_error ''Failed to instanstiate Worker'', Exit 0]
          else
            (let (serve, failed) = start_servers m c;
                 acts = bring_up (Worker_part 0) @ concat (map bring_up serve) in
             case failed of
               None \<Rightarrow> acts @ [Pause]
             | Some (String_exception err) \<Rightarrow> acts @ [Log_error err] @ proxy_stop (globals_of acts)
             | Some Other_exception \<Rightarrow> acts @ [Log_error ''Expection raised''] @ proxy_stop (globals_of acts))))"

definition proxy_sig_handler :: "action list \<Rightarrow> action list" where
  "proxy_sig_handler acts = proxy_stop (globals_of acts)"

section \<open>What was started\<close>

lemma start_workers_shape:
  "start_workers up i k = (acts, all) \<Longrightarrow>
     \<exists>n. acts = concat (map (\<lambda>j. bring_up (Worker_part j)) [i..<n]) \<and> i \<le> n \<and> n \<le> i + k \<and> (all \<longleftrightarrow> n = i + k)
       \<and> (\<forall>j. i \<le> j \<longrightarrow> j < n \<longrightarrow> up j) \<and> (\<not> all \<longrightarrow> \<not> up n)"
proof (induction k arbitrary: i acts)
  case (Suc k)
  show ?case
  proof (cases "up i")
    case True
    with Suc.prems obtain acts' where a: "start_workers up (i + 1) k = (acts', all)"
      "acts = bring_up (Worker_part i) @ acts'" by (auto split: prod.split_asm)
    from Suc.IH[OF a(1)] obtain n where n: "acts' = concat (map (\<lambda>j. bring_up (Worker_part j)) [i + 1..<n])" "i + 1 \<le> n"
      "n \<le> i + 1 + k" "all \<longleftrightarrow> n = i + 1 + k" "\<forall>j. i + 1 \<le> j \<longrightarrow> j < n \<longrightarrow> up j" "\<not> all \<longrightarrow> \<not> up n" by blast
    have "[i..<n] = i # [i + 1..<n]" using n(2) by (simp add: upt_conv_Cons)
    moreover have "up j" if "i \<le> j" "j < n" for j using that n(5) True by (cases "i = j") auto
    ultimately show ?thesis using n a(2) by (intro exI[of _ n]) auto
  next
    case False
    with Suc.prems show ?thesis by (intro exI[of _ i]) auto
  qed
qed auto

text \<open>The servers a configuration asks for, and why one of them does not come up.\<close>

definition wanted :: "'a config_scheme \<Rightarrow> part list" where
  "wanted c = (if udp_enabled c then [Udp_part] else []) @ (if tcp_enabled c then [Tcp_part] else [])
     @ (if http_enabled c then [Http_part] else [])"

definition refusal :: "machine \<Rightarrow> part \<Rightarrow> failure option" where
  "refusal m p = (case p of Udp_part \<Rightarrow> m_udp m | Tcp_part \<Rightarrow> m_tcp m | Http_part \<Rightarrow> m_http m | _ \<Rightarrow> None)"

text \<open>The parts before the first that does not come up, and its failure.\<close>

fun coming_up :: "machine \<Rightarrow> part list \<Rightarrow> part list \<times> failure option" where
  "coming_up m [] = ([], None)"
| "coming_up m (p # ps) = (case refusal m p of
     Some f \<Rightarrow> ([], Some f)
   | None \<Rightarrow> (let (qs, failed) = coming_up m ps in (p # qs, failed)))"

lemma start_servers_coming_up: "start_servers m c = coming_up m (wanted c)"
  by (cases "udp_enabled c"; cases "tcp_enabled c"; cases "http_enabled c"; cases "m_udp m"; cases "m_tcp m";
      cases "m_http m") (simp_all add: start_servers_def wanted_def refusal_def)

lemma coming_up_shape:
  "coming_up m ps = (qs, failed) \<Longrightarrow> (\<forall>q \<in> set qs. refusal m q = None)
     \<and> (case failed of None \<Rightarrow> qs = ps | Some f \<Rightarrow> \<exists>p rest. ps = qs @ p # rest \<and> refusal m p = Some f)"
proof (induction ps arbitrary: qs)
  case (Cons p ps)
  obtain rs failed' where r: "coming_up m ps = (rs, failed')" by fastforce
  show ?case
  proof (cases "refusal m p")
    case None
    with Cons.prems r have q: "qs = p # rs" "failed' = failed" by simp_all
    from Cons.IH[OF r[unfolded q(2)]] None show ?thesis by (auto simp: q(1) split: option.splits)
  next
    case (Some f)
    with Cons.prems have "qs = []" "failed = Some f" by simp_all
    with Some show ?thesis by auto
  qed
qed simp

section \<open>What the global variables hold\<close>

lemma globals_append: "globals_of (xs @ ys) = fold effect ys (globals_of xs)"
  by (simp add: globals_of_def)

lemma bring_up_effect: "fold effect (concat (map bring_up ps)) g = fold store ps g"
  by (induction ps arbitrary: g) (simp_all add: bring_up_def)

lemma store_workers: "fold store (map Worker_part is) g = g\<lparr>gl_workers := gl_workers g @ map (Some \<circ> Worker_part) is\<rparr>"
  by (induction "is" arbitrary: g) (simp_all add: store_def)

lemma store_sockets:
  "set ps \<subseteq> {Udp_part, Tcp_part} \<Longrightarrow> fold store ps g = g\<lparr>gl_servers := gl_servers g @ map Some ps\<rparr>"
  by (induction ps arbitrary: g) (auto simp: store_def)

lemma reset_all: "concat (map reset (map Some ps)) = map Stop ps"
  by (induction ps) (simp_all add: reset_def)

lemma started_globals:
  assumes "clock = [] \<or> clock = [Clock_part]" "set serve \<subseteq> {Udp_part, Tcp_part}"
  shows "stop (globals_of (Start_container # concat (map bring_up (map Worker_part is @ clock @ serve))))
    = map Stop (serve @ clock @ map Worker_part is) @ [Exit 0]"
proof -
  have clock: "fold store clock g = (if clock = [] then g else g\<lparr>gl_clock := Some Clock_part\<rparr>)" for g
    using assms(1) by (auto simp: store_def)
  have "globals_of (Start_container # concat (map bring_up (map Worker_part is @ clock @ serve)))
      = fold store (map Worker_part is @ clock @ serve) null_globals"
    unfolding globals_of_def fold_simps comp_apply effect.simps bring_up_effect ..
  also have "\<dots> = \<lparr>gl_http = None, gl_servers = map Some serve, gl_clock = (if clock = [] then None else Some Clock_part),
      gl_workers = map Some (map Worker_part is)\<rparr>"
    by (simp add: store_workers store_sockets[OF assms(2)] clock null_globals_def)
  finally show ?thesis using assms(1) by (auto simp: stop_def reset_all simp del: map_map) (simp_all add: reset_def)
qed

section \<open>Runs of the aggregator\<close>

lemma aggregator_main_configured:
  assumes "argc \<noteq> 1" "tcp_enabled c \<or> udp_enabled c" "m_container m"
    and "start_workers (m_worker m) 0 (nat (cfg_workers c)) = (ws, all)"
  shows "aggregator_main hash m argc [] (Some (Inr c)) =
      (let acts = Start_container # ws in
       if \<not> all then acts @ [Log_error ''Failed to instanstiate Worker''] @ stop (globals_of acts)
       else if \<not> m_clock m then acts @ [Terminate]
       else let acts = acts @ bring_up Clock_part in case new_agg_consumer hash (cfg_name c) (cfg_workers c) of
           Inl e \<Rightarrow> acts @ [Terminate]
         | Inr consumer \<Rightarrow> serve_main m c acts)"
  using assms by (auto simp: aggregator_main_def options_def configure_def Let_def split: sum.split)

lemma serve_main_extends: "\<exists>rest. serve_main m c acts = acts @ rest"
  by (simp add: serve_main_def Let_def split: prod.split option.split failure.split)

lemma http_last: "wanted c = serve @ p # rest \<Longrightarrow> set serve \<subseteq> {Udp_part, Tcp_part}"
  by (auto simp: wanted_def Cons_eq_append_conv append_eq_Cons_conv split: if_splits)

text \<open>The servers and the end, once the workers and the clock are up.\<close>

lemma serve_main_run:
  assumes "coming_up m (wanted c) = (serve, failed)"
  shows "serve_main m c (Start_container # concat (map bring_up (map Worker_part is @ [Clock_part]))) =
    Start_container # concat (map bring_up (map Worker_part is @ [Clock_part] @ serve)) @ (case failed of
      None \<Rightarrow> [Pause]
    | Some (String_exception err) \<Rightarrow> Log_error err # map Stop (serve @ [Clock_part] @ map Worker_part is) @ [Exit 0]
    | Some Other_exception \<Rightarrow> [Terminate])"
proof -
  let ?acts = "Start_container # concat (map bring_up (map Worker_part is @ [Clock_part] @ serve))"
  have "stop (globals_of ?acts) = map Stop (serve @ [Clock_part] @ map Worker_part is) @ [Exit 0]" if "failed = Some f" for f
    using coming_up_shape[OF assms] that http_last[of c serve] by (intro started_globals) auto
  moreover have "(Start_container # concat (map bring_up (map Worker_part is @ [Clock_part]))) @ concat (map bring_up serve) = ?acts"
    by simp
  ultimately show ?thesis
    unfolding serve_main_def start_servers_coming_up assms Let_def prod.case
    by (auto split: option.split failure.split)
qed

lemma configured_run:
  assumes "argc \<noteq> 1" "tcp_enabled c \<or> udp_enabled c" "m_container m"
  shows "\<exists>n clock serve failed ending. let workers = nat (cfg_workers c) in
    aggregator_main hash m argc [] (Some (Inr c))
      = Start_container # concat (map bring_up (map Worker_part [0..<n] @ clock @ serve)) @ ending
    \<and> n \<le> workers \<and> (\<forall>i < n. m_worker m i) \<and> (n < workers \<longrightarrow> \<not> m_worker m n)
    \<and> (if n < workers then clock = [] \<and> serve = []
         \<and> ending = Log_error ''Failed to instanstiate Worker'' # map Stop (map Worker_part [0..<n]) @ [Exit 0]
       else if \<not> m_clock m then clock = [] \<and> serve = [] \<and> ending = [Terminate]
       else clock = [Clock_part] \<and>
        (if \<exists>e. new_agg_consumer hash (cfg_name c) (cfg_workers c) = Inl e then serve = [] \<and> ending = [Terminate]
         else (\<forall>p \<in> set serve. refusal m p = None)
           \<and> (case failed of
               None \<Rightarrow> serve = wanted c \<and> ending = [Pause]
             | Some f \<Rightarrow> (\<exists>p rest. wanted c = serve @ p # rest \<and> refusal m p = Some f)
                 \<and> ending = (case f of
                     String_exception err \<Rightarrow>
                       Log_error err # map Stop (serve @ [Clock_part] @ map Worker_part [0..<n]) @ [Exit 0]
                   | Other_exception \<Rightarrow> [Terminate]))))"
proof -
  obtain ws all where w: "start_workers (m_worker m) 0 (nat (cfg_workers c)) = (ws, all)" by fastforce
  from start_workers_shape[OF w] obtain n where n: "ws = concat (map bring_up (map Worker_part [0..<n]))"
    "n \<le> nat (cfg_workers c)" "all \<longleftrightarrow> n = nat (cfg_workers c)" "\<forall>i < n. m_worker m i" "\<not> all \<longrightarrow> \<not> m_worker m n"
    by (auto simp: comp_def)
  note main = aggregator_main_configured[OF assms w, of hash, unfolded Let_def]
  note stopped = started_globals[of "[]" "[]" "[0..<n]", simplified]
  obtain serve failed where s: "coming_up m (wanted c) = (serve, failed)" by fastforce
  note shape = coming_up_shape[OF s]
  consider (worker) "\<not> all" | (clock) "all" "\<not> m_clock m"
    | (consumer) e where "all" "m_clock m" "new_agg_consumer hash (cfg_name c) (cfg_workers c) = Inl e"
    | (up) ac where "all" "m_clock m" "new_agg_consumer hash (cfg_name c) (cfg_workers c) = Inr ac"
    by (cases "new_agg_consumer hash (cfg_name c) (cfg_workers c)") blast+
  then show ?thesis
  proof cases
    case worker
    with main n show ?thesis
      by (intro exI[of _ n] exI[of _ "[]"] exI[of _ "[]"] exI[of _ None]
          exI[of _ "Log_error ''Failed to instanstiate Worker'' # map Stop (map Worker_part [0..<n]) @ [Exit 0]"])
        (simp add: stopped)
  next
    case clock
    with main n show ?thesis
      by (intro exI[of _ n] exI[of _ "[]"] exI[of _ "[]"] exI[of _ None] exI[of _ "[Terminate]"]) simp
  next
    case consumer
    with main n show ?thesis
      by (intro exI[of _ n] exI[of _ "[Clock_part]"] exI[of _ "[]"] exI[of _ None] exI[of _ "[Terminate]"]) simp
  next
    case up
    from main up n(1) serve_main_run[OF s, of "[0..<n]"] have tail: "aggregator_main hash m argc [] (Some (Inr c)) =
        Start_container # concat (map bring_up (map Worker_part [0..<n] @ [Clock_part] @ serve)) @ (case failed of
          None \<Rightarrow> [Pause]
        | Some (String_exception err) \<Rightarrow>
            Log_error err # map Stop (serve @ [Clock_part] @ map Worker_part [0..<n]) @ [Exit 0]
        | Some Other_exception \<Rightarrow> [Terminate])"
      by simp
    have part: "case failed of None \<Rightarrow> serve = wanted c
        | Some f \<Rightarrow> \<exists>p rest. wanted c = serve @ p # rest \<and> refusal m p = Some f" "\<forall>p \<in> set serve. refusal m p = None"
      using shape by auto
    show ?thesis
    proof (cases failed)
      case None
      with up n part tail show ?thesis
        by (intro exI[of _ n] exI[of _ "[Clock_part]"] exI[of _ serve] exI[of _ None] exI[of _ "[Pause]"]) simp
    next
      case (Some f)
      with up n part tail show ?thesis
        by (intro exI[of _ n] exI[of _ "[Clock_part]"] exI[of _ serve] exI[of _ "Some f"]
            exI[of _ "case f of String_exception err \<Rightarrow>
                Log_error err # map Stop (serve @ [Clock_part] @ map Worker_part [0..<n]) @ [Exit 0]
              | Other_exception \<Rightarrow> [Terminate]"]) (simp split: failure.split)
    qed
  qed
qed

section \<open>Order of a run\<close>

text \<open>
  A part is stored once and after its start, and never after it was stopped; \<open>R\<close> are the parts started
  before, \<open>S\<close> those stored or stopped.
\<close>

fun orderly :: "part set \<Rightarrow> part set \<Rightarrow> action list \<Rightarrow> bool" where
  "orderly R S [] = True"
| "orderly R S (Start p # acts) = orderly (insert p R) S acts"
| "orderly R S (Store p # acts) = (p \<in> R \<and> p \<notin> S \<and> orderly R (insert p S) acts)"
| "orderly R S (Stop p # acts) = orderly R (insert p S) acts"
| "orderly R S (a # acts) = orderly R S acts"

text \<open>A part is stored as soon as it is started.\<close>

fun prompt :: "action list \<Rightarrow> bool" where
  "prompt [] = True"
| "prompt (Start p # acts) = ((acts = [] \<or> hd acts = Store p) \<and> prompt acts)"
| "prompt (a # acts) = prompt acts"

lemma orderly_append:
  "orderly R S (xs @ ys) \<longleftrightarrow> orderly R S xs
     \<and> orderly (R \<union> {p. Start p \<in> set xs}) (S \<union> {p. Store p \<in> set xs \<or> Stop p \<in> set xs}) ys"
proof (induction R S xs rule: orderly.induct)
  case (2 R S p acts)
  have "insert p R \<union> {q. Start q \<in> set acts} = R \<union> {q. Start q \<in> set (Start p # acts)}" by auto
  with 2 show ?case by simp
next
  case (3 R S p acts)
  have "insert p S \<union> {q. Store q \<in> set acts \<or> Stop q \<in> set acts}
      = S \<union> {q. Store q \<in> set (Store p # acts) \<or> Stop q \<in> set (Store p # acts)}" by auto
  with 3 show ?case by simp
next
  case (4 R S p acts)
  have "insert p S \<union> {q. Store q \<in> set acts \<or> Stop q \<in> set acts}
      = S \<union> {q. Store q \<in> set (Stop p # acts) \<or> Stop q \<in> set (Stop p # acts)}" by auto
  with 4 show ?case by simp
qed simp_all

lemma prompt_prefix: "prompt (xs @ ys) \<Longrightarrow> prompt xs"
proof (induction xs rule: prompt.induct)
  case (2 p acts)
  then show ?case by (cases acts) auto
qed auto

lemma prompt_last: "prompt xs \<Longrightarrow> Start p \<in> set xs \<Longrightarrow> Store p \<notin> set xs \<Longrightarrow> last xs = Start p"
proof (induction xs rule: prompt.induct)
  case (2 q acts)
  then show ?case by (cases acts) auto
qed (auto split: if_splits)

text \<open>Actions that neither start nor store anything.\<close>

definition closing :: "action \<Rightarrow> bool" where
  "closing a = (\<forall>p. a \<noteq> Start p \<and> a \<noteq> Store p)"

lemma closing_orderly: "\<forall>a \<in> set acts. closing a \<Longrightarrow> orderly R S acts \<and> prompt acts"
  by (induction R S acts rule: orderly.induct) (auto simp: closing_def)

lemma bring_up_order:
  "distinct ps \<Longrightarrow> set ps \<inter> S = {} \<Longrightarrow> \<forall>a \<in> set acts. closing a \<Longrightarrow>
     orderly R S (concat (map bring_up ps) @ acts) \<and> prompt (concat (map bring_up ps) @ acts)"
  by (induction ps arbitrary: R S) (auto simp: bring_up_def closing_orderly)

lemma stop_closing: "a \<in> set (stop g) \<Longrightarrow> closing a"
  by (auto simp: stop_def reset_def closing_def split: option.splits)

text \<open>Every run of the aggregator is like this.\<close>

lemma run_parts:
  assumes "argc \<noteq> 1" "tcp_enabled c \<or> udp_enabled c" "m_container m"
  shows "\<exists>n clock serve ending. aggregator_main hash m argc [] (Some (Inr c))
      = Start_container # concat (map bring_up (map Worker_part [0..<n] @ clock @ serve)) @ ending
    \<and> (clock = [] \<or> clock = [Clock_part]) \<and> (\<exists>rest. wanted c = serve @ rest) \<and> (\<forall>a \<in> set ending. closing a)"
  using configured_run[OF assms, of hash, unfolded Let_def]
proof (elim exE, goal_cases)
  case (1 n clock serve failed ending)
  then show ?case
    by (intro exI[of _ n] exI[of _ clock] exI[of _ serve] exI[of _ ending])
      (auto simp: closing_def split: if_split_asm option.split_asm failure.split_asm)
qed

lemma run_order: "orderly {} {} (aggregator_main hash m argc opts conf) \<and> prompt (aggregator_main hash m argc opts conf)"
proof (cases "\<exists>c. argc \<noteq> 1 \<and> opts = [] \<and> conf = Some (Inr c) \<and> (tcp_enabled c \<or> udp_enabled c) \<and> m_container m")
  case False
  then show ?thesis
    by (intro closing_orderly) (auto simp: aggregator_main_def options_def configure_def usage_def version_def
        closing_def split: list.splits option.splits sum.splits if_splits)
next
  case True
  then obtain c where c: "argc \<noteq> 1" "tcp_enabled c \<or> udp_enabled c" "m_container m"
    and o: "opts = []" "conf = Some (Inr c)" by blast
  from run_parts[OF c, of hash] obtain n clock serve ending where
    run: "aggregator_main hash m argc [] (Some (Inr c))
      = Start_container # concat (map bring_up (map Worker_part [0..<n] @ clock @ serve)) @ ending" and
    parts: "clock = [] \<or> clock = [Clock_part]" "\<exists>rest. wanted c = serve @ rest" and e: "\<forall>a \<in> set ending. closing a"
    by blast
  have "distinct (wanted c)" "set (wanted c) \<subseteq> {Udp_part, Tcp_part, Http_part}" by (auto simp: wanted_def)
  with parts have "distinct (map Worker_part [0..<n] @ clock @ serve)" by (auto simp: distinct_map inj_on_def)
  from bring_up_order[OF this _ e, of "{}" "{}"] show ?thesis unfolding o run by simp
qed

section \<open>What a stop reaches\<close>

definition pointed :: "part option \<Rightarrow> part list" where
  "pointed x = (case x of None \<Rightarrow> [] | Some p \<Rightarrow> [p])"

definition held_in :: "part option list \<Rightarrow> part list" where
  "held_in xs = concat (map pointed xs)"

definition others_held :: "globals \<Rightarrow> part list" where
  "others_held g = pointed (gl_http g) @ held_in (gl_servers g) @ pointed (gl_clock g)"

definition held :: "globals \<Rightarrow> part list" where
  "held g = others_held g @ held_in (gl_workers g)"

lemma pointed_simps [simp]: "pointed None = []" "pointed (Some p) = [p]"
  by (simp_all add: pointed_def)

lemma held_in_simps [simp]:
  "held_in [] = []" "held_in (x # xs) = pointed x @ held_in xs" "held_in (xs @ ys) = held_in xs @ held_in ys"
  by (simp_all add: held_in_def)

lemma pointed_null: "pointed (null_if p x) = filter (\<lambda>q. q \<noteq> p) (pointed x)"
  by (cases x) (simp_all add: null_if_def)

lemma held_in_null: "held_in (map (null_if p) xs) = filter (\<lambda>q. q \<noteq> p) (held_in xs)"
  by (induction xs) (simp_all add: pointed_null)

lemma reset_pointed: "reset x = map Stop (pointed x)"
  by (cases x) (simp_all add: reset_def)

lemma reset_held: "concat (map reset xs) = map Stop (held_in xs)"
  by (induction xs) (simp_all add: reset_pointed)

lemma stop_held: "stop g = map Stop (held g) @ [Exit 0]"
  by (simp add: stop_def held_def others_held_def reset_held reset_pointed)

text \<open>The kinds of parts the variables hold.\<close>

definition tidy :: "globals \<Rightarrow> bool" where
  "tidy g = (set (pointed (gl_http g)) \<subseteq> {Http_part} \<and> set (held_in (gl_servers g)) \<subseteq> {Udp_part, Tcp_part}
     \<and> set (pointed (gl_clock g)) \<subseteq> {Clock_part} \<and> set (held_in (gl_workers g)) \<subseteq> range Worker_part)"

lemma held_forget: "held (forget p g) = filter (\<lambda>q. q \<noteq> p) (held g)"
  by (simp add: held_def others_held_def forget_def held_in_null pointed_null)

lemma tidy_forget: "tidy g \<Longrightarrow> tidy (forget p g)"
  by (auto simp: tidy_def forget_def held_in_null pointed_null)

lemma tidy_store: "tidy g \<Longrightarrow> tidy (store p g)"
  by (cases p) (auto simp: tidy_def store_def)

lemma held_store:
  assumes "tidy g" "p \<notin> set (held g)" "distinct (held g)"
  shows "set (held (store p g)) = insert p (set (held g)) \<and> distinct (held (store p g))"
proof -
  have "gl_http g = None" if "p = Http_part"
    using assms(1,2) that by (cases "gl_http g") (auto simp: tidy_def held_def others_held_def)
  moreover have "gl_clock g = None" if "p = Clock_part"
    using assms(1,2) that by (cases "gl_clock g") (auto simp: tidy_def held_def others_held_def)
  ultimately show ?thesis using assms(2,3) by (cases p) (auto simp: held_def others_held_def store_def)
qed

text \<open>After an orderly run the variables hold what was stored and not stopped.\<close>

lemma held_after:
  "orderly {} {} acts \<Longrightarrow> tidy (globals_of acts) \<and> distinct (held (globals_of acts))
     \<and> set (held (globals_of acts)) = {p. Store p \<in> set acts \<and> Stop p \<notin> set acts}"
proof (induction acts rule: rev_induct)
  case Nil
  then show ?case by (simp add: globals_of_def null_globals_def tidy_def held_def others_held_def)
next
  case (snoc a acts)
  let ?g = "globals_of acts"
  have g: "globals_of (acts @ [a]) = effect a ?g" by (simp add: globals_append)
  from snoc.prems have o: "orderly {} {} acts" by (simp add: orderly_append)
  note ih = snoc.IH[OF o]
  show ?case
  proof (cases a)
    case (Store p)
    with snoc.prems have new: "Store p \<notin> set acts" "Stop p \<notin> set acts" by (simp_all add: orderly_append)
    with ih have "p \<notin> set (held ?g)" by simp
    with ih held_store[of ?g p] tidy_store[of ?g p] new show ?thesis unfolding g by (auto simp: Store)
  next
    case (Stop p)
    with ih tidy_forget[of ?g p] show ?thesis unfolding g by (auto simp: Stop held_forget)
  qed (use ih in \<open>simp_all add: globals_append\<close>)
qed

lemma orderly_started: "orderly R S acts \<Longrightarrow> Store p \<in> set acts \<Longrightarrow> p \<in> R \<or> Start p \<in> set acts"
  by (induction R S acts rule: orderly.induct) auto

section \<open>Properties\<close>

text \<open>
  C37. How a configured aggregator comes up. The workers come up before the clock, and the clock before
  the servers, each as far as the parts before it did. A run with everything up waits for a signal. When a worker
  does not come up, or a server with an exception that is a string, the run logs it and stops exactly
  what it had started, the servers first, then the clock, then the workers, and ends with status 0: the
  \<^verbatim>\<open>exit(1)\<close> behind the call of \<^verbatim>\<open>stop\<close> is never reached. When the clock does not come up, a server fails
  with another exception, or no worker is configured (the consumer divides by zero), the program is terminated with nothing stopped.
\<close>

theorem aggregator_startup:
  assumes "argc \<noteq> 1" "tcp_enabled c \<or> udp_enabled c" "m_container m"
  shows "\<exists>n clock serve failed ending. let workers = nat (cfg_workers c) in
    aggregator_main hash m argc [] (Some (Inr c))
      = Start_container # concat (map bring_up (map Worker_part [0..<n] @ clock @ serve)) @ ending
    \<and> n \<le> workers \<and> (\<forall>i < n. m_worker m i) \<and> (n < workers \<longrightarrow> \<not> m_worker m n)
    \<and> (if n < workers then clock = [] \<and> serve = []
         \<and> ending = Log_error ''Failed to instanstiate Worker'' # map Stop (map Worker_part [0..<n]) @ [Exit 0]
       else if \<not> m_clock m then clock = [] \<and> serve = [] \<and> ending = [Terminate]
       else clock = [Clock_part] \<and>
        (if \<exists>e. new_agg_consumer hash (cfg_name c) (cfg_workers c) = Inl e then serve = [] \<and> ending = [Terminate]
         else (\<forall>p \<in> set serve. refusal m p = None)
           \<and> (case failed of
               None \<Rightarrow> serve = wanted c \<and> ending = [Pause]
             | Some f \<Rightarrow> (\<exists>p rest. wanted c = serve @ p # rest \<and> refusal m p = Some f)
                 \<and> ending = (case f of
                     String_exception err \<Rightarrow>
                       Log_error err # map Stop (serve @ [Clock_part] @ map Worker_part [0..<n]) @ [Exit 0]
                   | Other_exception \<Rightarrow> [Terminate]))))"
  by (rule configured_run[OF assms])


text \<open>A configuration with one worker and the TCP server, whose port is taken.\<close>

definition small_config :: aggregator_config where
  "small_config = \<lparr>tcp_port = 8125, tcp_enabled = True, udp_port = -1, udp_threads = 1, udp_recv_buffer = 0,
     udp_enabled = False, http_port = 8080, http_enabled = False, cfg_workers = 1, cfg_log_level = Warn,
     cfg_name = ''st'', cfg_prefix = [], cfg_prefix_counter = [], cfg_prefix_timer = [], cfg_prefix_gauge = [],
     cfg_prefix_set = [], cfg_frequency = 10, cfg_percentiles = [90], cfg_carbon = [], cfg_repeaters = [],
     cfg_stdout = True\<rparr>"

definition port_taken :: machine where
  "port_taken = \<lparr>m_container = True, m_worker = (\<lambda>_. True), m_clock = True, m_udp = None,
     m_tcp = Some (String_exception ''bind''), m_http = None\<rparr>"

lemma port_taken_configured:
  "(2::nat) \<noteq> 1" "tcp_enabled small_config \<or> udp_enabled small_config" "m_container port_taken"
  by (simp_all add: small_config_def port_taken_def)

theorem aggregator_startup_witness:
  "\<exists>acts. aggregator_main (\<lambda>_. 0) port_taken 2 [] (Some (Inr small_config))
     = acts @ [Log_error ''bind'', Stop Clock_part, Stop (Worker_part 0), Exit 0]"
proof -
  have c: "new_agg_consumer (\<lambda>_. 0) (cfg_name small_config) (cfg_workers small_config)
      = Inr \<lparr>bad_keys_metric = ''st.bad_keys:1|c'', bad_keys_queue_hash = 0\<rparr>"
    by (simp add: small_config_def) code_simp
  have w: "wanted small_config = [Tcp_part]" "nat (cfg_workers small_config) = 1" "\<And>i. m_worker port_taken i"
    "m_clock port_taken" "refusal port_taken Tcp_part = Some (String_exception ''bind'')"
    by (simp_all add: small_config_def port_taken_def wanted_def refusal_def)
  from aggregator_startup[OF port_taken_configured, of "\<lambda>_. 0"] show ?thesis
    unfolding Let_def w(1,2) c
  proof (elim exE, goal_cases)
    case (1 n clock serve failed ending)
    with w(3) have "n = 1" by auto
    with 1 w(4) have e: "\<forall>p \<in> set serve. refusal port_taken p = None" "case failed of
          None \<Rightarrow> serve = [Tcp_part] \<and> ending = [Pause]
        | Some f \<Rightarrow> (\<exists>p rest. [Tcp_part] = serve @ p # rest \<and> refusal port_taken p = Some f)
            \<and> ending = (case f of
                String_exception err \<Rightarrow> Log_error err # map Stop (serve @ [Clock_part] @ map Worker_part [0..<n]) @ [Exit 0]
              | Other_exception \<Rightarrow> [Terminate])"
      by simp_all
    then obtain f p rest where "failed = Some f" "[Tcp_part] = serve @ p # rest" "refusal port_taken p = Some f"
      using w(5) by (cases failed) auto
    moreover from this(2) have "serve = []" "p = Tcp_part" by (cases serve; simp)+
    ultimately have "ending = [Log_error ''bind'', Stop Clock_part, Stop (Worker_part 0), Exit 0]"
      using e(2) w(5) \<open>n = 1\<close> by auto
    moreover from 1 have "aggregator_main (\<lambda>_. 0) port_taken 2 [] (Some (Inr small_config))
        = (Start_container # concat (map bring_up (map Worker_part [0..<n] @ clock @ serve))) @ ending"
      by (elim conjE) simp
    ultimately show ?case by blast
  qed
qed

text \<open>
  The proxy comes up with no server at all: unlike the aggregator it does not check that one
  is enabled. It waits for a signal, and nothing can reach it.
\<close>

theorem proxy_without_servers:
  assumes "argc \<noteq> 1" "m_worker m 0" "\<not> tcp_enabled c" "\<not> udp_enabled c" "\<not> http_enabled c"
  shows "proxy_main m argc [] (Some (Inr c)) = bring_up (Worker_part 0) @ [Pause]"
  using assms by (simp add: proxy_main_def proxy_options_def proxy_configure_def start_servers_def)

definition quiet_proxy :: "unit proxy_config" where
  "quiet_proxy = \<lparr>tcp_port = -1, tcp_enabled = False, udp_port = -1, udp_threads = 1, udp_recv_buffer = 0,
     udp_enabled = False, http_port = 8080, http_enabled = False, cfg_workers = 1, cfg_log_level = Warn,
     px_aggregators = [], px_stdout = False, px_blacklist = []\<rparr>"

theorem proxy_without_servers_witness:
  "proxy_main port_taken 2 [] (Some (Inr quiet_proxy)) = [Start (Worker_part 0), Store (Worker_part 0), Pause]"
  using proxy_without_servers[of 2 port_taken quiet_proxy] by (simp add: quiet_proxy_def port_taken_def bring_up_def)


end
