(* ===== verification/Factories.thy ===== *)
theory Factories
  imports Server_Threads Startup
begin

text \<open>
  How the servers of a program come to be: \<^verbatim>\<open>include/statsdcc/server_factory.h\<close>, the constructors
  it calls, the HTTP servers of \<^verbatim>\<open>include/statsdcc/net/servers/http/\<close>, and the block of
  \<^verbatim>\<open>src/aggregator.cc\<close> and \<^verbatim>\<open>src/proxy.cc\<close> that starts what the configuration asks for.
  \<open>Startup\<close> takes what comes up as an argument; here it follows from the answers of the
  operating system: those to the system calls, which threads can be started (\<open>up\<close> for those of
  the UDP server, \<open>tcp_up\<close> for the one of the TCP server), and \<open>mhd\<close>, libmicrohttpd's
  \<^verbatim>\<open>MHD_start_daemon\<close>, which makes system calls of its own to listen on a port and returns a daemon or a null pointer.
\<close>

section \<open>Servers and what \<open>new\<close> gives\<close>

datatype server =
    Udp_server (sv_port: int) (sv_threads: nat) (sv_recv_buffer: int)
  | Tcp_server (sv_port: int) (sv_sockfd: int)

text \<open>A \<^verbatim>\<open>new\<close> expression has a value, or an exception leaves it.\<close>

datatype 'a made = Made 'a | Throws_string string | Throws_other

fun failed_with :: "'a made \<Rightarrow> failure option" where
  "failed_with (Made x) = None"
| "failed_with (Throws_string msg) = Some (String_exception msg)"
| "failed_with Throws_other = Some Other_exception"

text \<open>
  \<^verbatim>\<open>get_udp_server\<close> and \<^verbatim>\<open>get_tcp_server\<close>. A thread that cannot be started is a
  \<^verbatim>\<open>std::system_error\<close>.
\<close>

definition get_udp_server :: "(nat \<Rightarrow> bool) \<Rightarrow> int \<Rightarrow> int \<Rightarrow> int \<Rightarrow> server made" where
  "get_udp_server up port_no num_threads recv_buffer =
     (case new_udp_server up num_threads of
        (acts, Some n) \<Rightarrow> Made (Udp_server port_no n recv_buffer)
      | (acts, None) \<Rightarrow> Throws_other)"

definition get_tcp_server :: "bool \<Rightarrow> int \<Rightarrow> env \<Rightarrow> server made run" where
  "get_tcp_server tcp_up port_no s =
     (case new_tcp_server port_no s of
        Done fd t \<Rightarrow>
          (case tcp_start_thread tcp_up of
             (acts, Some n) \<Rightarrow> Done (Made (Tcp_server port_no fd)) t
           | (acts, None) \<Rightarrow> Done Throws_other t)
      | Crash (Thrown msg) t \<Rightarrow> Done (Throws_string msg) t
      | Crash e t \<Rightarrow> Crash e t
      | Waiting t \<Rightarrow> Waiting t)"

text \<open>
  The constructors of the HTTP servers. libmicrohttpd takes the port as 16 bits; \<^verbatim>\<open>main_pid\<close> is
  static and set before the daemon is started, and is the second component. A null pointer is
  \<open>None\<close>.
\<close>

type_synonym 'd daemon_start = "16 word \<Rightarrow> env \<Rightarrow> 'd option run"

definition new_http_server :: "'d daemon_start \<Rightarrow> int \<Rightarrow> int \<Rightarrow> env \<Rightarrow> ('d made \<times> int) run" where
  "new_http_server mhd port_no pid s =
     run_bind (mhd (word_of_int port_no) s) (\<lambda>d s. case d of
        None \<Rightarrow> Done (Throws_string ''Failed to start HTTP server'', pid) s
      | Some d \<Rightarrow> Done (Made d, pid) s)"

definition new_proxy_http_server :: "'d daemon_start \<Rightarrow> int \<Rightarrow> int \<Rightarrow> env \<Rightarrow> ('d made \<times> int) run" where
  "new_proxy_http_server mhd port_no pid s =
     run_bind (mhd (word_of_int port_no) s) (\<lambda>d s. case d of
        None \<Rightarrow> Done (Throws_string ''Failed to start HTTP server'', pid) s
      | Some d \<Rightarrow> Done (Made d, pid) s)"

text \<open>
  What is relied on of the library: a daemon owns the descriptors \<open>fds d\<close>, which are the ones its start
  has opened and not closed again.
\<close>

definition daemon_descriptors :: "'d daemon_start \<Rightarrow> ('d \<Rightarrow> int multiset) \<Rightarrow> bool" where
  "daemon_descriptors mhd fds = (\<forall>p s d t. mhd p s = Done (Some d) t \<longrightarrow> moves s t {#} (fds d))"

text \<open>The destructors stop the daemon of the object: the calls of \<^verbatim>\<open>MHD_stop_daemon\<close>.\<close>

definition destroy_http_server :: "'d \<Rightarrow> 'd list" where
  "destroy_http_server d = [d]"

definition destroy_proxy_http_server :: "'d \<Rightarrow> 'd list" where
  "destroy_proxy_http_server d = [d]"

section \<open>The block that starts the servers\<close>

text \<open>
  The globals \<^verbatim>\<open>servers\<close> and \<^verbatim>\<open>http_server\<close> and the exception that left the block, with the static
  \<^verbatim>\<open>main_pid\<close>.
\<close>

record 'd serving =
  g_servers :: "server list"
  g_http :: "'d option"
  g_main_pid :: int
  g_failed :: "failure option"

definition idle_serving :: "int \<Rightarrow> 'd serving" where
  "idle_serving pid = \<lparr>g_servers = [], g_http = None, g_main_pid = pid, g_failed = None\<rparr>"

text \<open>One guarded statement of the block: it does nothing when it is off or an exception is under way.\<close>

definition serve_if :: "bool \<Rightarrow> ('d serving \<Rightarrow> env \<Rightarrow> 'd serving run) \<Rightarrow> 'd serving \<Rightarrow> env \<Rightarrow> 'd serving run" where
  "serve_if on f g s = (if on \<and> g_failed g = None then f g s else Done g s)"

definition push_server :: "server made \<Rightarrow> 'd serving \<Rightarrow> 'd serving" where
  "push_server m g = (case m of Made sv \<Rightarrow> g\<lparr>g_servers := g_servers g @ [sv]\<rparr> | _ \<Rightarrow> g\<lparr>g_failed := failed_with m\<rparr>)"

definition set_http :: "'d made \<times> int \<Rightarrow> 'd serving \<Rightarrow> 'd serving" where
  "set_http m g = (case m of
      (Made d, pid) \<Rightarrow> g\<lparr>g_http := Some d, g_main_pid := pid\<rparr>
    | (x, pid) \<Rightarrow> g\<lparr>g_failed := failed_with x, g_main_pid := pid\<rparr>)"

definition aggregator_serve ::
  "(nat \<Rightarrow> bool) \<Rightarrow> bool \<Rightarrow> 'd daemon_start \<Rightarrow> int \<Rightarrow> 'a config_scheme \<Rightarrow> 'd serving \<Rightarrow> env \<Rightarrow> 'd serving run"
where
  "aggregator_serve up tcp_up mhd tid c g s =
     run_bind (serve_if (udp_enabled c)
         (\<lambda>g. Done (push_server (get_udp_server up (udp_port c) (udp_threads c) (udp_recv_buffer c)) g)) g s) (\<lambda>g s.
       run_bind (serve_if (tcp_enabled c)
           (\<lambda>g s. run_bind (get_tcp_server tcp_up (tcp_port c) s) (\<lambda>m s. Done (push_server m g) s)) g s) (\<lambda>g s.
         serve_if (http_enabled c)
           (\<lambda>g s. run_bind (new_http_server mhd (http_port c) tid s) (\<lambda>m s. Done (set_http m g) s)) g s))"

definition proxy_serve ::
  "(nat \<Rightarrow> bool) \<Rightarrow> bool \<Rightarrow> 'd daemon_start \<Rightarrow> int \<Rightarrow> 'a config_scheme \<Rightarrow> 'd serving \<Rightarrow> env \<Rightarrow> 'd serving run"
where
  "proxy_serve up tcp_up mhd tid c g s =
     run_bind (serve_if (udp_enabled c)
         (\<lambda>g. Done (push_server (get_udp_server up (udp_port c) (udp_threads c) (udp_recv_buffer c)) g)) g s) (\<lambda>g s.
       run_bind (serve_if (tcp_enabled c)
           (\<lambda>g s. run_bind (get_tcp_server tcp_up (tcp_port c) s) (\<lambda>m s. Done (push_server m g) s)) g s) (\<lambda>g s.
         serve_if (http_enabled c)
           (\<lambda>g s. run_bind (new_proxy_http_server mhd (http_port c) tid s) (\<lambda>m s. Done (set_http m g) s)) g s))"

section \<open>What the block leaves\<close>

text \<open>
  The answers of the operating system as \<open>Startup\<close> takes them, and what the block did as actions.
\<close>

definition answered ::
  "machine \<Rightarrow> (nat \<Rightarrow> bool) \<Rightarrow> bool \<Rightarrow> 'd daemon_start \<Rightarrow> 'a config_scheme \<Rightarrow> env \<Rightarrow> machine"
where
  "answered m up tcp_up mhd c s = m\<lparr>
     m_udp := failed_with (get_udp_server up (udp_port c) (udp_threads c) (udp_recv_buffer c)),
     m_tcp := (case get_tcp_server tcp_up (tcp_port c) s of Done x t \<Rightarrow> failed_with x | _ \<Rightarrow> None),
     m_http := (let u = (if tcp_enabled c then env_of (get_tcp_server tcp_up (tcp_port c) s) else s) in
       case new_http_server mhd (http_port c) 0 u of Done x t \<Rightarrow> failed_with (fst x) | _ \<Rightarrow> None)\<rparr>"

definition server_part :: "server \<Rightarrow> part" where
  "server_part sv = (case sv of Udp_server _ _ _ \<Rightarrow> Udp_part | Tcp_server _ _ \<Rightarrow> Tcp_part)"

definition serving_parts :: "'d serving \<Rightarrow> part list" where
  "serving_parts g = map server_part (g_servers g) @ (if g_http g = None then [] else [Http_part])"

lemma udp_server_made: "get_udp_server up p n rb = Made sv \<Longrightarrow> server_part sv = Udp_part"
  by (auto simp: get_udp_server_def server_part_def split: prod.split_asm option.split_asm)

lemma tcp_server_made: "get_tcp_server up p s = Done (Made sv) t \<Longrightarrow> server_part sv = Tcp_part"
  by (auto simp: get_tcp_server_def server_part_def
      split: run.split_asm fault.split_asm prod.split_asm option.split_asm)

lemma http_made:
  "new_http_server mhd p pid s = Done x t \<Longrightarrow> new_http_server mhd p 0 s = Done (fst x, 0) t \<and> snd x = pid
     \<and> (fst x = Throws_string ''Failed to start HTTP server'' \<or> (\<exists>d. fst x = Made d \<and> mhd (word_of_int p) s = Done (Some d) t))"
  by (auto simp: new_http_server_def elim!: run_bind_DoneE split: option.splits)

lemma new_udp_server_number: "snd (new_udp_server up k) = Some n \<Longrightarrow> n = nat k"
proof -
  assume n: "snd (new_udp_server up k) = Some n"
  obtain acts j all where st: "start_threads up 0 (nat k) = (acts, j, all)" by (metis prod_cases3)
  from start_threads_shape[OF st] n show ?thesis by (auto simp: new_udp_server_def st split: if_split_asm)
qed

lemma udp_server_is: "get_udp_server up p k rb = Made sv \<Longrightarrow> sv = Udp_server p (nat k) rb"
  using new_udp_server_number[of up k]
  by (auto simp: get_udp_server_def split: prod.split_asm option.split_asm)

lemma tcp_server_is:
  assumes "get_tcp_server tcp_up p s = Done (Made sv) t"
  shows "\<exists>fd. sv = Tcp_server p fd \<and> moves s t {#} {#fd#}"
proof -
  from assms obtain fd where fd: "new_tcp_server p s = Done fd t" "sv = Tcp_server p fd"
    by (auto simp: get_tcp_server_def split: run.split_asm fault.split_asm prod.split_asm option.split_asm)
  from fd(1) have "moves s t {#} {#fd#}" by (rule new_tcp_server_moves)
  with fd(2) show ?thesis by blast
qed

text \<open>The three statements of the block, for what is known of the state before each.\<close>

definition wanted_servers :: "'a config_scheme \<Rightarrow> int \<Rightarrow> server list" where
  "wanted_servers c fd =
     (if udp_enabled c then [Udp_server (udp_port c) (nat (udp_threads c)) (udp_recv_buffer c)] else [])
     @ (if tcp_enabled c then [Tcp_server (tcp_port c) fd] else [])"

lemma serve_if_Done:
  "serve_if on f g s = Done g' t \<longleftrightarrow> (if on \<and> g_failed g = None then f g s = Done g' t else g' = g \<and> t = s)"
  by (auto simp: serve_if_def)

lemma aggregator_serve_Done:
  assumes "aggregator_serve up tcp_up mhd tid c g s = Done g3 t"
  obtains g1 g2 s2 where
    "g1 = (if udp_enabled c \<and> g_failed g = None
       then push_server (get_udp_server up (udp_port c) (udp_threads c) (udp_recv_buffer c)) g else g)"
    "if tcp_enabled c \<and> g_failed g1 = None
       then \<exists>m. get_tcp_server tcp_up (tcp_port c) s = Done m s2 \<and> g2 = push_server m g1 else g2 = g1 \<and> s2 = s"
    "if http_enabled c \<and> g_failed g2 = None
       then \<exists>m. new_http_server mhd (http_port c) tid s2 = Done m t \<and> g3 = set_http m g2 else g3 = g2 \<and> t = s2"
proof -
  from assms obtain g1 s1 g2 s2 where
    "serve_if (udp_enabled c)
       (\<lambda>g. Done (push_server (get_udp_server up (udp_port c) (udp_threads c) (udp_recv_buffer c)) g)) g s = Done g1 s1"
    "serve_if (tcp_enabled c)
       (\<lambda>g s. run_bind (get_tcp_server tcp_up (tcp_port c) s) (\<lambda>m s. Done (push_server m g) s)) g1 s1 = Done g2 s2"
    "serve_if (http_enabled c)
       (\<lambda>g s. run_bind (new_http_server mhd (http_port c) tid s) (\<lambda>m s. Done (set_http m g) s)) g2 s2 = Done g3 t"
    unfolding aggregator_serve_def by (elim run_bind_DoneE)
  then show thesis
    by (intro that[of g1 s2 g2]) (auto simp: serve_if_Done elim!: run_bind_DoneE split: if_split_asm)
qed

text \<open>
  The block as \<open>Startup\<close> sees it: each statement is one step of its fold.
\<close>

definition serve_view :: "'d serving \<Rightarrow> part list \<times> failure option" where
  "serve_view g = (serving_parts g, g_failed g)"

definition serve_step :: "part \<Rightarrow> failure option \<Rightarrow> part list \<times> failure option \<Rightarrow> part list \<times> failure option" where
  "serve_step p fails = (\<lambda>(ps, failed).
     if failed \<noteq> None then (ps, failed)
     else case fails of None \<Rightarrow> (ps @ [p], None) | Some f \<Rightarrow> (ps, Some f))"

lemma start_servers_steps:
  "start_servers m c =
     (if http_enabled c then serve_step Http_part (m_http m) else id)
       ((if tcp_enabled c then serve_step Tcp_part (m_tcp m) else id)
         ((if udp_enabled c then serve_step Udp_part (m_udp m) else id) ([], None)))"
  by (simp add: start_servers_def serve_step_def Let_def)

lemma serve_step_failed: "g_failed g \<noteq> None \<Longrightarrow> serve_step p f (serve_view g) = serve_view g"
  by (simp add: serve_step_def serve_view_def)

lemma serve_view_push:
  "g_failed g = None \<Longrightarrow> g_http g = None \<Longrightarrow> (\<And>sv. m = Made sv \<Longrightarrow> server_part sv = p) \<Longrightarrow>
    serve_view (push_server m g) = serve_step p (failed_with m) (serve_view g)"
  by (cases m) (simp_all add: serve_view_def serve_step_def push_server_def serving_parts_def)

lemma serve_view_http:
  "g_failed g = None \<Longrightarrow> g_http g = None \<Longrightarrow>
    serve_view (set_http m g) = serve_step Http_part (failed_with (fst m)) (serve_view g)"
  by (cases m; cases "fst m") (simp_all add: serve_view_def serve_step_def set_http_def serving_parts_def)

lemma push_server_http [simp]: "g_http (push_server m g) = g_http g"
  by (cases m) (simp_all add: push_server_def)

lemma serve_view_tcp:
  "g_failed g = None \<Longrightarrow> g_http g = None \<Longrightarrow> get_tcp_server tcp_up p s = Done m t \<Longrightarrow>
    serve_view (push_server m g) = serve_step Tcp_part (failed_with m) (serve_view g)"
  by (rule serve_view_push) (simp_all add: tcp_server_made)

lemma made_failed: "failed_with m = None \<longleftrightarrow> (\<exists>x. m = Made x)"
  by (cases m) auto

lemma push_server_fields:
  "g_failed g = None \<Longrightarrow> g_failed (push_server m g) = failed_with m"
  "g_servers (push_server m g) = g_servers g @ (case m of Made sv \<Rightarrow> [sv] | _ \<Rightarrow> [])"
  by (cases m; simp add: push_server_def)+

lemmas serving_simps = push_server_fields idle_serving_def

text \<open>
  What the block did, by its statements: the states after the first two and the answers used.
\<close>

definition block_run ::
  "(nat \<Rightarrow> bool) \<Rightarrow> bool \<Rightarrow> 'd daemon_start \<Rightarrow> int \<Rightarrow> 'a config_scheme \<Rightarrow> int \<Rightarrow> env \<Rightarrow> 'd serving \<Rightarrow>
    'd serving \<Rightarrow> env \<Rightarrow> 'd serving \<Rightarrow> env \<Rightarrow> bool"
where
  "block_run up tcp_up mhd tid c pid s g1 g2 s2 g t =
     (g1 = (if udp_enabled c
        then push_server (get_udp_server up (udp_port c) (udp_threads c) (udp_recv_buffer c)) (idle_serving pid)
        else idle_serving pid)
      \<and> (if tcp_enabled c \<and> g_failed g1 = None
        then \<exists>m. get_tcp_server tcp_up (tcp_port c) s = Done m s2 \<and> g2 = push_server m g1 else g2 = g1 \<and> s2 = s)
      \<and> (if http_enabled c \<and> g_failed g2 = None
        then \<exists>m. new_http_server mhd (http_port c) tid s2 = Done m t \<and> g = set_http m g2 else g = g2 \<and> t = s2))"

lemma block_runE:
  assumes "aggregator_serve up tcp_up mhd tid c (idle_serving pid) s = Done g t"
  obtains g1 g2 s2 where "block_run up tcp_up mhd tid c pid s g1 g2 s2 g t"
  by (rule aggregator_serve_Done[OF assms]) (auto simp: block_run_def idle_serving_def intro: that)

lemma block_run_http:
  assumes "block_run up tcp_up mhd tid c pid s g1 g2 s2 g t"
  shows "g_http g1 = None" "g_http g2 = None"
proof -
  show "g_http g1 = None" using assms by (simp add: block_run_def idle_serving_def)
  then show "g_http g2 = None" using assms by (auto simp: block_run_def split: if_split_asm)
qed

lemma serving_refines:
  assumes "aggregator_serve up tcp_up mhd tid c (idle_serving pid) s = Done g t"
  shows "start_servers (answered m up tcp_up mhd c s) c = serve_view g"
proof -
  let ?a = "answered m up tcp_up mhd c s"
  let ?udp = "get_udp_server up (udp_port c) (udp_threads c) (udp_recv_buffer c)"
  obtain g1 g2 s2 where r: "block_run up tcp_up mhd tid c pid s g1 g2 s2 g t" by (rule block_runE[OF assms])
  note h = block_run_http[OF r]
  let ?idle = "idle_serving pid :: 'a serving"
  have start: "serve_view ?idle = ([], None)" "g_failed ?idle = None" "g_http ?idle = None"
    by (simp_all add: serve_view_def idle_serving_def serving_parts_def)
  have v1: "serve_view g1 = (if udp_enabled c then serve_step Udp_part (m_udp ?a) else id) ([], None)"
    using r serve_view_push[OF start(2,3) udp_server_made] by (simp add: block_run_def start answered_def)
  have v2: "serve_view g2 = (if tcp_enabled c then serve_step Tcp_part (m_tcp ?a) else id) (serve_view g1)"
    using r serve_view_tcp[OF _ h(1)] by (auto simp: block_run_def answered_def serve_step_failed split: if_split_asm)
  have v3: "serve_view g = (if http_enabled c then serve_step Http_part (m_http ?a) else id) (serve_view g2)"
  proof (cases "http_enabled c \<and> g_failed g2 = None")
    case False
    with r show ?thesis by (auto simp: block_run_def serve_step_failed)
  next
    case True
    then obtain x where x: "new_http_server mhd (http_port c) tid s2 = Done x t" "g = set_http x g2"
      using r by (auto simp: block_run_def)
    have "g_failed g1 = None" if "tcp_enabled c" using r True by (auto simp: block_run_def split: if_split_asm)
    then have "s2 = (if tcp_enabled c then env_of (get_tcp_server tcp_up (tcp_port c) s) else s)"
      using r by (auto simp: block_run_def)
    then have "m_http ?a = failed_with (fst x)" using http_made[OF x(1)] by (simp add: answered_def)
    with serve_view_http[OF _ h(2)] True x(2) show ?thesis by simp
  qed
  show ?thesis by (simp add: start_servers_steps v1 v2 v3)
qed

lemma serving_complete:
  assumes "aggregator_serve up tcp_up mhd tid c (idle_serving pid) s = Done g t" "g_failed g = None"
    and "daemon_descriptors mhd fds"
  shows "\<exists>fd. g_servers g = wanted_servers c fd
    \<and> moves s t {#} ((if tcp_enabled c then {#fd#} else {#}) + (case g_http g of None \<Rightarrow> {#} | Some d \<Rightarrow> fds d))
    \<and> (if http_enabled c then \<exists>d u. g_http g = Some d \<and> mhd (word_of_int (http_port c)) u = Done (Some d) t
       else g_http g = None)"
proof -
  obtain g1 g2 s2 where r: "block_run up tcp_up mhd tid c pid s g1 g2 s2 g t" by (rule block_runE[OF assms(1)])
  note h = block_run_http[OF r]
  have f2: "g_failed g2 = None"
    using r assms(2) by (auto simp: block_run_def split: if_split_asm)
  have f1: "g_failed g1 = None" using r f2 by (auto simp: block_run_def split: if_split_asm)
  have s1: "g_servers g1 = (if udp_enabled c then [Udp_server (udp_port c) (nat (udp_threads c)) (udp_recv_buffer c)] else [])"
    using f1 r by (auto simp: block_run_def serving_simps made_failed dest: udp_server_is split: if_split_asm)
  have "\<exists>fd. g_servers g2 = wanted_servers c fd \<and> moves s s2 {#} (if tcp_enabled c then {#fd#} else {#})"
  proof (cases "tcp_enabled c")
    case True
    with r f1 obtain m where m: "get_tcp_server tcp_up (tcp_port c) s = Done m s2" "g2 = push_server m g1"
      by (auto simp: block_run_def)
    with f1 f2 obtain sv where "m = Made sv" by (auto simp: serving_simps made_failed)
    with m tcp_server_is[of tcp_up "tcp_port c" s sv s2] obtain fd where
      "m = Made (Tcp_server (tcp_port c) fd)" "moves s s2 {#} {#fd#}" by blast
    with m(2) s1 True show ?thesis by (auto simp: wanted_servers_def serving_simps)
  next
    case False
    with r s1 show ?thesis by (simp add: block_run_def wanted_servers_def moves_def)
  qed
  then obtain fd where fd: "g_servers g2 = wanted_servers c fd" "moves s s2 {#} (if tcp_enabled c then {#fd#} else {#})"
    by blast
  show ?thesis
  proof (cases "http_enabled c")
    case False
    with r fd h(2) show ?thesis by (auto simp: block_run_def)
  next
    case True
    with r f2 obtain x where x: "new_http_server mhd (http_port c) tid s2 = Done x t" "g = set_http x g2"
      by (auto simp: block_run_def)
    with http_made[OF x(1)] assms(2) obtain d where d: "fst x = Made d" "mhd (word_of_int (http_port c)) s2 = Done (Some d) t"
      by (cases x) (auto simp: set_http_def)
    with x(2) have g: "g_servers g = g_servers g2" "g_http g = Some d" by (cases x; simp add: set_http_def)+
    from assms(3) d(2) have "moves s2 t {#} (fds d)" by (simp add: daemon_descriptors_def)
    with fd(2) have "moves s t {#} ((if tcp_enabled c then {#fd#} else {#}) + fds d)"
      by (auto simp: moves_def)
    with g fd(1) d(2) True show ?thesis by auto
  qed
qed

text \<open>
  The two programs have the same block. A thread that cannot be started leaves the socket of
  the TCP server open: \<^verbatim>\<open>~Server\<close> does not close it.
\<close>

lemma proxy_serve_is: "proxy_serve = aggregator_serve"
  by (intro ext) (simp add: proxy_serve_def aggregator_serve_def new_proxy_http_server_def new_http_server_def)

lemma tcp_thread_failure_leaks:
  assumes "get_tcp_server tcp_up p s = Done Throws_other t"
  shows "\<exists>fd. moves s t {#} {#fd#}"
proof -
  from assms obtain fd where "new_tcp_server p s = Done fd t"
    by (auto simp: get_tcp_server_def split: run.split_asm fault.split_asm prod.split_asm option.split_asm)
  then show ?thesis using new_tcp_server_moves by blast
qed

section \<open>Properties\<close>

text \<open>
  C38. The start of the servers, from the answers of the operating system: the block of
  \<^verbatim>\<open>aggregator.cc\<close> does what \<open>Startup\<close> says of it, with a failure exactly where a constructor
  throws. When it does not fail, the globals hold one server for each the configuration
  enables, with its port, threads and buffer, and, when it is enabled, the HTTP daemon that was started on its
  port. The descriptors the block has opened are the socket of the TCP server and those of the
  HTTP daemon, both when enabled. (The threads of the UDP server, which it starts, open their own later.)
\<close>

theorem servers_come_up:
  assumes "aggregator_serve up tcp_up mhd tid c (idle_serving pid) s = Done g t"
    and "daemon_descriptors mhd fds"
  shows "start_servers (answered m up tcp_up mhd c s) c = (serving_parts g, g_failed g)
    \<and> (g_failed g = None \<longrightarrow> serving_parts g = wanted c \<and> (\<exists>fd. g_servers g = wanted_servers c fd
        \<and> moves s t {#} ((if tcp_enabled c then {#fd#} else {#}) + (case g_http g of None \<Rightarrow> {#} | Some d \<Rightarrow> fds d))
        \<and> (if http_enabled c then \<exists>d u. g_http g = Some d \<and> mhd (word_of_int (http_port c)) u = Done (Some d) t
           else g_http g = None)))"
proof
  show "start_servers (answered m up tcp_up mhd c s) c = (serving_parts g, g_failed g)"
    using serving_refines[OF assms(1)] by (simp add: serve_view_def)
  show "g_failed g = None \<longrightarrow> serving_parts g = wanted c \<and> (\<exists>fd. g_servers g = wanted_servers c fd
        \<and> moves s t {#} ((if tcp_enabled c then {#fd#} else {#}) + (case g_http g of None \<Rightarrow> {#} | Some d \<Rightarrow> fds d))
        \<and> (if http_enabled c then \<exists>d u. g_http g = Some d \<and> mhd (word_of_int (http_port c)) u = Done (Some d) t
           else g_http g = None))"
  proof
    assume "g_failed g = None"
    note all = serving_complete[OF assms(1) this assms(2)]
    then have "serving_parts g = wanted c"
      by (auto simp: serving_parts_def wanted_def wanted_servers_def server_part_def split: if_split_asm)
    with all show "serving_parts g = wanted c \<and> (\<exists>fd. g_servers g = wanted_servers c fd
        \<and> moves s t {#} ((if tcp_enabled c then {#fd#} else {#}) + (case g_http g of None \<Rightarrow> {#} | Some d \<Rightarrow> fds d))
        \<and> (if http_enabled c then \<exists>d u. g_http g = Some d \<and> mhd (word_of_int (http_port c)) u = Done (Some d) t
           else g_http g = None))" by blast
  qed
qed

text \<open>A configuration with all three servers, on a system that can start them.\<close>

definition three_servers :: config where
  "three_servers = \<lparr>tcp_port = 8126, tcp_enabled = True, udp_port = 8125, udp_threads = 2, udp_recv_buffer = 65536,
     udp_enabled = True, http_port = 8080, http_enabled = True, cfg_workers = 1, cfg_log_level = Warn\<rparr>"

definition willing_env :: env where
  "willing_env = quiet_env\<lparr>q_socket := [Ret 4, Ret 5], q_bind := [Ret 0], q_listen := [Ret 0]\<rparr>"

text \<open>A daemon that opens one socket; it is its descriptor.\<close>

definition socket_daemon :: "int daemon_start" where
  "socket_daemon p s = run_bind (sys_call q_socket q_socket_update Ev_socket s) (\<lambda>r s. Done (case r of
     Ret n \<Rightarrow> Some (int n) | Fail e \<Rightarrow> None) s)"

lemma socket_daemon_descriptors: "daemon_descriptors socket_daemon (\<lambda>d. {#d#})"
  by (auto simp: daemon_descriptors_def socket_daemon_def sys_call_Done moves_def trace_Cons split: answer.split_asm
      elim!: run_bind_DoneE)

theorem servers_come_up_witness:
  "\<exists>g t fd. aggregator_serve (\<lambda>i. True) True socket_daemon 77 three_servers (idle_serving 0) willing_env = Done g t
     \<and> g_servers g = [Udp_server 8125 2 65536, Tcp_server 8126 fd] \<and> g_http g = Some 5
     \<and> moves willing_env t {#} {#fd, 5#}"
proof -
  have u: "get_udp_server (\<lambda>i. True) 8125 2 65536 = Made (Udp_server 8125 2 65536)"
    by (simp add: get_udp_server_def new_udp_server_def numeral_2_eq_2)
  have "\<exists>t. get_tcp_server True 8126 willing_env = Done (Made (Tcp_server 8126 4)) t \<and> q_socket t = [Ret 5]"
    by (simp add: get_tcp_server_def new_tcp_server_def willing_env_def quiet_env_def w_socket_def sys_call_def
        log_failure_def fd_of_def w_bind_def w_listen_def tcp_start_thread_def)
  then obtain t where t: "get_tcp_server True 8126 willing_env = Done (Made (Tcp_server 8126 4)) t" "q_socket t = [Ret 5]"
    by blast
  obtain g u' where g: "aggregator_serve (\<lambda>i. True) True socket_daemon 77 three_servers (idle_serving 0) willing_env = Done g u'"
    "g_failed g = None" "g_http g = Some 5"
    by (simp add: aggregator_serve_def serve_if_def three_servers_def u t push_server_def idle_serving_def
        new_http_server_def socket_daemon_def sys_call_def set_http_def)
  from servers_come_up[OF g(1) socket_daemon_descriptors] g(2,3) obtain fd where
    "g_servers g = wanted_servers three_servers fd" "moves willing_env u' {#} {#fd, 5#}"
    by (auto simp: three_servers_def add_mset_commute)
  with g show ?thesis by (auto simp: three_servers_def wanted_servers_def)
qed

end
