(* ===== verification/Copies.thy ===== *)
theory Copies
  imports Net Ledger
begin

text \<open>
  Copies, moves and destruction of the value classes: \<^verbatim>\<open>hostport.h\<close>, \<^verbatim>\<open>hashring/node.h\<close>,
  \<^verbatim>\<open>hashring/hashring.h\<close>, \<^verbatim>\<open>ledger.h\<close> and \<^verbatim>\<open>net/connection.h\<close>. A move returns the new object
  together with what it leaves of the other one; what the standard library leaves in a string
  or container that was moved from is an argument (\<open>left\<close>), and so is memory that a default
  constructor does not initialise. The last section is the delivery of \<open>Carbon::flush_stats\<close>
  with the temporary connection the code really makes, moves from and destroys.
\<close>

section \<open>Hosts and nodes\<close>

definition default_hostport :: "int \<Rightarrow> hostport" where
  "default_hostport p = \<lparr>host = [], port = p\<rparr>"

definition make_hostport :: "string \<Rightarrow> int \<Rightarrow> hostport" where
  "make_hostport h p = \<lparr>host = h, port = p\<rparr>"

text \<open>The parameter is a \<^verbatim>\<open>const std::string&&\<close>, so \<^verbatim>\<open>std::move\<close> copies it.\<close>

definition make_hostport_rvalue :: "string \<Rightarrow> int \<Rightarrow> hostport \<times> string \<times> int" where
  "make_hostport_rvalue h p = (\<lparr>host = h, port = p\<rparr>, h, p)"

definition copy_hostport :: "hostport \<Rightarrow> hostport" where
  "copy_hostport hp = \<lparr>host = host hp, port = port hp\<rparr>"

definition assign_hostport :: "hostport \<Rightarrow> hostport \<Rightarrow> hostport" where
  "assign_hostport this hp = this\<lparr>host := host hp, port := port hp\<rparr>"

definition move_hostport :: "string \<Rightarrow> hostport \<Rightarrow> hostport \<times> hostport" where
  "move_hostport left hp = (\<lparr>host = host hp, port = port hp\<rparr>, hp\<lparr>host := left\<rparr>)"

definition move_assign_hostport :: "string \<Rightarrow> hostport \<Rightarrow> hostport \<Rightarrow> hostport \<times> hostport" where
  "move_assign_hostport left this hp = (this\<lparr>host := host hp, port := port hp\<rparr>, hp\<lparr>host := left\<rparr>)"

definition default_node :: "int \<Rightarrow> int \<Rightarrow> int \<Rightarrow> node" where
  "default_node p v w = hostport.extend (default_hostport p) (node.fields v w)"

definition make_node :: "string \<Rightarrow> int \<Rightarrow> int \<Rightarrow> int \<Rightarrow> node" where
  "make_node h p v w = hostport.extend (make_hostport h p) (node.fields v w)"

definition copy_node :: "node \<Rightarrow> node" where
  "copy_node n = hostport.extend (make_hostport (host n) (port n)) (node.fields (vnodes n) (weight n))"

definition assign_node :: "node \<Rightarrow> node \<Rightarrow> node" where
  "assign_node this n = this\<lparr>host := host n, port := port n, vnodes := vnodes n, weight := weight n\<rparr>"

definition move_node :: "node \<Rightarrow> node \<times> node" where
  "move_node n =
     (case make_hostport_rvalue (host n) (port n) of (super, h, p) \<Rightarrow>
        (hostport.extend super (node.fields (vnodes n) (weight n)), n\<lparr>host := h, port := p\<rparr>))"

definition move_assign_node :: "string \<Rightarrow> node \<Rightarrow> node \<Rightarrow> node \<times> node" where
  "move_assign_node left this n =
     (this\<lparr>host := host n, port := port n, vnodes := vnodes n, weight := weight n\<rparr>, n\<lparr>host := left\<rparr>)"

lemma hostport_copies [simp]:
  "copy_hostport hp = hp" "assign_hostport this hp = hp"
  "fst (move_hostport left hp) = hp" "fst (move_assign_hostport left this hp) = hp"
  "fst (make_hostport_rvalue h p) = make_hostport h p"
  by (simp_all add: copy_hostport_def assign_hostport_def move_hostport_def move_assign_hostport_def
      make_hostport_rvalue_def make_hostport_def)

lemma node_copies [simp]:
  "copy_node n = n" "assign_node this n = n" "move_node n = (n, n)"
  "fst (move_assign_node left this n) = n"
  by (simp_all add: copy_node_def assign_node_def move_node_def move_assign_node_def make_hostport_def
      make_hostport_rvalue_def hostport.defs node.defs)

section \<open>Rings\<close>

definition make_element :: "32 word \<Rightarrow> string \<Rightarrow> ring_element" where
  "make_element h s = \<lparr>re_hash = h, re_shard = s\<rparr>"

definition copy_element :: "ring_element \<Rightarrow> ring_element" where
  "copy_element re = \<lparr>re_hash = re_hash re, re_shard = re_shard re\<rparr>"

definition assign_element :: "ring_element \<Rightarrow> ring_element \<Rightarrow> ring_element" where
  "assign_element this re = this\<lparr>re_hash := re_hash re, re_shard := re_shard re\<rparr>"

definition move_element :: "string \<Rightarrow> ring_element \<Rightarrow> ring_element \<times> ring_element" where
  "move_element left re = (\<lparr>re_hash = re_hash re, re_shard = re_shard re\<rparr>, re\<lparr>re_shard := left\<rparr>)"

definition move_assign_element ::
  "string \<Rightarrow> ring_element \<Rightarrow> ring_element \<Rightarrow> ring_element \<times> ring_element"
where
  "move_assign_element left this re =
     (this\<lparr>re_hash := re_hash re, re_shard := re_shard re\<rparr>, re\<lparr>re_shard := left\<rparr>)"

definition element_eq :: "ring_element \<Rightarrow> ring_element \<Rightarrow> bool" where
  "element_eq a b = (re_hash a = re_hash b \<and> re_shard a = re_shard b)"

lemma element_copies [simp]:
  "copy_element re = re" "assign_element this re = re" "fst (move_element left re) = re"
  "fst (move_assign_element left this re) = re" "element_eq a b \<longleftrightarrow> a = b"
  by (auto simp: copy_element_def assign_element_def move_element_def move_assign_element_def element_eq_def)

text \<open>Every element is smaller than itself, although it is equal to itself.\<close>

lemma element_less_and_eq: "ring_less re re \<and> element_eq re re"
  by (simp add: ring_less_def)

definition copy_hashring :: "hashring \<Rightarrow> hashring" where
  "copy_hashring hr =
     \<lparr>ring = ring hr, nodes = nodes hr, replicas = replicas hr, hr_vnodes = hr_vnodes hr\<rparr>"

definition assign_hashring :: "hashring \<Rightarrow> hashring \<Rightarrow> hashring" where
  "assign_hashring this hr =
     this\<lparr>ring := ring hr, nodes := nodes hr, replicas := replicas hr, hr_vnodes := hr_vnodes hr\<rparr>"

definition move_hashring ::
  "ring_element list \<times> (string, node) umap \<Rightarrow> hashring \<Rightarrow> hashring \<times> hashring"
where
  "move_hashring left hr =
     (\<lparr>ring = ring hr, nodes = nodes hr, replicas = replicas hr, hr_vnodes = hr_vnodes hr\<rparr>,
      hr\<lparr>ring := fst left, nodes := snd left\<rparr>)"

definition move_assign_hashring ::
  "ring_element list \<times> (string, node) umap \<Rightarrow> hashring \<Rightarrow> hashring \<Rightarrow> hashring \<times> hashring"
where
  "move_assign_hashring left this hr =
     (this\<lparr>ring := ring hr, nodes := nodes hr, replicas := replicas hr, hr_vnodes := hr_vnodes hr\<rparr>,
      hr\<lparr>ring := fst left, nodes := snd left\<rparr>)"

lemma hashring_copies [simp]:
  "copy_hashring hr = hr" "assign_hashring this hr = hr"
  "fst (move_hashring left hr) = hr" "fst (move_assign_hashring left this hr) = hr"
  by (simp_all add: copy_hashring_def assign_hashring_def move_hashring_def move_assign_hashring_def)

text \<open>A ring that was moved from must not be asked: with nothing left in it every lookup faults.\<close>

lemma moved_from_ring_faults:
  "ring_get md4 (snd (move_hashring ([], ns) hr)) key = Inl Out_of_bounds"
  by (simp add: ring_get_def move_hashring_def ring_owner_empty)

section \<open>Ledgers\<close>

text \<open>
  The parameter of the moves is a \<^verbatim>\<open>const Ledger&&\<close>: they copy and leave the other ledger alone.
  None of the four carries \<^verbatim>\<open>frequency\<close> over; the assignments keep the one of the target.
\<close>

definition move_ledger :: "ledger \<Rightarrow> ledger \<times> ledger" where
  "move_ledger l =
     (\<lparr>frequency = [], counters = counters l, timers = timers l, timer_counters = timer_counters l,
       gauges = gauges l, sets = sets l, counter_rates = counter_rates l, timer_data = timer_data l,
       statsd_metrics = statsd_metrics l\<rparr>, l)"

definition assign_ledger :: "ledger \<Rightarrow> ledger \<Rightarrow> ledger" where
  "assign_ledger this l =
     this\<lparr>counters := counters l, timers := timers l, timer_counters := timer_counters l,
       gauges := gauges l, sets := sets l, counter_rates := counter_rates l,
       timer_data := timer_data l, statsd_metrics := statsd_metrics l\<rparr>"

definition move_assign_ledger :: "ledger \<Rightarrow> ledger \<Rightarrow> ledger \<times> ledger" where
  "move_assign_ledger this l =
     (this\<lparr>counters := counters l, timers := timers l, timer_counters := timer_counters l,
       gauges := gauges l, sets := sets l, counter_rates := counter_rates l,
       timer_data := timer_data l, statsd_metrics := statsd_metrics l\<rparr>, l)"

lemma ledger_moves_copy: "move_ledger l = (copy_ledger l, l)"
  by (simp add: move_ledger_def copy_ledger_def)

lemma ledger_assignments_keep_frequency:
  "assign_ledger this l = l\<lparr>frequency := frequency this\<rparr>"
  "move_assign_ledger this l = (assign_ledger this l, l)"
  by (simp_all add: assign_ledger_def move_assign_ledger_def)

section \<open>Connections\<close>

definition default_connection :: "int \<Rightarrow> connection" where
  "default_connection p = \<lparr>cn_dest = default_hostport p, cn_fd = -1\<rparr>"

definition copy_connection :: "connection \<Rightarrow> connection" where
  "copy_connection c = \<lparr>cn_dest = copy_hostport (cn_dest c), cn_fd = cn_fd c\<rparr>"

definition assign_connection :: "connection \<Rightarrow> connection \<Rightarrow> connection" where
  "assign_connection this c = this\<lparr>cn_dest := assign_hostport (cn_dest this) (cn_dest c), cn_fd := cn_fd c\<rparr>"

definition move_connection :: "string \<Rightarrow> connection \<Rightarrow> connection \<times> connection" where
  "move_connection left c =
     (case move_hostport left (cn_dest c) of (d, d') \<Rightarrow>
        (\<lparr>cn_dest = d, cn_fd = cn_fd c\<rparr>, c\<lparr>cn_dest := d', cn_fd := -1\<rparr>))"

definition move_assign_connection :: "string \<Rightarrow> connection \<Rightarrow> connection \<Rightarrow> connection \<times> connection" where
  "move_assign_connection left this c =
     (case move_assign_hostport left (cn_dest this) (cn_dest c) of (d, d') \<Rightarrow>
        (this\<lparr>cn_dest := d, cn_fd := cn_fd c\<rparr>, c\<lparr>cn_dest := d', cn_fd := -1\<rparr>))"

definition destroy_connection :: "connection \<Rightarrow> env \<Rightarrow> unit run" where
  "destroy_connection c s = run_bind (conn_close c s) (\<lambda>_ s. Done () s)"

lemma destroy_bad: "cn_fd c = -1 \<Longrightarrow> destroy_connection c s = Done () s"
  by (simp add: destroy_connection_def conn_close_def conn_bad_def)

lemma destroy_moves: "destroy_connection c s = Done () t \<Longrightarrow> moves s t (owned c) {#}"
  by (auto simp: destroy_connection_def elim!: run_bind_DoneE intro: conn_close_moves)

text \<open>A move hands the descriptor on; a copy shares it, and then both destructors close it.\<close>

lemma moved_connection_owned_once:
  "owned (fst (move_connection left c)) = owned c" "owned (snd (move_connection left c)) = {#}"
  by (simp_all add: move_connection_def move_hostport_def owned_def conn_bad_def)

lemma move_assign_drops_the_target:
  "owned (fst (move_assign_connection left this c)) = owned c"
  "owned (snd (move_assign_connection left this c)) = {#}"
  by (simp_all add: move_assign_connection_def move_assign_hostport_def owned_def conn_bad_def)

text \<open>
  Assigning a moved connection over an open one forgets the open descriptor: nobody owns it and
  nothing closes it. A copy of an open connection is closed by both destructors.
\<close>

lemma copy_closes_twice:
  assumes "q_close s = a # b # q" "cn_fd c \<noteq> -1"
  shows "\<exists>t. run_bind (destroy_connection c s) (\<lambda>_. destroy_connection (copy_connection c)) = Done () t
    \<and> trace t = trace s @ [Ev_close (cn_fd c) a, Ev_close (cn_fd c) b]"
  using assms by (cases a; cases b)
    (simp_all add: destroy_connection_def conn_close_def conn_bad_def copy_connection_def w_close_def
      log_failure_def sys_call_def log_error_msg_def)

section \<open>Carbon's delivery, with its temporaries\<close>

text \<open>
  A destination without a connection gets a default one in the map; a temporary is connected,
  moved into it and destroyed; then the string is written to the connection in the map.
\<close>

definition connect_into ::
  "int \<Rightarrow> string \<Rightarrow> hostport \<Rightarrow> (hostport, connection) umap \<Rightarrow> env \<Rightarrow> (hostport, connection) umap run"
where
  "connect_into p left dest conns s =
     run_bind (new_connection dest s) (\<lambda>tmp s.
       (let this = default_connection p;
            conns = umap_put dest this conns;
            (this', tmp') = move_assign_connection left this tmp in
        run_bind (destroy_connection tmp' s) (\<lambda>_ s. Done (umap_put dest this' conns) s)))"

fun deliver_moving ::
  "int \<Rightarrow> string \<Rightarrow> (hostport \<times> string) list \<Rightarrow> (hostport, connection) umap \<Rightarrow> env \<Rightarrow>
    (hostport, connection) umap run"
where
  "deliver_moving p left [] conns s = Done conns s"
| "deliver_moving p left ((dest, str) # rest) conns s =
     run_bind (case map_of conns dest of
         None \<Rightarrow> connect_into p left dest conns s
       | Some c \<Rightarrow> Done conns s) (\<lambda>conns s.
       (case map_of conns dest of
          None \<Rightarrow> Crash Missing_key s
        | Some c \<Rightarrow> run_bind (conn_write str c s) (\<lambda>(written, c') s.
            deliver_moving p left rest (umap_put dest c' conns) s)))"

lemma umap_put_twice: "umap_put k v (umap_put k u m) = umap_put k v m"
  by (induction m) (auto simp: umap_put_def)

lemma run_bind_assoc: "run_bind (run_bind x f) g = run_bind x (\<lambda>a s. run_bind (f a s) g)"
  by (cases x) auto

lemma run_bind_cong: "(\<And>a t. r = Done a t \<Longrightarrow> f a t = g a t) \<Longrightarrow> run_bind r f = run_bind r g"
  by (cases r) auto

lemma move_into_default:
  "move_assign_connection left (default_connection p) c =
     (c, c\<lparr>cn_dest := cn_dest c\<lparr>host := left\<rparr>, cn_fd := -1\<rparr>)"
  by (simp add: move_assign_connection_def move_assign_hostport_def default_connection_def
      default_hostport_def)

lemma connect_into_new:
  "connect_into p left dest conns s =
     run_bind (new_connection dest s) (\<lambda>c s. Done (umap_put dest c conns) s)"
  by (simp add: connect_into_def move_into_default Let_def destroy_bad umap_put_twice)

text \<open>
  Delivering over connections that are made as temporaries, moved into the map of the
  backend and destroyed is delivering over connections made in place: the temporaries close
  nothing, whatever an uninitialised port or a moved-from string holds.
\<close>

theorem temporaries_do_not_matter:
  "deliver_moving p left strings conns s = deliver_all strings conns s"
proof (induction strings conns s rule: deliver_all.induct)
  case (1 conns s)
  show ?case by simp
next
  case (2 dest str rest conns s)
  then show ?case
    by (cases "map_of conns dest")
      (auto simp: connect_into_new run_bind_assoc map_of_umap_put umap_put_twice intro!: run_bind_cong)
qed

end
