(* ===== verification/Config_Roundtrip.thy ===== *)
theory Config_Roundtrip
  imports Config
begin

text \<open>
  What survives when a configuration is written by \<^verbatim>\<open>to_json\<close> (the status page of
  \<^verbatim>\<open>src/configs/aggregator_config.cc\<close>) and read again by the constructor. The JSON library stays a
  parameter; \<open>reads_document\<close> is what its documentation says of a value that was built by a list
  of assignments and appends.
\<close>

section \<open>A document that was built\<close>

definition node_at :: "'j json_api \<Rightarrow> 'j \<Rightarrow> string list \<Rightarrow> 'j" where
  "node_at J doc p = foldl (json_member J) doc p"

definition is_member :: "jwrite list \<Rightarrow> string list \<Rightarrow> bool" where
  "is_member ws p = (\<exists>w \<in> set ws. take (length p) (write_path w) = p)"

fun scalar_for :: "'j json_api \<Rightarrow> 'j \<Rightarrow> jvalue \<Rightarrow> bool" where
  "scalar_for J e (JString s) = (as_string J e = Inr s)"
| "scalar_for J e (JInt i) = (as_int J e = Inr i)"
| "scalar_for J e (JBool b) = (as_bool J e = Inr b)"
| "scalar_for J e (JObject fs) = False"

fun stands_for :: "'j json_api \<Rightarrow> 'j \<Rightarrow> jvalue \<Rightarrow> bool" where
  "stands_for J e (JObject fs) = (\<forall>k. rel_option (scalar_for J) (json_get J e k) (map_of fs k))"
| "stands_for J e v = scalar_for J e v"

text \<open>
  A path that was written to holds a value or an array; every other path that does not pass one of
  these is an object or null.
\<close>

definition written_at :: "jwrite list \<Rightarrow> string list \<Rightarrow> bool" where
  "written_at ws p = (\<exists>w \<in> set ws. write_path w = p)"

definition inner :: "jwrite list \<Rightarrow> string list \<Rightarrow> bool" where
  "inner ws p = (\<forall>w \<in> set ws. take (length (write_path w)) p \<noteq> write_path w)"

text \<open>
  What JsonCpp documents. On an object or null, \<^verbatim>\<open>get\<close> finds a member when something was written at it or below it,
  \<^verbatim>\<open>getMemberNames()\<close> lists the members once each, and \<^verbatim>\<open>begin()\<close> to \<^verbatim>\<open>end()\<close> are their values, in the same
  order; null has none. A path that was assigned holds the value, one that was only appended to is the array of
  the values. Nothing is said of \<^verbatim>\<open>get\<close>, \<^verbatim>\<open>[]\<close> and \<^verbatim>\<open>getMemberNames()\<close> on strings, numbers and arrays, where the
  library throws.
\<close>

definition reads_document :: "'j json_api \<Rightarrow> 'j \<Rightarrow> jwrite list \<Rightarrow> bool" where
  "reads_document J doc ws =
     ((\<forall>p. inner ws p \<longrightarrow>
        (\<forall>k. json_get J (node_at J doc p) k =
           (if is_member ws (p @ [k]) then Some (node_at J doc (p @ [k])) else None))
        \<and> (\<exists>ms. json_names J (node_at J doc p) = Inr ms \<and> distinct ms \<and> set ms = {k. is_member ws (p @ [k])}
             \<and> json_elems J (node_at J doc p) = map (\<lambda>k. node_at J doc (p @ [k])) ms))
      \<and> (\<forall>p v. Assign p v \<in> set ws \<longrightarrow> document ws p = [v] \<longrightarrow> stands_for J (node_at J doc p) v)
      \<and> (\<forall>p. written_at ws p \<longrightarrow> (\<forall>v. Assign p v \<notin> set ws) \<longrightarrow>
           list_all2 (stands_for J) (json_elems J (node_at J doc p)) (document ws p)))"

lemma document_unwritten: "\<not> written_at ws p \<Longrightarrow> document ws p = []"
  unfolding document_def written_at_def by (subst fold_write_other) auto

section \<open>Reading what was written\<close>

text \<open>The paths an aggregator configuration writes.\<close>

lemma append_paths: "write_path ` set (map (\<lambda>x. Append q (f x)) xs) = (if xs = [] then {} else {q})"
  by (induction xs) auto

definition common_paths :: "'a config_scheme \<Rightarrow> string list set" where
  "common_paths c =
     (if tcp_enabled c then {[''servers'', ''tcp'', ''port'']} else {})
     \<union> (if udp_enabled c then {[''servers'', ''udp'', ''port''], [''servers'', ''udp'', ''threads'']} else {})
     \<union> (if http_enabled c then {[''servers'', ''http'', ''port'']} else {})
     \<union> (if cfg_log_level c = Warn then {} else {[''log_level'']})"

lemma if_paths: "write_path ` set (if b then xs else []) = (if b then write_path ` set xs else {})"
  by simp

lemma level_write_paths: "write_path ` set (level_writes l) = (if l = Warn then {} else {[''log_level'']})"
  by (cases l) (simp_all add: level_writes_def)

lemma config_write_paths: "write_path ` set (config_to_json c) = common_paths c"
  by (simp only: config_to_json_def common_paths_def set_append image_Un if_paths level_write_paths
      list.set image_insert image_empty write_path.simps Un_assoc)

lemma aggregator_paths:
  "write_path ` set (aggregator_to_json c) = common_paths c
     \<union> {[''name''], [''workers''], [''frequency''], [''backends'', ''stdout'']}
     \<union> (if cfg_percentiles c = [] then {} else {[''percentiles'']})
     \<union> (if cfg_carbon c = [] then {} else {[''backends'', ''carbon'']})
     \<union> (if cfg_repeaters c = [] then {} else {[''backends'', ''repeater'']})"
  unfolding aggregator_to_json_def set_append image_Un append_paths config_write_paths by auto

lemma is_member_paths: "is_member ws p = (\<exists>q \<in> write_path ` set ws. take (length p) q = p)"
  by (simp add: is_member_def)

lemma aggregator_members:
  defines "m \<equiv> \<lambda>c p. is_member (aggregator_to_json c) p"
  shows "m c [''servers'', ''tcp'', ''port''] = tcp_enabled c"
    "m c [''servers'', ''udp'', ''port''] = udp_enabled c"
    "m c [''servers'', ''udp'', ''threads''] = udp_enabled c"
    "\<not> m c [''servers'', ''udp'', ''recv_buffer'']"
    "m c [''servers'', ''http'', ''port''] = http_enabled c"
    "\<not> m c [''servers'', ''http'', ''enabled'']"
    "m c [''log_level''] = (cfg_log_level c \<noteq> Warn)"
    "m c [''name'']" "m c [''workers'']" "m c [''frequency'']"
    "\<not> m c [''prefix'']" "\<not> m c [''prefix_counter'']" "\<not> m c [''prefix_timer'']"
    "\<not> m c [''prefix_gauge'']" "\<not> m c [''prefix_set'']"
    "m c [''backends'', k] = (k = ''stdout'' \<or> k = ''carbon'' \<and> cfg_carbon c \<noteq> []
       \<or> k = ''repeater'' \<and> cfg_repeaters c \<noteq> [])"
  unfolding m_def is_member_paths aggregator_paths common_paths_def by auto

definition all_paths :: "string list set" where
  "all_paths = {[''servers'', ''tcp'', ''port''], [''servers'', ''udp'', ''port''], [''servers'', ''udp'', ''threads''],
     [''servers'', ''http'', ''port''], [''log_level''], [''name''], [''workers''], [''frequency''],
     [''backends'', ''stdout''], [''percentiles''], [''backends'', ''carbon''], [''backends'', ''repeater'']}"

lemma paths_in: "write_path ` set (aggregator_to_json c) \<subseteq> all_paths"
  unfolding aggregator_paths common_paths_def by (simp add: all_paths_def)

lemma all_paths_apart:
  "p \<in> {[], [''servers'', ''tcp''], [''servers'', ''udp''], [''servers'', ''http''], [''backends'']} \<Longrightarrow> q \<in> all_paths \<Longrightarrow>
     take (length q) p \<noteq> q"
  "p \<in> {[''percentiles''], [''backends'', ''carbon''], [''backends'', ''repeater'']} \<Longrightarrow> q \<in> all_paths \<Longrightarrow> q \<noteq> p \<Longrightarrow>
     take (length q) p \<noteq> q \<and> take (length (p @ [k])) q \<noteq> p @ [k]"
  by (elim insertE emptyE; simp add: all_paths_def; elim disjE; simp)+

lemma aggregator_inner [simp]:
  "p \<in> {[], [''servers'', ''tcp''], [''servers'', ''udp''], [''servers'', ''http''], [''backends'']} \<Longrightarrow>
     inner (aggregator_to_json c) p"
  unfolding inner_def using all_paths_apart(1)[of p] paths_in[of c] by blast

lemma aggregator_arrays:
  assumes "p \<in> {[''percentiles''], [''backends'', ''carbon''], [''backends'', ''repeater'']}"
    and "\<not> written_at (aggregator_to_json c) p"
  shows "inner (aggregator_to_json c) p" "\<not> is_member (aggregator_to_json c) (p @ [k])"
proof -
  have "take (length (write_path w)) p \<noteq> write_path w \<and> take (length (p @ [k])) (write_path w) \<noteq> p @ [k]"
    if "w \<in> set (aggregator_to_json c)" for w
    using all_paths_apart(2)[OF assms(1), of "write_path w" k] paths_in[of c] assms(2) that by (auto simp: written_at_def)
  then show "inner (aggregator_to_json c) p" "\<not> is_member (aggregator_to_json c) (p @ [k])"
    unfolding inner_def is_member_def by blast+
qed

text \<open>What the document holds there.\<close>

lemma document_Nil: "document [] p = []"
  by (simp add: document_def)

lemma written_settings:
  "document (aggregator_to_json c) [''name''] = [JString (cfg_name c)]"
  "document (aggregator_to_json c) [''workers''] = [JInt (cfg_workers c)]"
  "document (aggregator_to_json c) [''frequency''] = [JInt (cfg_frequency c)]"
  "document (aggregator_to_json c) [''backends'', ''stdout''] = [JBool (cfg_stdout c)]"
  by (simp_all add: aggregator_to_json_def document_append fold_append apply_write_def)

lemma config_part:
  assumes "p \<notin> {[''name''], [''workers''], [''frequency''], [''percentiles''], [''backends'', ''stdout''],
      [''backends'', ''carbon''], [''backends'', ''repeater'']}"
  shows "document (aggregator_to_json c) p = document (config_to_json c) p"
  using assms by (simp add: aggregator_to_json_def document_append fold_append apply_write_def)

lemma level_paths: "p \<noteq> [''log_level''] \<Longrightarrow> fold apply_write (level_writes l) m p = m p"
  by (cases l) (simp_all add: level_writes_def apply_write_def)

lemma written_servers:
  "tcp_enabled c \<Longrightarrow> document (aggregator_to_json c) [''servers'', ''tcp'', ''port''] = [JInt (tcp_port c)]"
  "udp_enabled c \<Longrightarrow> document (aggregator_to_json c) [''servers'', ''udp'', ''port''] = [JInt (udp_port c)]"
  "udp_enabled c \<Longrightarrow> document (aggregator_to_json c) [''servers'', ''udp'', ''threads''] = [JInt (udp_threads c)]"
  "http_enabled c \<Longrightarrow> document (aggregator_to_json c) [''servers'', ''http'', ''port''] = [JInt (http_port c)]"
  by (subst config_part, simp, simp add: config_to_json_def document_def level_paths apply_write_def)+

definition level_name :: "log_level \<Rightarrow> string" where
  "level_name l = (case l of Debug \<Rightarrow> ''debug'' | Info \<Rightarrow> ''info'' | Warn \<Rightarrow> ''warn'' | Error \<Rightarrow> ''error'')"

lemma written_level:
  "cfg_log_level c \<noteq> Warn \<Longrightarrow> document (aggregator_to_json c) [''log_level''] = [JString (level_name (cfg_log_level c))]"
  by (cases "cfg_log_level c")
    (simp_all add: config_part config_to_json_def document_append level_writes_def apply_write_def level_name_def)

section \<open>The constructor on such a document\<close>

lemma read_setting:
  assumes "reads_document J doc ws" "inner ws p" "Assign (p @ [k]) v \<in> set ws" "document ws (p @ [k]) = [v]"
  shows "json_get J (node_at J doc p) k = Some (node_at J doc (p @ [k]))" "stands_for J (node_at J doc (p @ [k])) v"
proof -
  from assms(3) have "is_member ws (p @ [k])" by (force simp: is_member_def)
  with assms(1,2) show "json_get J (node_at J doc p) k = Some (node_at J doc (p @ [k]))"
    by (simp add: reads_document_def)
  from assms show "stands_for J (node_at J doc (p @ [k])) v" unfolding reads_document_def by blast
qed

lemma read_absent:
  assumes "reads_document J doc ws" "inner ws p" "\<not> is_member ws (p @ [k])"
  shows "get_string J (node_at J doc p) k s = Inr s" "get_int J (node_at J doc p) k i = Inr i"
    "get_bool J (node_at J doc p) k b = Inr b"
  using assms by (simp_all add: reads_document_def)

lemma read_scalar:
  assumes "reads_document J doc ws" "inner ws p"
  shows "Assign (p @ [k]) (JString s) \<in> set ws \<Longrightarrow> document ws (p @ [k]) = [JString s] \<Longrightarrow>
      get_string J (node_at J doc p) k d = Inr s"
    and "Assign (p @ [k]) (JInt i) \<in> set ws \<Longrightarrow> document ws (p @ [k]) = [JInt i] \<Longrightarrow>
      get_int J (node_at J doc p) k e = Inr i"
  using read_setting[OF assms, of k "JString s"] read_setting[OF assms, of k "JInt i"]
  by (simp_all add: get_string_def get_int_def)

lemma read_names:
  assumes "reads_document J doc ws" "inner ws p"
  shows "\<exists>ms. json_names J (node_at J doc p) = Inr ms \<and> distinct ms \<and> set ms = {k. is_member ws (p @ [k])}"
  using assms unfolding reads_document_def by blast

lemma read_int_list:
  "list_all2 (stands_for J) es (map JInt ps) \<Longrightarrow>
     fold_result (\<lambda>e acc. bind_result (as_int J e) (\<lambda>p. Inr (acc @ [p]))) es acc = Inr (acc @ ps)"
  by (induction ps arbitrary: es acc) (auto simp: list_all2_Cons2)

lemma object_string:
  "stands_for J e (JObject fs) \<Longrightarrow> map_of fs k = Some (JString s) \<Longrightarrow> get_string J e k d = Inr s"
  by (auto simp: get_string_def rel_option_iff dest!: spec[of _ k] split: option.splits)

lemma object_int:
  "stands_for J e (JObject fs) \<Longrightarrow> map_of fs k = Some (JInt i) \<Longrightarrow> get_int J e k d = Inr i"
  by (auto simp: get_int_def rel_option_iff dest!: spec[of _ k] split: option.splits)

lemma read_carbon_object:
  "stands_for J e (carbon_object (s, n)) \<Longrightarrow> read_carbon_entry J e (m, i) = Inr (umap_put s n m, i + 1)"
  by (rule read_carbon_entry_ok)
    (auto simp: carbon_object_def reads_as_def intro: object_string object_int simp del: stands_for.simps)

lemma umap_put_new: "k \<notin> fst ` set m \<Longrightarrow> umap_put k v m = m @ [(k, v)]"
  by (induction m) (auto simp: umap_put_def)

lemma read_carbon_list:
  "list_all2 (stands_for J) es (map carbon_object cs) \<Longrightarrow> distinct (map fst (m @ cs)) \<Longrightarrow>
     fold_result (read_carbon_entry J) es (m, i) = Inr (m @ cs, i + int (length cs))"
proof (induction cs arbitrary: es m i)
  case (Cons sn cs)
  obtain s n where sn: "sn = (s, n)" by (cases sn)
  from Cons.prems(1) obtain e es' where e: "es = e # es'" "stands_for J e (carbon_object (s, n))"
    "list_all2 (stands_for J) es' (map carbon_object cs)"
    by (auto simp: list_all2_Cons2 sn simp del: stands_for.simps)
  have "umap_put s n m = m @ [(s, n)]" using Cons.prems(2) by (intro umap_put_new) (auto simp: sn)
  with e Cons.IH[OF e(3), of "m @ [(s, n)]" "i + 1"] Cons.prems(2) show ?case
    by (simp add: read_carbon_object sn)
qed simp

lemma read_hostport_list:
  "list_all2 (stands_for J) es (map hostport_object hs) \<Longrightarrow>
     fold_result (read_hostport J d) es acc = Inr (acc @ hs)"
proof (induction hs arbitrary: es acc)
  case (Cons h hs)
  from Cons.prems obtain e es' where e: "es = e # es'" "stands_for J e (hostport_object h)"
    "list_all2 (stands_for J) es' (map hostport_object hs)"
    by (auto simp: list_all2_Cons2 simp del: stands_for.simps)
  have "get_string J e ''host'' ''127.0.0.1'' = Inr (host h)" "get_int J e ''port'' d = Inr (port h)"
    using e(2) by (auto simp: hostport_object_def intro: object_string object_int simp del: stands_for.simps)
  then have "read_hostport J d e acc = Inr (acc @ [h])" by (cases h) (simp add: read_hostport_def)
  with e(1) Cons.IH[OF e(3), of "acc @ [h]"] show ?case by simp
qed simp

text \<open>The members of \<open>backends\<close> touch different fields, so their order does not matter.\<close>

lemma read_backends:
  assumes carbon: "\<And>m. m = [] \<Longrightarrow> read_carbon J (json_elems J (json_member J b ''carbon'')) m = Inr cs"
    and repeater: "\<And>acc. acc = [] \<Longrightarrow>
      fold_result (read_hostport J 3000) (json_elems J (json_member J b ''repeater'')) acc = Inr rs"
  shows "distinct ms \<Longrightarrow> (''carbon'' \<in> set ms \<longrightarrow> cfg_carbon c = []) \<Longrightarrow> (''repeater'' \<in> set ms \<longrightarrow> cfg_repeaters c = []) \<Longrightarrow>
    fold_result (read_backend J b) ms c = Inr (c\<lparr>cfg_carbon := if ''carbon'' \<in> set ms then cs else cfg_carbon c,
      cfg_repeaters := if ''repeater'' \<in> set ms then rs else cfg_repeaters c,
      cfg_stdout := (''stdout'' \<in> set ms \<or> cfg_stdout c)\<rparr>)"
proof (induction ms arbitrary: c)
  case (Cons k ms)
  consider (c) "k = ''carbon''" | (r) "k = ''repeater''" | (s) "k = ''stdout''"
    | (o) "k \<notin> {''carbon'', ''repeater'', ''stdout''}" by blast
  then show ?case
  proof cases
    case c
    with Cons.prems carbon have "read_backend J b k c = Inr (c\<lparr>cfg_carbon := cs\<rparr>)"
      by (simp add: read_backend_def)
    with Cons.IH[of "c\<lparr>cfg_carbon := cs\<rparr>"] Cons.prems c show ?thesis by simp
  next
    case r
    with Cons.prems repeater have "read_backend J b k c = Inr (c\<lparr>cfg_repeaters := rs\<rparr>)"
      by (simp add: read_backend_def)
    with Cons.IH[of "c\<lparr>cfg_repeaters := rs\<rparr>"] Cons.prems r show ?thesis by simp
  next
    case s
    then have "read_backend J b k c = Inr (c\<lparr>cfg_stdout := True\<rparr>)" by (simp add: read_backend_def)
    with Cons.IH[of "c\<lparr>cfg_stdout := True\<rparr>"] Cons.prems s show ?thesis by simp
  next
    case o
    then have "read_backend J b k c = Inr c" by (simp add: read_backend_def)
    with Cons.IH[of c] Cons.prems o show ?thesis by auto
  qed
qed simp

text \<open>What is left of a configuration after it was written and read.\<close>

definition reread :: "aggregator_config \<Rightarrow> aggregator_config" where
  "reread c = c\<lparr>tcp_port := if tcp_enabled c then tcp_port c else - 1,
     udp_port := if udp_enabled c then udp_port c else - 1,
     udp_threads := if udp_enabled c then udp_threads c else 1, udp_recv_buffer := 8388608,
     http_port := if http_enabled c then http_port c else 8080, http_enabled := True,
     cfg_prefix := [], cfg_prefix_counter := ''counters.'', cfg_prefix_timer := ''timers.'',
     cfg_prefix_gauge := ''gauges.'', cfg_prefix_set := ''sets.'',
     cfg_percentiles := if cfg_percentiles c = [] then [90] else cfg_percentiles c, cfg_stdout := True\<rparr>"

text \<open>What the constructor establishes of the fields \<open>to_json\<close> reads.\<close>

definition config_ok :: "aggregator_config \<Rightarrow> bool" where
  "config_ok c = ((tcp_enabled c \<longrightarrow> tcp_port c \<noteq> - 1) \<and> (udp_enabled c \<longrightarrow> udp_port c \<noteq> - 1)
     \<and> distinct (map fst (cfg_carbon c)))"

lemma member_node [simp]:
  "json_member J (node_at J doc p) k = node_at J doc (p @ [k])"
  by (simp add: node_at_def)

lemma node_at_Nil: "doc = node_at J doc []"
  by (simp add: node_at_def)

lemma written_in:
  "tcp_enabled c \<Longrightarrow> Assign [''servers'', ''tcp'', ''port''] (JInt (tcp_port c)) \<in> set (aggregator_to_json c)"
  "udp_enabled c \<Longrightarrow> Assign [''servers'', ''udp'', ''port''] (JInt (udp_port c)) \<in> set (aggregator_to_json c)"
  "udp_enabled c \<Longrightarrow> Assign [''servers'', ''udp'', ''threads''] (JInt (udp_threads c)) \<in> set (aggregator_to_json c)"
  "http_enabled c \<Longrightarrow> Assign [''servers'', ''http'', ''port''] (JInt (http_port c)) \<in> set (aggregator_to_json c)"
  "cfg_log_level c \<noteq> Warn \<Longrightarrow>
     Assign [''log_level''] (JString (level_name (cfg_log_level c))) \<in> set (aggregator_to_json c)"
  "Assign [''name''] (JString (cfg_name c)) \<in> set (aggregator_to_json c)"
  "Assign [''workers''] (JInt (cfg_workers c)) \<in> set (aggregator_to_json c)"
  "Assign [''frequency''] (JInt (cfg_frequency c)) \<in> set (aggregator_to_json c)"
  by (auto simp: aggregator_to_json_def config_to_json_def level_writes_def level_name_def split: log_level.split)

lemma read_servers:
  assumes R: "reads_document J doc (aggregator_to_json c)"
  shows "get_int J (node_at J doc [''servers'', ''tcp'']) ''port'' (- 1) = Inr (if tcp_enabled c then tcp_port c else - 1)"
  "get_int J (node_at J doc [''servers'', ''udp'']) ''port'' (- 1) = Inr (if udp_enabled c then udp_port c else - 1)"
  "get_int J (node_at J doc [''servers'', ''udp'']) ''threads'' 1 = Inr (if udp_enabled c then udp_threads c else 1)"
  "get_int J (node_at J doc [''servers'', ''udp'']) ''recv_buffer'' n = Inr n"
  "get_int J (node_at J doc [''servers'', ''http'']) ''port'' 8080 = Inr (if http_enabled c then http_port c else 8080)"
  "get_bool J (node_at J doc [''servers'', ''http'']) ''enabled'' True = Inr True"
  using read_scalar(2)[OF R, of "[''servers'', ''tcp'']" "''port''"] read_absent(2)[OF R, of "[''servers'', ''tcp'']" "''port''"]
    read_scalar(2)[OF R, of "[''servers'', ''udp'']" "''port''"] read_absent(2)[OF R, of "[''servers'', ''udp'']" "''port''"]
    read_scalar(2)[OF R, of "[''servers'', ''udp'']" "''threads''"]
    read_absent(2)[OF R, of "[''servers'', ''udp'']" "''threads''"]
    read_absent(2)[OF R, of "[''servers'', ''udp'']" "''recv_buffer''"]
    read_scalar(2)[OF R, of "[''servers'', ''http'']" "''port''"] read_absent(2)[OF R, of "[''servers'', ''http'']" "''port''"]
    read_absent(3)[OF R, of "[''servers'', ''http'']" "''enabled''"]
  by (simp_all add: aggregator_members written_servers written_in)

lemma read_settings:
  assumes R: "reads_document J doc (aggregator_to_json c)"
  shows "get_string J (node_at J doc []) ''log_level'' ''warn'' = Inr (level_name (cfg_log_level c))"
  "get_string J (node_at J doc []) ''name'' s = Inr (cfg_name c)"
  "get_int J (node_at J doc []) ''workers'' i = Inr (cfg_workers c)"
  "get_int J (node_at J doc []) ''frequency'' i = Inr (cfg_frequency c)"
  "get_string J (node_at J doc []) ''prefix'' s = Inr s" "get_string J (node_at J doc []) ''prefix_counter'' s = Inr s"
  "get_string J (node_at J doc []) ''prefix_timer'' s = Inr s" "get_string J (node_at J doc []) ''prefix_gauge'' s = Inr s"
  "get_string J (node_at J doc []) ''prefix_set'' s = Inr s"
proof -
  note abs = read_absent(1)[OF R, of "[]", simplified]
  show "get_string J (node_at J doc []) ''log_level'' ''warn'' = Inr (level_name (cfg_log_level c))"
  proof (cases "cfg_log_level c = Warn")
    case True
    with abs[of "''log_level''"] show ?thesis by (simp add: aggregator_members level_name_def)
  next
    case False
    with read_scalar(1)[OF R, of "[]" "''log_level''"] show ?thesis by (simp add: written_level written_in)
  qed
  show "get_string J (node_at J doc []) ''name'' s = Inr (cfg_name c)"
    using read_scalar(1)[OF R, of "[]" "''name''"] by (simp add: written_settings written_in)
  show "get_int J (node_at J doc []) ''workers'' i = Inr (cfg_workers c)"
    using read_scalar(2)[OF R, of "[]" "''workers''"] by (simp add: written_settings written_in)
  show "get_int J (node_at J doc []) ''frequency'' i = Inr (cfg_frequency c)"
    using read_scalar(2)[OF R, of "[]" "''frequency''"] by (simp add: written_settings written_in)
qed (use read_absent(1)[OF R, of "[]", simplified] in \<open>simp_all add: aggregator_members\<close>)

lemma parse_level_name: "parse_level (level_name l) = l"
  by (cases l) (simp_all add: parse_level_def level_name_def)

lemma read_common:
  assumes R: "reads_document J doc (aggregator_to_json c)"
    and "config_ok c"
  shows "new_config J (node_at J doc []) = Inr (config.truncate (reread c))"
  using assms(2) by (auto simp: new_config_def Let_def read_servers[OF R] read_settings[OF R] parse_level_name reread_def
      config_ok_def config.defs)

lemma unassigned:
  "p \<in> {[''percentiles''], [''backends'', ''carbon''], [''backends'', ''repeater'']} \<Longrightarrow>
     Assign p v \<notin> set (aggregator_to_json c)"
  by (auto simp: aggregator_to_json_def config_to_json_def level_writes_def)

lemma read_array:
  assumes R: "reads_document J doc (aggregator_to_json c)"
    and p: "p \<in> {[''percentiles''], [''backends'', ''carbon''], [''backends'', ''repeater'']}"
  shows "list_all2 (stands_for J) (json_elems J (node_at J doc p)) (document (aggregator_to_json c) p)"
proof (cases "written_at (aggregator_to_json c) p")
  case True
  with R unassigned[OF p] show ?thesis unfolding reads_document_def by blast
next
  case False
  note a = aggregator_arrays[OF p False]
  from R a(1) obtain ms where "set ms = {k. is_member (aggregator_to_json c) (p @ [k])}"
    "json_elems J (node_at J doc p) = map (\<lambda>k. node_at J doc (p @ [k])) ms"
    unfolding reads_document_def by blast
  with a(2) document_unwritten[OF False] show ?thesis by simp
qed

lemma read_percentiles_ok:
  assumes R: "reads_document J doc (aggregator_to_json c)"
  shows "read_percentiles J (node_at J doc [''percentiles'']) =
    Inr (if cfg_percentiles c = [] then [90] else cfg_percentiles c)"
proof -
  have l: "list_all2 (stands_for J) (json_elems J (node_at J doc [''percentiles''])) (map JInt (cfg_percentiles c))"
    using read_array[OF R, of "[''percentiles'']"] aggregator_json_complete[of c] by simp
  from list_all2_lengthD[OF l] read_int_list[OF l, of "[]"] show ?thesis
    by (auto simp: read_percentiles_def)
qed

lemma read_backends_ok:
  assumes R: "reads_document J doc (aggregator_to_json c)" and ok: "config_ok c"
    and d: "cfg_carbon d = []" "cfg_repeaters d = []"
  shows "\<exists>ms. json_names J (node_at J doc [''backends'']) = Inr ms
    \<and> fold_result (read_backend J (node_at J doc [''backends''])) ms d =
        Inr (d\<lparr>cfg_carbon := cfg_carbon c, cfg_repeaters := cfg_repeaters c, cfg_stdout := True\<rparr>)"
proof -
  from R obtain ms where ms: "json_names J (node_at J doc [''backends'']) = Inr ms" "distinct ms"
    "set ms = {k. is_member (aggregator_to_json c) [''backends'', k]}"
    using read_names[OF R, of "[''backends'']"] by auto
  have cl: "list_all2 (stands_for J) (json_elems J (node_at J doc [''backends'', ''carbon'']))
      (map carbon_object (cfg_carbon c))"
    using read_array[OF R, of "[''backends'', ''carbon'']"] aggregator_json_complete[of c] by simp
  have rl: "list_all2 (stands_for J) (json_elems J (node_at J doc [''backends'', ''repeater'']))
      (map hostport_object (cfg_repeaters c))"
    using read_array[OF R, of "[''backends'', ''repeater'']"] aggregator_json_complete[of c] by simp
  from ok have "distinct (map fst ([] @ cfg_carbon c))" by (simp add: config_ok_def)
  from read_carbon_list[OF cl this, of 0] read_hostport_list[OF rl, of 3000 "[]"] ms(2) d
    read_backends[of J "node_at J doc [''backends'']" "cfg_carbon c" "cfg_repeaters c" ms d]
  have "fold_result (read_backend J (node_at J doc [''backends''])) ms d = Inr (d\<lparr>
      cfg_carbon := if ''carbon'' \<in> set ms then cfg_carbon c else cfg_carbon d,
      cfg_repeaters := if ''repeater'' \<in> set ms then cfg_repeaters c else cfg_repeaters d,
      cfg_stdout := (''stdout'' \<in> set ms \<or> cfg_stdout d)\<rparr>)"
    by (simp add: read_carbon_def)
  moreover have "''stdout'' \<in> set ms" "''carbon'' \<in> set ms \<longleftrightarrow> cfg_carbon c \<noteq> []"
    "''repeater'' \<in> set ms \<longleftrightarrow> cfg_repeaters c \<noteq> []"
    by (simp_all add: ms(3) aggregator_members)
  ultimately show ?thesis using ms(1) d by (auto split: if_splits)
qed

lemma aggregator_reread:
  assumes R: "reads_document J doc (aggregator_to_json c)" and ok: "config_ok c"
  shows "new_aggregator_config J doc = Inr (reread c)"
proof -
  let ?d = "config.extend (config.truncate (reread c))
     \<lparr>cfg_name = cfg_name c, cfg_prefix = [], cfg_prefix_counter = ''counters.'', cfg_prefix_timer = ''timers.'',
      cfg_prefix_gauge = ''gauges.'', cfg_prefix_set = ''sets.'', cfg_frequency = cfg_frequency c,
      cfg_percentiles = if cfg_percentiles c = [] then [90] else cfg_percentiles c, cfg_carbon = [],
      cfg_repeaters = [], cfg_stdout = False\<rparr> :: aggregator_config"
  have "cfg_carbon ?d = []" "cfg_repeaters ?d = []" by (simp_all add: config.defs)
  from read_backends_ok[OF R ok this] obtain ms where ms: "json_names J (node_at J doc [''backends'']) = Inr ms"
    "fold_result (read_backend J (node_at J doc [''backends''])) ms ?d =
        Inr (?d\<lparr>cfg_carbon := cfg_carbon c, cfg_repeaters := cfg_repeaters c, cfg_stdout := True\<rparr>)" by blast
  have "new_aggregator_config J (node_at J doc []) =
      Inr (?d\<lparr>cfg_carbon := cfg_carbon c, cfg_repeaters := cfg_repeaters c, cfg_stdout := True\<rparr>)"
    using ms by (simp add: new_aggregator_config_def read_common[OF R ok] read_settings[OF R]
        read_percentiles_ok[OF R] dotted_def)
  moreover have "?d\<lparr>cfg_carbon := cfg_carbon c, cfg_repeaters := cfg_repeaters c, cfg_stdout := True\<rparr> = reread c"
    by (cases c) (simp add: reread_def config.defs)
  ultimately show ?thesis by (simp flip: node_at_Nil)
qed

section \<open>Properties\<close>

lemma constructed_config_ok:
  assumes "new_aggregator_config J json = Inr c"
  shows "config_ok c"
proof -
  from assms obtain base nm pre pc pt pg pset freq pcts ms where base: "new_config J json = Inr base"
    and f: "fold_result (read_backend J (json_member J json ''backends'')) ms (config.extend base
      \<lparr>cfg_name = nm, cfg_prefix = dotted pre, cfg_prefix_counter = dotted pc, cfg_prefix_timer = dotted pt,
       cfg_prefix_gauge = dotted pg, cfg_prefix_set = dotted pset, cfg_frequency = freq, cfg_percentiles = pcts,
       cfg_carbon = [], cfg_repeaters = [], cfg_stdout = False\<rparr>) = Inr c"
    unfolding new_aggregator_config_def bind_result_Inr_iff by blast
  have carbon: "umap_ok m'" if "read_carbon J es m = Inr m'" "umap_ok m" for es m m'
  proof -
    from that(1) obtain k where "fold_result (read_carbon_entry J) es (m, 0) = Inr (m', k)"
      by (auto simp: read_carbon_def bind_result_Inr_iff)
    moreover have "umap_ok (fst v)" if "read_carbon_entry J x u = Inr v" "umap_ok (fst u)" for x u v
      using that by (cases u) (auto simp: read_carbon_entry_def bind_result_Inr_iff intro: umap_ok_put)
    ultimately show ?thesis
      using fold_result_invariant[of "read_carbon_entry J" es "(m, 0)" "(m', k)" "\<lambda>u. umap_ok (fst u)"] that(2) by auto
  qed
  let ?P = "\<lambda>d. umap_ok (cfg_carbon d) \<and> config.truncate d = base"
  have "?P c"
  proof (rule fold_result_invariant[OF f])
    show "?P (config.extend base \<lparr>cfg_name = nm, cfg_prefix = dotted pre, cfg_prefix_counter = dotted pc,
        cfg_prefix_timer = dotted pt, cfg_prefix_gauge = dotted pg, cfg_prefix_set = dotted pset,
        cfg_frequency = freq, cfg_percentiles = pcts, cfg_carbon = [], cfg_repeaters = [], cfg_stdout = False\<rparr>)"
      by (simp add: umap_ok_Nil config.defs)
    show "?P v" if "?P u" "read_backend J (json_member J json ''backends'') x u = Inr v" for x u v
      using that carbon
      by (auto simp: read_backend_def bind_result_Inr_iff config.defs split: if_splits)
  qed
  moreover have "(tcp_enabled base \<longleftrightarrow> tcp_port base \<noteq> - 1) \<and> (udp_enabled base \<longleftrightarrow> udp_port base \<noteq> - 1)"
    using base by (auto simp: new_config_def Let_def bind_result_Inr_iff)
  ultimately show ?thesis by (auto simp: config_ok_def umap_ok_def config.defs)
qed

text \<open>
  C10. What survives when the aggregator's configuration is taken from the status page and read again,
  through a JSON library that behaves as documented.
  The constructor accepts what \<^verbatim>\<open>to_json\<close> writes, and gives the configuration \<open>reread c\<close>: the
  level, the name, workers, frequency, percentiles, carbon shards and repeaters are those of \<open>c\<close>, and so
  are the port of every enabled server and the UDP threads, when UDP is enabled. Else the ports are -1 and, for the status
  server, 8080, and there is one UDP thread; the prefixes and the receive buffer are the defaults, the status
  server is enabled, and stdout is enabled, since its key is written with either value.
\<close>

theorem config_survives_json:
  assumes "new_aggregator_config J json = Inr c" "reads_document J' doc (aggregator_to_json c)"
  shows "new_aggregator_config J' doc = Inr (reread c)"
  by (rule aggregator_reread[OF assms(2) constructed_config_ok[OF assms(1)]])

section \<open>Such a library\<close>

text \<open>
  A reading interface that is \<open>reads_document\<close> for every list of writes of strings, numbers and
  flat objects: a node is a path of the document or one of its values.
\<close>

definition value_at :: "jwrite list \<Rightarrow> string list + jvalue \<Rightarrow> jvalue option" where
  "value_at ws v = (case v of Inr x \<Rightarrow> Some x
     | Inl p \<Rightarrow> (case document ws p of [x] \<Rightarrow> Some x | _ \<Rightarrow> None))"

definition names_below :: "jwrite list \<Rightarrow> string list \<Rightarrow> string list" where
  "names_below ws p = remdups (concat (map (\<lambda>w. let q = write_path w in
     if length p < length q \<and> take (length p) q = p then [q ! length p] else []) ws))"

definition list_api :: "jwrite list \<Rightarrow> (string list + jvalue) json_api" where
  "list_api ws =
     \<lparr>json_get = (\<lambda>v k. case v of
        Inl p \<Rightarrow> if is_member ws (p @ [k]) then Some (Inl (p @ [k])) else None
      | Inr (JObject fs) \<Rightarrow> map_option Inr (map_of fs k)
      | Inr _ \<Rightarrow> None),
      json_member = (\<lambda>v k. case v of Inl p \<Rightarrow> Inl (p @ [k]) | Inr _ \<Rightarrow> Inr (JObject [])),
      json_names = (\<lambda>v. case v of
        Inl p \<Rightarrow> if written_at ws p then Inl (Thrown ''getMemberNames'') else Inr (names_below ws p)
      | Inr (JObject fs) \<Rightarrow> Inr (map fst fs)
      | Inr _ \<Rightarrow> Inl (Thrown ''getMemberNames'')),
      json_elems = (\<lambda>v. case v of
        Inl p \<Rightarrow> if written_at ws p then map Inr (document ws p) else map (\<lambda>k. Inl (p @ [k])) (names_below ws p)
      | Inr (JObject fs) \<Rightarrow> map (Inr \<circ> snd) fs
      | Inr _ \<Rightarrow> []),
      as_string = (\<lambda>v. case value_at ws v of Some (JString s) \<Rightarrow> Inr s | _ \<Rightarrow> Inl (Thrown ''asString'')),
      as_int = (\<lambda>v. case value_at ws v of Some (JInt i) \<Rightarrow> Inr i | _ \<Rightarrow> Inl (Thrown ''asInt'')),
      as_bool = (\<lambda>v. case value_at ws v of Some (JBool b) \<Rightarrow> Inr b | _ \<Rightarrow> Inl (Thrown ''asBool''))\<rparr>"

fun flat_value :: "jvalue \<Rightarrow> bool" where
  "flat_value (JObject fs) = (\<forall>kv \<in> set fs. case snd kv of JObject _ \<Rightarrow> False | _ \<Rightarrow> True)"
| "flat_value v = True"

fun flat_write :: "jwrite \<Rightarrow> bool" where
  "flat_write (Append p v) = flat_value v"
| "flat_write (Assign p v) = (case v of JObject _ \<Rightarrow> False | _ \<Rightarrow> True)"

lemma take_prefix: "take (length p) q = p \<longleftrightarrow> (\<exists>r. q = p @ r)"
  by (metis append_eq_conv_conj append_take_drop_id)

lemma names_below: "set (names_below ws p) = {k. is_member ws (p @ [k])}"
proof -
  have member: "take (length (p @ [k])) q = p @ [k] \<longleftrightarrow> (\<exists>r. q = p @ k # r)" for q k
    unfolding take_prefix by simp
  have "k \<in> set (if length p < length q \<and> take (length p) q = p then [q ! length p] else []) \<longleftrightarrow> (\<exists>r. q = p @ k # r)"
    for q k unfolding take_prefix by (auto simp: neq_Nil_conv)
  then show ?thesis
    unfolding names_below_def is_member_def member set_remdups set_concat set_map Let_def
    by (simp only: UN_iff image_image set_eq_iff mem_Collect_eq) blast
qed

lemma document_flat:
  assumes "\<forall>w \<in> set ws. flat_write w" "v \<in> set (document ws p)"
  shows "flat_value v"
proof -
  have "\<forall>v \<in> set (fold apply_write ws m p). flat_value v"
    if "\<forall>w \<in> set ws. flat_write w" "\<forall>p. \<forall>v \<in> set (m p). flat_value v" for ws m
    using that
  proof (induction ws arbitrary: m)
    case (Cons w ws)
    have "\<forall>p. \<forall>v \<in> set (apply_write w m p). flat_value v"
      using Cons.prems by (cases w) (auto simp: apply_write_def split: jvalue.splits)
    with Cons show ?case by simp
  qed simp
  from this[of ws "\<lambda>_. []"] assms show ?thesis by (simp add: document_def)
qed

lemma scalar_list_api: "(case v of JObject _ \<Rightarrow> False | _ \<Rightarrow> True) \<Longrightarrow> value_at ws x = Some v \<Longrightarrow> scalar_for (list_api ws) x v"
  by (cases v) (auto simp: list_api_def)

lemma stands_for_list_api:
  assumes "flat_value v"
  shows "stands_for (list_api ws) (Inr v) v"
proof (cases v)
  case (JObject fs)
  have "rel_option (scalar_for (list_api ws)) (map_option Inr (map_of fs k)) (map_of fs k)" for k
  proof (cases "map_of fs k")
    case (Some x)
    then have "(k, x) \<in> set fs" by (rule map_of_SomeD)
    with assms JObject have "case x of JObject _ \<Rightarrow> False | _ \<Rightarrow> True" by force
    with Some show ?thesis by (simp add: scalar_list_api value_at_def)
  qed simp
  then show ?thesis by (simp add: JObject list_api_def)
qed (auto simp: list_api_def value_at_def)

lemma list_api_reads:
  assumes "\<forall>w \<in> set ws. flat_write w"
  shows "reads_document (list_api ws) (Inl []) ws"
proof -
  have at: "node_at (list_api ws) (Inl q) p = Inl (q @ p)" for p q
    by (induction p arbitrary: q) (simp_all add: node_at_def list_api_def)
  have assigned: "stands_for (list_api ws) (Inl p) v" if "Assign p v \<in> set ws" "document ws p = [v]" for p v
  proof -
    from assms that(1) have "case v of JObject _ \<Rightarrow> False | _ \<Rightarrow> True" by force
    with scalar_list_api[OF this, of ws "Inl p"] that(2) show ?thesis by (cases v) (auto simp: value_at_def)
  qed
  have "list_all2 (stands_for (list_api ws)) (map Inr (document ws p)) (document ws p)" for p
    using document_flat[OF assms] by (auto simp: list_all2_map1 list.rel_refl_strong intro: stands_for_list_api list.rel_refl_strong)
  then have "list_all2 (stands_for (list_api ws)) (json_elems (list_api ws) (Inl p)) (document ws p)" if "written_at ws p" for p
    using that by (simp add: list_api_def)
  moreover have "\<not> written_at ws p" if "inner ws p" for p
    using that by (auto simp: inner_def written_at_def)
  then have "\<exists>ms. json_names (list_api ws) (Inl p) = Inr ms \<and> distinct ms \<and> set ms = {k. is_member ws (p @ [k])}
      \<and> json_elems (list_api ws) (Inl p) = map (\<lambda>k. Inl (p @ [k])) ms" if "inner ws p" for p
    using that by (intro exI[of _ "names_below ws p"]) (simp add: names_below, simp add: list_api_def names_below_def)
  moreover have "json_get (list_api ws) (Inl p) k = (if is_member ws (p @ [k]) then Some (Inl (p @ [k])) else None)" for p k
    by (simp add: list_api_def)
  ultimately show ?thesis using assigned by (simp add: reads_document_def at)
qed

lemma aggregator_writes_flat: "w \<in> set (aggregator_to_json c) \<Longrightarrow> flat_write w"
  by (auto simp: aggregator_to_json_def config_to_json_def level_writes_def carbon_object_def hostport_object_def
      split: if_splits)

theorem config_survives_json_witness:
  "\<exists>c. new_aggregator_config null_api () = Inr c
    \<and> new_aggregator_config (list_api (aggregator_to_json c)) (Inl []) = Inr (reread c)
    \<and> cfg_percentiles (reread c) = [90] \<and> cfg_stdout (reread c)"
proof -
  obtain c where c: "new_aggregator_config null_api () = Inr c" "cfg_percentiles c = [90]"
    by (auto simp: new_aggregator_config_def new_config_def Let_def null_api_def read_percentiles_def config.defs)
  from config_survives_json[OF c(1) list_api_reads] aggregator_writes_flat c show ?thesis
    by (auto simp: reread_def)
qed

end
