(* ===== verification/Status.thy ===== *)
theory Status
  imports Proxy Backends
begin

text \<open>
  The status pages: \<^verbatim>\<open>lib/status.cc\<close> and the HTTP servers of the aggregator and the proxy,
  \<^verbatim>\<open>lib/net/servers/http/aggregator/http_server.cc\<close> and \<^verbatim>\<open>proxy/http_server.cc\<close>. \<open>files\<close> gives the
  contents of the files under \<^verbatim>\<open>/proc\<close> that can be opened, \<open>dir_exists\<close> the directories. A JSON
  object that is built up is the list of the writes made to it; the HTTP library is the
  consumer of the \<open>response\<close> a request gets.
\<close>

section \<open>Status files\<close>

definition trim_right :: "string \<Rightarrow> string" where
  "trim_right s = rev (dropWhile is_space (rev s))"

definition trim_left :: "string \<Rightarrow> string" where
  "trim_left s = dropWhile is_space s"

definition expand_tabs :: "string \<Rightarrow> string" where
  "expand_tabs s = concat (map (\<lambda>c. if c = CHR 0x09 then ''    '' else [c]) s)"

text \<open>One line of a status file; \<open>status\<close> is the object the caller passes by reference.\<close>

definition status_line :: "string list \<Rightarrow> string \<Rightarrow> (string, string) umap \<Rightarrow> (string, string) umap" where
  "status_line keys line status =
     (let key_value = split_on CHR '':'' line in
      if length key_value = 2
      then (let key = trim_right (key_value ! 0) in
        if length keys \<noteq> 0 \<and> key \<notin> set keys then status
        else umap_put key (expand_tabs (trim_left (key_value ! 1))) status)
      else status)"

definition read_status ::
  "(string \<Rightarrow> string option) \<Rightarrow> string \<Rightarrow> string list \<Rightarrow> (string, string) umap \<Rightarrow> bool \<times> (string, string) umap"
where
  "read_status files path keys status = (case files path of
     None \<Rightarrow> (False, status)
   | Some content \<Rightarrow> (True, fold (status_line keys) (getlines content) status))"

definition status_object :: "(string, string) umap \<Rightarrow> jvalue" where
  "status_object status = JObject (map (\<lambda>(k, v). (k, JString v)) status)"

section \<open>The threads\<close>

text \<open>The locals of \<^verbatim>\<open>get_proc_status\<close>: \<^verbatim>\<open>threads_status\<close>, \<^verbatim>\<open>success\<close>, \<^verbatim>\<open>fail\<close> and \<^verbatim>\<open>root\<close>.\<close>

record proc_run =
  pr_status :: "(string, string) umap"
  pr_success :: int
  pr_fail :: int
  pr_root :: "jwrite list"

definition read_main :: "(string \<Rightarrow> string option) \<Rightarrow> string list \<Rightarrow> int \<Rightarrow> proc_run \<Rightarrow> proc_run" where
  "read_main files keys pid p =
     (let (opened, st) = read_status files (''/proc/'' @ show_int pid @ ''/status'') keys (pr_status p) in
      if opened then p\<lparr>pr_status := st, pr_root := pr_root p @ [Assign [''threads'', ''main''] (status_object st)]\<rparr>
      else p\<lparr>pr_status := st, pr_fail := pr_fail p + 1\<rparr>)"

text \<open>One thread of a kind, written under the next number of the kind.\<close>

definition read_task ::
  "(string \<Rightarrow> string option) \<Rightarrow> string list \<Rightarrow> string \<Rightarrow> string \<Rightarrow> int \<Rightarrow> proc_run \<times> int \<Rightarrow> proc_run \<times> int"
where
  "read_task files keys dir kind tid = (\<lambda>(p, i).
     let (opened, st) = read_status files (dir @ show_int tid @ ''/status'') keys (pr_status p) in
     if opened
     then (p\<lparr>pr_status := st, pr_success := pr_success p + 1,
             pr_root := pr_root p @ [Assign [''threads'', kind, show_int (i + 1)] (status_object st)]\<rparr>, i + 1)
     else (p\<lparr>pr_status := st, pr_fail := pr_fail p + 1\<rparr>, i))"

definition read_tasks ::
  "(string \<Rightarrow> string option) \<Rightarrow> string list \<Rightarrow> string \<Rightarrow> string \<Rightarrow> int list \<Rightarrow> proc_run \<Rightarrow> proc_run"
where
  "read_tasks files keys dir kind tids p = fst (fold (read_task files keys dir kind) tids (p, 0))"

definition task_prefix :: "(string \<Rightarrow> bool) \<Rightarrow> int \<Rightarrow> string" where
  "task_prefix dir_exists pid =
     (let dir = ''/proc/'' @ show_int pid @ ''/task/'' in if dir_exists dir then dir else ''/proc/'')"

definition put_totals :: "proc_run \<Rightarrow> jwrite list" where
  "put_totals p = pr_root p @
     [Assign [''status'', ''total''] (JInt (pr_success p + pr_fail p)),
      Assign [''status'', ''success''] (JInt (pr_success p)),
      Assign [''status'', ''failed''] (JInt (pr_fail p))]"

abbreviation proc_start :: proc_run where
  "proc_start \<equiv> \<lparr>pr_status = [], pr_success = 0, pr_fail = 0, pr_root = []\<rparr>"

text \<open>
  The aggregator's page: \<open>servers\<close> and \<open>workers\<close> give the thread ids each server and worker has
  registered; of a worker and of the clock the first id is read.
\<close>

definition get_proc_status ::
  "(string \<Rightarrow> string option) \<Rightarrow> (string \<Rightarrow> bool) \<Rightarrow> int \<Rightarrow> int list list \<Rightarrow> int list list \<Rightarrow> int list \<Rightarrow>
    string list \<Rightarrow> jwrite list result"
where
  "get_proc_status files dir_exists pid servers workers clock keys =
     (let dir = task_prefix dir_exists pid;
          p = read_tasks files keys dir ''servers'' (concat servers) (read_main files keys pid proc_start) in
      bind_result (fold_result (\<lambda>tids acc. bind_result (vec_at tids 0) (\<lambda>t. Inr (acc @ [t]))) workers []) (\<lambda>firsts.
        let p = read_tasks files keys dir ''workers'' firsts p in
        bind_result (vec_at clock 0) (\<lambda>t.
          Inr (put_totals (read_tasks files keys dir ''clock'' [t] p)))))"

text \<open>The proxy's page: one worker, of which every thread is read, and no clock.\<close>

definition proxy_proc_status ::
  "(string \<Rightarrow> string option) \<Rightarrow> (string \<Rightarrow> bool) \<Rightarrow> int \<Rightarrow> int list list \<Rightarrow> int list \<Rightarrow> string list \<Rightarrow> jwrite list"
where
  "proxy_proc_status files dir_exists pid servers workers keys =
     (let dir = task_prefix dir_exists pid;
          p = read_tasks files keys dir ''servers'' (concat servers) (read_main files keys pid proc_start) in
      put_totals (read_tasks files keys dir ''workers'' workers p))"

definition get_sys_info :: "(string \<Rightarrow> string option) \<Rightarrow> string list \<Rightarrow> jwrite list" where
  "get_sys_info files keys =
     (let (mem, memstat) = read_status files ''/proc/meminfo'' keys [];
          (cpu, cpustat) = read_status files ''/proc/cpuinfo'' keys [] in
      (if mem then [Assign [''meminfo''] (status_object memstat)] else [])
      @ (if cpu then [Assign [''cpuinfo''] (status_object cpustat)] else []))"

definition proxy_sys_info :: "(string \<Rightarrow> string option) \<Rightarrow> string list \<Rightarrow> jwrite list" where
  "proxy_sys_info files keys = get_sys_info files keys"

section \<open>The application\<close>

text \<open>
  \<open>by_freq\<close> is \<^verbatim>\<open>std::sort\<close> by descending frequency, which leaves the order of equal ones open. The
  numbers are converted to \<^verbatim>\<open>UInt64\<close>.
\<close>

definition hot_metrics ::
  "((string \<times> int) list \<Rightarrow> (string \<times> int) list) \<Rightarrow> string \<Rightarrow> (string, int) umap \<Rightarrow> jwrite list"
where
  "hot_metrics by_freq i freq =
     map (\<lambda>(n, f). Assign [i, ''hot_metrics'', n] (JInt f)) (take 5 (by_freq freq))"

definition worker_status ::
  "((string \<times> int) list \<Rightarrow> (string \<times> int) list) \<Rightarrow> int \<Rightarrow> 'q worker \<Rightarrow> jwrite list"
where
  "worker_status by_freq i w =
     [Assign [show_int i, ''metrics_rate''] (JInt (metrics_rate w)),
      Assign [show_int i, ''metrics_dropped''] (JInt (metrics_dropped w))]
     @ hot_metrics by_freq (show_int i) (get_metrics_frequency w)
     @ [Assign [show_int i, ''bad_lines_seen''] (JInt (seen_bad w mod 2 ^ 64))]"

definition get_app_status ::
  "((string \<times> int) list \<Rightarrow> (string \<times> int) list) \<Rightarrow> 'q worker list \<Rightarrow> jwrite list"
where
  "get_app_status by_freq ws =
     fst (fold (\<lambda>w (root, i). (root @ worker_status by_freq (i + 1) w, i + 1)) ws ([], 0))"

definition proxy_app_status :: "'q proxy_worker \<Rightarrow> jwrite list" where
  "proxy_app_status w =
     [Assign [''worker'', ''metrics_dropped''] (JInt (pw_dropped w)),
      Assign [''worker'', ''bad_lines_seen''] (JInt (pw_bad w))]"

section \<open>Requests\<close>

datatype body = Page string | Json "jwrite list"

record response =
  rs_code :: int
  rs_headers :: "(string \<times> string) list"
  rs_body :: body

fun under :: "string list \<Rightarrow> jwrite \<Rightarrow> jwrite" where
  "under p (Assign q v) = Assign (p @ q) v"
| "under p (Append q v) = Append (p @ q) v"

definition home_page :: string where
  \<open>home_page = ''<html> <h3>Welcome to statsdcc</h3>                    Click <a href="/proc">/proc</a> to see threads status                     </br>                     Click <a href="/app">/app</a> to see application status                   </html>''\<close>

definition default_keys :: "string list" where
  "default_keys = [''Pid'', ''PPid'', ''State'', ''VmSize'', ''VmPeak'', ''VmSwap'',
     ''nonvoluntary_ctxt_switches'', ''voluntary_ctxt_switches'',
     ''MemTotal'', ''MemFree'', ''SwapTotal'', ''SwapFree'', ''cpu cores'']"

definition request_keys :: "string option \<Rightarrow> string list" where
  "request_keys params = (case params of Some p \<Rightarrow> split_on CHR '','' p | None \<Rightarrow> default_keys)"

text \<open>
  \<open>params\<close> is the value of the request's argument \<^verbatim>\<open>keys\<close>; \<open>sys\<close>, \<open>proc\<close>, \<open>config\<close> and \<open>app\<close> are
  what the pages are made of.
\<close>

definition handle_request ::
  "string \<times> string \<Rightarrow> (string list \<Rightarrow> jwrite list) \<Rightarrow> (string list \<Rightarrow> jwrite list result) \<Rightarrow>
    jwrite list \<Rightarrow> jwrite list \<Rightarrow> string \<Rightarrow> string option \<Rightarrow> response result"
where
  "handle_request build sys proc config app url params =
     (let found = (\<lambda>type body. \<lparr>rs_code = 200,
            rs_headers = [(''Content-Type'', type), (''Connection'', ''close'')], rs_body = body\<rparr>) in
      if url = ''/'' then Inr (found ''text/html'' (Page home_page))
      else if url = ''/proc'' then
        (let keys = request_keys params in
         bind_result (proc keys) (\<lambda>p. Inr (found ''application/json'' (Json (sys keys @ map (under [''proc'']) p)))))
      else if url = ''/app'' then
        Inr (found ''application/json'' (Json
          ([Assign [''statsdcc'', ''version''] (JString (fst build)), Assign [''statsdcc'', ''build''] (JString (snd build))]
           @ map (under [''config'']) config @ map (under [''status'']) app)))
      else Inr \<lparr>rs_code = 404, rs_headers = [], rs_body = Page ''resource not found''\<rparr>)"


text \<open>What the two servers answer from their program's state.\<close>

definition aggregator_page ::
  "(string \<Rightarrow> string option) \<Rightarrow> (string \<Rightarrow> bool) \<Rightarrow> ((string \<times> int) list \<Rightarrow> (string \<times> int) list) \<Rightarrow>
    string \<times> string \<Rightarrow> int \<Rightarrow> int list list \<Rightarrow> ('q worker \<times> int list) list \<Rightarrow> int list \<Rightarrow>
    aggregator_config \<Rightarrow> string \<Rightarrow> string option \<Rightarrow> response result"
where
  "aggregator_page files dir_exists by_freq build pid servers ws clock c url params =
     handle_request build (get_sys_info files)
       (get_proc_status files dir_exists pid servers (map snd ws) clock)
       (aggregator_to_json c) (get_app_status by_freq (map fst ws)) url params"

definition proxy_page ::
  "(string \<Rightarrow> string option) \<Rightarrow> (string \<Rightarrow> bool) \<Rightarrow> string \<times> string \<Rightarrow> int \<Rightarrow> int list list \<Rightarrow> int list \<Rightarrow>
    'q proxy_worker \<Rightarrow> 'r proxy_config \<Rightarrow> string \<Rightarrow> string option \<Rightarrow> response result"
where
  "proxy_page files dir_exists build pid servers tids w c url params =
     handle_request build (proxy_sys_info files)
       (\<lambda>keys. Inr (proxy_proc_status files dir_exists pid servers tids keys))
       (proxy_to_json c) (proxy_app_status w) url params"

section \<open>Reading a file\<close>

text \<open>The entry a line makes, if any.\<close>

definition line_entry :: "string list \<Rightarrow> string \<Rightarrow> (string \<times> string) option" where
  "line_entry keys line =
     (case split_on CHR '':'' line of
        [k, v] \<Rightarrow> if keys = [] \<or> trim_right k \<in> set keys
          then Some (trim_right k, expand_tabs (trim_left v)) else None
      | _ \<Rightarrow> None)"

lemma status_line_entry:
  "status_line keys line st = (case line_entry keys line of None \<Rightarrow> st | Some (k, v) \<Rightarrow> umap_put k v st)"
proof (cases "length (split_on CHR '':'' line) = 2")
  case True
  then obtain k v where "split_on CHR '':'' line = [k, v]"
    by (metis length_0_conv length_Suc_conv numeral_2_eq_2)
  then show ?thesis by (simp add: status_line_def line_entry_def Let_def)
next
  case False
  then have "line_entry keys line = None" by (auto simp: line_entry_def split: list.splits)
  with False show ?thesis by (simp add: status_line_def Let_def)
qed

lemma fold_status_lines:
  "map_of (fold (status_line keys) ls st) = map_of st ++ map_of (rev (List.map_filter (line_entry keys) ls))"
proof (induction ls arbitrary: st)
  case Nil
  then show ?case by (simp add: List.map_filter_def)
next
  case (Cons l ls)
  then show ?case
    by (cases "line_entry keys l")
      (auto simp: status_line_entry map_filter_simps table_simps map_add_def split: option.splits intro!: ext)
qed

section \<open>Counting the threads\<close>

definition readable :: "(string \<Rightarrow> string option) \<Rightarrow> string \<Rightarrow> int \<Rightarrow> bool" where
  "readable files dir t = (files (dir @ show_int t @ ''/status'') \<noteq> None)"

lemma read_status_opened: "fst (read_status files path keys st) \<longleftrightarrow> files path \<noteq> None"
  by (simp add: read_status_def split: option.splits)

lemma read_task_counts:
  "read_task files keys dir kind t (p, i) = (p', i') \<Longrightarrow>
     pr_success p' = pr_success p + (if readable files dir t then 1 else 0)
     \<and> pr_fail p' = pr_fail p + (if readable files dir t then 0 else 1)"
  using read_status_opened[of files "dir @ show_int t @ ''/status''" keys "pr_status p"]
  by (auto simp: read_task_def readable_def split: prod.split_asm if_split_asm)

lemma read_tasks_counts:
  "pr_success (read_tasks files keys dir kind ts p) = pr_success p + int (length (filter (readable files dir) ts))
   \<and> pr_fail (read_tasks files keys dir kind ts p) = pr_fail p + int (length (filter (\<lambda>t. \<not> readable files dir t) ts))"
proof -
  have "pr_success (fst (fold (read_task files keys dir kind) ts (p, i))) =
      pr_success p + int (length (filter (readable files dir) ts))
    \<and> pr_fail (fst (fold (read_task files keys dir kind) ts (p, i))) =
      pr_fail p + int (length (filter (\<lambda>t. \<not> readable files dir t) ts))" for i
  proof (induction ts arbitrary: p i)
    case (Cons t ts)
    obtain p' i' where step: "read_task files keys dir kind t (p, i) = (p', i')" by fastforce
    from read_task_counts[OF step] Cons.IH[of p' i'] step show ?case by simp
  qed simp
  from this[of 0] show ?thesis by (simp add: read_tasks_def)
qed

lemma read_main_counts:
  "pr_success (read_main files keys pid p) = pr_success p
   \<and> pr_fail (read_main files keys pid p) = pr_fail p + (if readable files ''/proc/'' pid then 0 else 1)"
  using read_status_opened[of files "''/proc/'' @ show_int pid @ ''/status''" keys "pr_status p"]
  by (auto simp: read_main_def readable_def split: prod.split)

lemma put_totals_document:
  "document (put_totals p) [''status'', ''total''] = [JInt (pr_success p + pr_fail p)]"
  "document (put_totals p) [''status'', ''success''] = [JInt (pr_success p)]"
  "document (put_totals p) [''status'', ''failed''] = [JInt (pr_fail p)]"
  by (simp_all add: put_totals_def document_append apply_write_def)

section \<open>Properties\<close>

text \<open>
  Reading a status file: the last accepted line of a key gives its value, with the blanks around
  the colon trimmed and tabs expanded; a key without a line keeps the value the object had.
  So the object \<^verbatim>\<open>get_proc_status\<close> passes on from thread to thread still shows, for a thread
  whose file lacks a key, the value of an earlier thread.
\<close>

theorem read_status_entries:
  assumes "files path = Some content"
  shows "fst (read_status files path keys st)
    \<and> map_of (snd (read_status files path keys st)) k =
        (case map_of (rev (List.map_filter (line_entry keys) (getlines content))) k of
           None \<Rightarrow> map_of st k | Some v \<Rightarrow> Some v)"
  using assms by (simp add: read_status_def fold_status_lines map_add_def)

theorem read_status_entries_witness:
  "map_of (snd (read_status (\<lambda>p. Some (''State:'' @ [CHR 0x09] @ ''S'' @ [newline] @ ''VmSize: 1'')) ''/proc/1/status''
      [''State'', ''VmSwap''] [(''VmSwap'', ''7 kB'')])) ''VmSwap'' = Some ''7 kB''"
  by (subst read_status_entries[THEN conjunct2, OF refl], code_simp)

text \<open>
  The totals of the thread page: \<open>success\<close> counts the server, worker and clock threads whose
  status could be read, \<open>total\<close> all of these threads; the main thread counts only when it
  could not be read.
\<close>

theorem proc_status_totals:
  assumes "get_proc_status files dir_exists pid servers workers clock keys = Inr page"
  shows "clock \<noteq> [] \<and> (\<forall>tids \<in> set workers. tids \<noteq> [])
    \<and> (let tids = concat servers @ map hd workers @ [hd clock]; dir = task_prefix dir_exists pid in
       document page [''status'', ''success''] = [JInt (int (length (filter (readable files dir) tids)))]
       \<and> document page [''status'', ''total''] =
           [JInt (int (length tids) + (if readable files ''/proc/'' pid then 0 else 1))])"
proof -
  let ?dir = "task_prefix dir_exists pid"
  let ?first = "\<lambda>tids acc. bind_result (vec_at tids 0) (\<lambda>t. Inr (acc @ [t]))"
  let ?p1 = "read_tasks files keys ?dir ''servers'' (concat servers) (read_main files keys pid proc_start)"
  from assms obtain firsts t where f: "fold_result ?first workers [] = Inr firsts" "vec_at clock 0 = Inr t"
    and page: "page = put_totals (read_tasks files keys ?dir ''clock'' [t]
        (read_tasks files keys ?dir ''workers'' firsts ?p1))"
    by (auto simp: get_proc_status_def Let_def bind_result_Inr_iff)
  have hd: "vec_at tids 0 = Inr x \<longleftrightarrow> tids \<noteq> [] \<and> x = hd tids" for tids and x :: int
    by (auto simp: vec_at_def hd_conv_nth)
  have "fold_result ?first ws acc = Inr out \<Longrightarrow> out = acc @ map hd ws \<and> (\<forall>tids \<in> set ws. tids \<noteq> [])"
    for ws :: "int list list" and acc out
  proof (induction ws arbitrary: acc)
    case (Cons tids ws)
    then have "tids \<noteq> []" "fold_result ?first ws (acc @ [hd tids]) = Inr out"
      by (auto simp: bind_result_Inr_iff hd)
    with Cons.IH[OF this(2)] show ?case by simp
  qed simp
  from this[OF f(1)] have len: "firsts = map hd workers" "\<forall>tids \<in> set workers. tids \<noteq> []" by auto
  have c: "clock \<noteq> []" "t = hd clock" using f(2) by (auto simp: hd)
  have all: "int (length (filter P xs)) + int (length (filter (\<lambda>x. \<not> P x) xs)) = int (length xs)"
    for P and xs :: "int list"
    using sum_length_filter_compl[of P xs] by linarith
  note counts = read_tasks_counts read_main_counts
  have "document page [''status'', ''success''] =
      [JInt (int (length (filter (readable files ?dir) (concat servers @ firsts @ [t]))))]"
    unfolding page put_totals_document by (simp add: counts del: filter.simps)
  moreover have "document page [''status'', ''total''] =
      [JInt (int (length (concat servers @ firsts @ [t])) + (if readable files ''/proc/'' pid then 0 else 1))]"
    unfolding page put_totals_document
    using all[of "readable files ?dir" "concat servers"] all[of "readable files ?dir" firsts]
      all[of "readable files ?dir" "[t]"]
    by (simp add: counts del: filter.simps)
  ultimately show ?thesis using len c by (simp add: Let_def)
qed

theorem proc_status_totals_witness:
  "\<exists>page. get_proc_status (\<lambda>p. if p = ''/proc/7/status'' then None else Some []) (\<lambda>_. False) 7 [[8, 9]] [[10]] [11] []
       = Inr page \<and> document page [''status'', ''total''] = [JInt 5]"
proof -
  let ?files = "\<lambda>p. if p = ''/proc/7/status'' then None else Some []"
  have "ok (get_proc_status ?files (\<lambda>_. False) 7 [[8, 9]] [[10]] [11] [])" by code_simp
  then obtain page where p: "get_proc_status ?files (\<lambda>_. False) 7 [[8, 9]] [[10]] [11] [] = Inr page"
    by (auto simp: ok_iff)
  moreover have "readable ?files ''/proc/'' 7 = False" by code_simp
  ultimately show ?thesis using proc_status_totals[OF p] by (simp add: Let_def)
qed

section \<open>The hot metrics\<close>

fun statuses :: "((string \<times> int) list \<Rightarrow> (string \<times> int) list) \<Rightarrow> int \<Rightarrow> 'q worker list \<Rightarrow> jwrite list" where
  "statuses by_freq k [] = []"
| "statuses by_freq k (w # ws) = worker_status by_freq (k + 1) w @ statuses by_freq (k + 1) ws"

lemma get_app_status_statuses: "get_app_status by_freq ws = statuses by_freq 0 ws"
proof -
  have "fst (fold (\<lambda>w (page, i). (page @ worker_status by_freq (i + 1) w, i + 1)) ws (page, k))
      = page @ statuses by_freq k ws" for page k
    by (induction ws arbitrary: page k) simp_all
  from this[of "[]" 0] show ?thesis by (simp add: get_app_status_def)
qed

lemma fold_write_local: "m p = m' p \<Longrightarrow> fold apply_write ws m p = fold apply_write ws m' p"
proof (induction ws arbitrary: m m')
  case (Cons w ws)
  have "apply_write w m p = apply_write w m' p"
    using Cons.prems by (cases w; cases "p = write_path w") (simp_all add: apply_write_def)
  with Cons.IH[of "apply_write w m" "apply_write w m'"] show ?case by simp
qed simp

lemma worker_status_paths: "w' \<in> set (worker_status by_freq i w) \<Longrightarrow> \<exists>q. write_path w' = show_int i # q"
  by (auto simp: worker_status_def hot_metrics_def)

lemma statuses_paths: "w' \<in> set (statuses by_freq k ws) \<Longrightarrow> \<exists>j q. k < j \<and> write_path w' = show_int j # q"
proof (induction ws arbitrary: k)
  case (Cons w ws)
  from Cons.prems consider "w' \<in> set (worker_status by_freq (k + 1) w)" | "w' \<in> set (statuses by_freq (k + 1) ws)" by auto
  then show ?case
  proof cases
    case 1
    from worker_status_paths[OF this] show ?thesis by (intro exI[of _ "k + 1"]) auto
  next
    case 2
    from Cons.IH[OF this] obtain j q where "k + 1 < j" "write_path w' = show_int j # q" by blast
    then show ?thesis by (intro exI[of _ j]) auto
  qed
qed simp

lemma statuses_at:
  "0 \<le> k \<Longrightarrow> i < length ws \<Longrightarrow>
     fold apply_write (statuses by_freq k ws) m (show_int (k + 1 + int i) # q)
       = fold apply_write (worker_status by_freq (k + 1 + int i) (ws ! i)) m (show_int (k + 1 + int i) # q)"
proof (induction ws arbitrary: k i m)
  case (Cons w ws)
  let ?p = "show_int (k + 1 + int i) # q"
  show ?case
  proof (cases i)
    case 0
    have "?p \<notin> write_path ` set (statuses by_freq (k + 1) ws)"
    proof
      assume "?p \<in> write_path ` set (statuses by_freq (k + 1) ws)"
      then obtain w' where w': "w' \<in> set (statuses by_freq (k + 1) ws)" "write_path w' = ?p" by auto
      from statuses_paths[OF w'(1)] w'(2) 0 obtain j where "k + 1 < j" "show_int j = show_int (k + 1)" by auto
      with show_int_inj[of j "k + 1"] Cons.prems(1) show False by simp
    qed
    with 0 show ?thesis by (simp add: fold_write_other)
  next
    case (Suc j)
    have "?p \<notin> write_path ` set (worker_status by_freq (k + 1) w)"
    proof
      assume "?p \<in> write_path ` set (worker_status by_freq (k + 1) w)"
      then obtain w' where w': "w' \<in> set (worker_status by_freq (k + 1) w)" "write_path w' = ?p" by auto
      from worker_status_paths[OF w'(1)] w'(2) have "show_int (k + 1) = show_int (k + 1 + int i)" by auto
      with show_int_inj[of "k + 1" "k + 1 + int i"] Cons.prems(1) Suc show False by simp
    qed
    then have first: "fold apply_write (worker_status by_freq (k + 1) w) m ?p = m ?p" by (rule fold_write_other)
    have e: "k + 1 + int i = (k + 1) + 1 + int j" using Suc by simp
    have "fold apply_write (statuses by_freq (k + 1) ws) (fold apply_write (worker_status by_freq (k + 1) w) m) ?p
        = fold apply_write (worker_status by_freq (k + 1 + int i) (ws ! j)) (fold apply_write (worker_status by_freq (k + 1) w) m) ?p"
      unfolding e by (rule Cons.IH) (use Cons.prems Suc in auto)
    also have "\<dots> = fold apply_write (worker_status by_freq (k + 1 + int i) (ws ! j)) m ?p"
      by (rule fold_write_local) (rule first)
    finally show ?thesis using Suc by simp
  qed
qed simp

lemma fold_assign_names:
  "distinct (map fst xs) \<Longrightarrow>
     fold apply_write (map (\<lambda>(n, f). Assign [i, h, n] (JInt f)) xs) m [i, h, k] =
       (case map_of xs k of None \<Rightarrow> m [i, h, k] | Some f \<Rightarrow> [JInt f])"
proof (induction xs arbitrary: m)
  case (Cons x xs)
  show ?case
  proof (cases "fst x = k")
    case True
    with Cons.prems have "map_of xs k = None" by (simp add: map_of_eq_None_iff)
    with True Cons show ?thesis by (cases x) (simp add: apply_write_def)
  next
    case False
    with Cons show ?thesis by (cases x) (auto simp: apply_write_def split: option.splits)
  qed
qed simp

text \<open>What \<^verbatim>\<open>std::sort\<close> with a descending comparison guarantees.\<close>

definition sorts_descending :: "((string \<times> int) list \<Rightarrow> (string \<times> int) list) \<Rightarrow> bool" where
  "sorts_descending by_freq =
     (\<forall>xs. mset (by_freq xs) = mset xs \<and> sorted_wrt (\<lambda>a b. snd b \<le> snd a) (by_freq xs))"

text \<open>
  The application page lists, for every worker, its five most frequent metrics of the last
  flushed interval with their frequencies (all of them when there are fewer): no metric left
  out was more frequent than one listed.
\<close>

theorem hot_metrics_are_hottest:
  assumes "sorts_descending by_freq" "i < length ws" "umap_ok (metrics_frequency (ws ! i))"
  shows "\<exists>top. length top = min 5 (length (metrics_frequency (ws ! i)))
    \<and> set top \<subseteq> set (metrics_frequency (ws ! i))
    \<and> (\<forall>x \<in> set (metrics_frequency (ws ! i)) - set top. \<forall>y \<in> set top. snd x \<le> snd y)
    \<and> (\<forall>n. document (get_app_status by_freq ws) [show_int (int i + 1), ''hot_metrics'', n] =
        (case map_of top n of None \<Rightarrow> [] | Some f \<Rightarrow> [JInt f]))"
proof -
  let ?freq = "metrics_frequency (ws ! i)" and ?id = "show_int (int i + 1)"
  define s where "s = by_freq ?freq"
  have s: "mset s = mset ?freq" "sorted_wrt (\<lambda>a b. snd b \<le> snd a) s"
    using assms(1) by (simp_all add: sorts_descending_def s_def)
  have set: "set s = set ?freq" "length s = length ?freq"
    using s(1) by (metis set_mset_mset, metis size_mset)
  have "mset (map fst s) = mset (map fst ?freq)" using s(1) by (metis mset_map)
  with assms(3) have "distinct (map fst s)" by (metis umap_ok_def mset_eq_imp_distinct_iff)
  then have d: "distinct (map fst (take 5 s))" by (metis distinct_take take_map)
  have order: "snd x \<le> snd y" if "x \<in> set s - set (take 5 s)" "y \<in> set (take 5 s)" for x y
  proof -
    have "x \<in> set (drop 5 s)" using that(1) by (metis DiffD1 DiffD2 UnE append_take_drop_id set_append)
    with that(2) s(2) show ?thesis by (metis append_take_drop_id sorted_wrt_append)
  qed
  have doc: "document (get_app_status by_freq ws) [?id, ''hot_metrics'', n] =
      (case map_of (take 5 s) n of None \<Rightarrow> [] | Some f \<Rightarrow> [JInt f])" for n
  proof -
    have "document (get_app_status by_freq ws) [?id, ''hot_metrics'', n] =
        fold apply_write (worker_status by_freq (int i + 1) (ws ! i)) (\<lambda>_. []) [?id, ''hot_metrics'', n]"
      using statuses_at[of 0 i ws by_freq "\<lambda>_. []" "[''hot_metrics'', n]"] assms(2)
      by (simp add: document_def get_app_status_statuses add.commute)
    also have "\<dots> = (case map_of (take 5 s) n of None \<Rightarrow> [] | Some f \<Rightarrow> [JInt f])"
      using fold_assign_names[OF d, of ?id "''hot_metrics''" _ n]
      by (simp add: worker_status_def hot_metrics_def s_def apply_write_def split: option.splits)
    finally show ?thesis .
  qed
  show ?thesis
    by (rule exI[of _ "take 5 s"]) (use set order doc in \<open>auto simp: min_def dest: in_set_takeD\<close>)
qed


lemma sorts_descending_rev: "sorts_descending (\<lambda>xs. rev (sort_key snd xs))"
proof -
  have "sorted_wrt (\<lambda>a b. snd b \<le> snd a) (rev (sort_key snd xs))" for xs :: "(string \<times> int) list"
    using sorted_sort_key[of snd xs] by (simp add: sorted_wrt_rev sorted_map)
  then show ?thesis by (simp add: sorts_descending_def)
qed

theorem hot_metrics_are_hottest_witness:
  "\<exists>top. length top = 2 \<and> set top \<subseteq> {(''a'', 1), (''b'', 9)}
    \<and> (\<forall>n. document (get_app_status (\<lambda>xs. rev (sort_key snd xs)) [worker0\<lparr>metrics_frequency := [(''a'', 1), (''b'', 9)]\<rparr>])
        [''1'', ''hot_metrics'', n] = (case map_of top n of None \<Rightarrow> [] | Some f \<Rightarrow> [JInt f]))"
proof -
  have "show_int 1 = ''1''" by code_simp
  then show ?thesis
    using hot_metrics_are_hottest[OF sorts_descending_rev, of 0 "[worker0\<lparr>metrics_frequency := [(''a'', 1), (''b'', 9)]\<rparr>]"]
    by (simp add: umap_ok_def numeral_2_eq_2) blast
qed

end
