(* ===== verification/Hostport.thy ===== *)
theory Hostport
  imports Hashring Cstdio
begin

text \<open>
  The textual form of a host and port: the constructor \<^verbatim>\<open>Hostport(const std::string&)\<close> and the
  equality and hash of \<^verbatim>\<open>include/statsdcc/hostport.h\<close>. \<^verbatim>\<open>std::stoi\<close> is written out for the
  decimal numbers it reads.
\<close>

text \<open>
  \<^verbatim>\<open>stoi\<close>: blanks, a sign and the digits at the front of the text. Without digits, or outside
  \<^verbatim>\<open>int\<close>, it throws.
\<close>

definition stoi :: "string \<Rightarrow> int result" where
  "stoi s =
     (let (neg, r) = scan_sign (dropWhile is_space s); ds = takeWhile (is_digit_of 10) r;
          v = (if neg then - digits_value 10 ds else digits_value 10 ds) in
      if ds = [] then Inl (Thrown ''invalid_argument'')
      else if in_int32 v then Inr v
      else Inl (Thrown ''out_of_range''))"

text \<open>The \<^verbatim>\<open>throw;\<close> for a text without a colon has nothing to rethrow and ends the program.\<close>

definition parse_hostport :: "string \<Rightarrow> hostport result" where
  "parse_hostport s = (case find_char CHR '':'' s of
     None \<Rightarrow> Inl (Thrown ''terminate'')
   | Some pos \<Rightarrow> bind_result (stoi (drop (pos + 1) s)) (\<lambda>p. Inr \<lparr>host = take pos s, port = p\<rparr>))"

definition hostport_eq :: "hostport \<Rightarrow> hostport \<Rightarrow> bool" where
  "hostport_eq a b = (port b = port a \<and> host b = host a)"

definition hash_hostport :: "(string \<Rightarrow> 64 word) \<Rightarrow> (int \<Rightarrow> 64 word) \<Rightarrow> hostport \<Rightarrow> 64 word" where
  "hash_hostport hash_string hash_int hp = xor (hash_string (host hp)) (hash_int (port hp))"

lemma hostport_eq_iff: "hostport_eq a b \<longleftrightarrow> a = (b :: hostport)"
  by (auto simp: hostport_eq_def)

lemma digit_char_scan:
  "d < 10 \<Longrightarrow> is_digit_of 10 (digit_char d) \<and> \<not> is_space (digit_char d) \<and> digit_char d \<noteq> CHR ''-'' \<and> digit_char d \<noteq> CHR ''+''"
proof -
  have "\<forall>d \<in> set [0..<10]. is_digit_of 10 (digit_char d) \<and> \<not> is_space (digit_char d)
      \<and> digit_char d \<noteq> CHR ''-'' \<and> digit_char d \<noteq> CHR ''+''"
    by code_simp
  then show "d < 10 \<Longrightarrow> ?thesis" by simp
qed

lemma nat_digits_nonempty: "nat_digits n \<noteq> []"
  by (subst nat_digits.simps) simp

lemma takeWhile_all: "\<forall>x \<in> set xs. P x \<Longrightarrow> takeWhile P xs = xs"
  by (induction xs) auto

lemma stoi_nat_digits:
  assumes "0 \<le> n"
  shows "\<forall>c \<in> set (nat_digits n). is_digit_of 10 c"
    and "dropWhile is_space (nat_digits n) = nat_digits n" "scan_sign (nat_digits n) = (False, nat_digits n)"
proof -
  have digit: "is_digit_of 10 c \<and> \<not> is_space c \<and> c \<noteq> CHR ''-'' \<and> c \<noteq> CHR ''+''" if "c \<in> set (nat_digits n)" for c
  proof -
    from nat_digits_chars[OF assms] that obtain d where "d < 10" "c = digit_char d" by auto
    with digit_char_scan[of d] show ?thesis by simp
  qed
  then show "\<forall>c \<in> set (nat_digits n). is_digit_of 10 c" by blast
  obtain c cs where c: "nat_digits n = c # cs" using nat_digits_nonempty by (meson neq_Nil_conv)
  have "\<not> is_space c \<and> c \<noteq> CHR ''-'' \<and> c \<noteq> CHR ''+''" using digit[of c] c by simp
  with c show "dropWhile is_space (nat_digits n) = nat_digits n" "scan_sign (nat_digits n) = (False, nat_digits n)"
    by (simp_all add: scan_sign_def)
qed

lemma stoi_show_int: "in_int32 p \<Longrightarrow> stoi (show_int p) = Inr p"
proof (cases "p < 0")
  case True
  assume "in_int32 p"
  moreover have "\<not> is_space CHR ''-''" by (simp add: is_space_def Let_def)
  ultimately show ?thesis
    using True stoi_nat_digits(1)[of "- p"] digits_value_nat_digits[of "- p"] nat_digits_nonempty[of "- p"]
    by (simp add: stoi_def show_int_def scan_sign_def Let_def takeWhile_all)
next
  case False
  assume "in_int32 p"
  then show ?thesis
    using False stoi_nat_digits[of p] digits_value_nat_digits[of p] nat_digits_nonempty[of p]
    by (simp add: stoi_def show_int_def Let_def takeWhile_all)
qed

section \<open>Properties\<close>

text \<open>
  Reading back what \<open>host:port\<close> prints gives the host and port, for every host without a colon
  and every \<^verbatim>\<open>int\<close> as port.
\<close>

theorem parse_hostport_roundtrip:
  assumes "CHR '':'' \<notin> set (host hp)" "in_int32 (port hp)"
  shows "parse_hostport (host hp @ CHR '':'' # show_int (port hp)) = Inr (hp :: hostport)"
  using assms by (simp add: parse_hostport_def find_char_append stoi_show_int)

theorem parse_hostport_roundtrip_witness:
  "parse_hostport ''localhost:8125'' = Inr \<lparr>host = ''localhost'', port = 8125\<rparr>"
proof -
  have "show_int 8125 = ''8125''" by code_simp
  then show ?thesis
    using parse_hostport_roundtrip[of "\<lparr>host = ''localhost'', port = 8125\<rparr>"] by (simp add: in_int32_def)
qed

end
