(* ===== verification/Delivery.thy ===== *)
theory Delivery
  imports Backends
begin

text \<open>
  What the carbon hosts receive over many flushes: \<open>Carbon::flush_stats\<close> of
  \<^verbatim>\<open>lib/backends/carbon.cc\<close> called again and again on one backend, which keeps its connections
  (\<^verbatim>\<open>include/statsdcc/backends/backend.h\<close>). The streams are read off the system calls: a descriptor
  carries bytes to the address it was last connected to.
\<close>

section \<open>Streams\<close>

text \<open>The address every descriptor is connected to, as system calls change it.\<close>

fun reroute :: "event \<Rightarrow> (int \<Rightarrow> sockaddr option) \<Rightarrow> int \<Rightarrow> sockaddr option" where
  "reroute (Ev_socket (Ret n)) r = r(int n := None)"
| "reroute (Ev_connect fd a (Ret n)) r = r(fd := Some a)"
| "reroute (Ev_close fd x) r = r(fd := None)"
| "reroute e r = r"

fun carried_by :: "sockaddr \<Rightarrow> event \<Rightarrow> (int \<Rightarrow> sockaddr option) \<Rightarrow> string" where
  "carried_by a (Ev_write fd buf (Ret n)) r = (if r fd = Some a then take n buf else [])"
| "carried_by a e r = []"

fun carried :: "sockaddr \<Rightarrow> event list \<Rightarrow> (int \<Rightarrow> sockaddr option) \<Rightarrow> string" where
  "carried a [] r = []"
| "carried a (e # es) r = carried_by a e r @ carried a es (reroute e r)"

text \<open>
  What POSIX promises of \<^verbatim>\<open>socket\<close>: the descriptor it returns is not in use.
\<close>

fun unused :: "event \<Rightarrow> (int \<Rightarrow> sockaddr option) \<Rightarrow> bool" where
  "unused (Ev_socket (Ret n)) r = (r (int n) = None)"
| "unused e r = True"

fun fresh_sockets :: "event list \<Rightarrow> (int \<Rightarrow> sockaddr option) \<Rightarrow> bool" where
  "fresh_sockets [] r = True"
| "fresh_sockets (e # es) r = (unused e r \<and> fresh_sockets es (reroute e r))"

abbreviation routes :: "event list \<Rightarrow> (int \<Rightarrow> sockaddr option) \<Rightarrow> int \<Rightarrow> sockaddr option" where
  "routes es r \<equiv> fold reroute es r"

lemma carried_append [simp]: "carried a (xs @ ys) r = carried a xs r @ carried a ys (routes xs r)"
  by (induction xs arbitrary: r) auto

lemma fresh_append [simp]:
  "fresh_sockets (xs @ ys) r \<longleftrightarrow> fresh_sockets xs r \<and> fresh_sockets ys (routes xs r)"
  by (induction xs arbitrary: r) auto

text \<open>
  The calls that can keep text from a host are those of \<^verbatim>\<open>socket\<close>, \<^verbatim>\<open>connect\<close> and \<^verbatim>\<open>write\<close> that fail.
\<close>

fun hampers :: "event \<Rightarrow> bool" where
  "hampers (Ev_socket (Fail e)) = True"
| "hampers (Ev_connect fd a (Fail e)) = True"
| "hampers (Ev_write fd buf (Fail e)) = True"
| "hampers e = False"

definition smooth :: "event list \<Rightarrow> bool" where
  "smooth es = (\<forall>e \<in> set es. \<not> hampers e)"

lemma smooth_simps [simp]:
  "smooth []" "smooth (e # es) \<longleftrightarrow> \<not> hampers e \<and> smooth es" "smooth (xs @ ys) \<longleftrightarrow> smooth xs \<and> smooth ys"
  by (auto simp: smooth_def)

text \<open>Writes on one descriptor leave the routes alone.\<close>

lemma writes_only_routes:
  "writes_only fd es \<Longrightarrow> routes es r = r \<and> carried a es r = (if r fd = Some a then taken es else [])"
proof (induction es)
  case (Cons e es)
  then obtain buf x where "e = Ev_write fd buf x" by (cases e) (auto simp: writes_only_def)
  with Cons show ?case by (cases x) (auto simp: writes_only_def trace_Cons)
qed (simp add: writes_only_def)

section \<open>Steps of a connection\<close>

text \<open>
  \<open>quiet s t new\<close>: the step adds the system calls \<open>new\<close> and writes nothing. Addresses of hosts
  that are written as such are \<open>addr\<close>.
\<close>

definition quiet :: "env \<Rightarrow> env \<Rightarrow> event list \<Rightarrow> bool" where
  "quiet s t new = (trace t = trace s @ new \<and> pton t = pton s \<and> (\<forall>a r. carried a new r = []))"

lemma quiet_refl [simp]: "quiet s s []"
  by (simp add: quiet_def)

lemma quiet_trans: "quiet s t xs \<Longrightarrow> quiet t u ys \<Longrightarrow> quiet s u (xs @ ys)"
  by (simp add: quiet_def)

lemma quiet_log [simp]: "quiet s (log_error_msg m t) new = quiet s t new"
  by (simp add: quiet_def log_error_msg_def)

lemma quiet_call:
  assumes "log_failure m (sys_call get upd ev s) = Done x t"
    and "\<And>q. pton (upd q s) = pton s" "\<And>a r. carried_by a (ev x) r = []"
  shows "quiet s t [ev x]"
proof -
  from assms(1) obtain q where "t = (upd (\<lambda>_. q) s)\<lparr>errno_now := errno_after x, trace := trace s @ [ev x]\<rparr>
      \<or> t = log_error_msg m ((upd (\<lambda>_. q) s)\<lparr>errno_now := errno_after x, trace := trace s @ [ev x]\<rparr>)"
    by (cases x) (auto simp: log_failure_Done sys_call_Done)
  with assms(2,3) show ?thesis by (auto simp: quiet_def log_error_msg_def)
qed

lemma quiet_wrappers:
  "w_socket s = Done r t \<Longrightarrow> quiet s t [Ev_socket r]"
  "w_setsockopt fd opt s = Done r t \<Longrightarrow> quiet s t [Ev_setsockopt fd opt r]"
  "w_connect fd addr s = Done r t \<Longrightarrow> quiet s t [Ev_connect fd addr r]"
  "w_close fd s = Done r t \<Longrightarrow> quiet s t [Ev_close fd r]"
  unfolding w_socket_def w_setsockopt_def w_connect_def w_close_def by (erule quiet_call; simp)+

lemma quiet_poll: "w_poll fd s = Done h t \<Longrightarrow> quiet s t [Ev_poll fd h]"
  unfolding w_poll_def by (erule quiet_call; simp)

text \<open>
  A new connection takes an unused descriptor to the address, or leaves the routes as they were.
\<close>

definition joined_to :: "sockaddr \<Rightarrow> int \<Rightarrow> event list \<Rightarrow> bool" where
  "joined_to a fd new = ((fd = -1 \<longrightarrow> \<not> smooth new) \<and> (\<forall>r. fresh_sockets new r \<longrightarrow>
     (if fd = -1 then routes new r = r else routes new r = r(fd := Some a) \<and> r fd = None)))"

lemma connect_to_joined:
  assumes "connect_to a s = Done fd t"
  shows "\<exists>new. quiet s t new \<and> joined_to a fd new"
proof -
  from assms obtain sk s1 where sk: "w_socket s = Done sk s1"
    and rest: "if fd_of sk = -1 then fd = -1 \<and> t = s1
      else run_bind (w_setsockopt (fd_of sk) ''SO_KEEPALIVE'' s1) (\<lambda>_ s.
         run_bind (w_connect (fd_of sk) a s) (\<lambda>r s. case r of
             Fail e \<Rightarrow> run_bind (w_close (fd_of sk) s) (\<lambda>_ s. Done (-1) s)
           | Ret n \<Rightarrow> Done (fd_of sk) s)) = Done fd t"
    by (auto simp: connect_to_def split: if_split_asm elim!: run_bind_DoneE)
  note q1 = quiet_wrappers(1)[OF sk]
  show ?thesis
  proof (cases sk)
    case (Fail e)
    with rest q1 show ?thesis by (intro exI[of _ "[Ev_socket sk]"]) (auto simp: fd_of_def joined_to_def)
  next
    case (Ret n)
    then have fd: "fd_of sk = int n" by (simp add: fd_of_def)
    from rest[unfolded fd] obtain o2 s2 r s3 where steps: "w_setsockopt (int n) ''SO_KEEPALIVE'' s1 = Done o2 s2"
        "w_connect (int n) a s2 = Done r s3"
      and last: "(case r of Fail e \<Rightarrow> run_bind (w_close (int n) s3) (\<lambda>_ s. Done (-1) s)
           | Ret m \<Rightarrow> Done (int n) s3) = Done fd t"
      by (auto elim!: run_bind_DoneE)
    note q3 = quiet_trans[OF quiet_trans[OF q1 quiet_wrappers(2)[OF steps(1)]] quiet_wrappers(3)[OF steps(2)]]
    show ?thesis
    proof (cases r)
      case (Ret m)
      with last q3 \<open>sk = Ret n\<close> show ?thesis
        by (intro exI[of _ "([Ev_socket sk] @ [Ev_setsockopt (int n) ''SO_KEEPALIVE'' o2]) @ [Ev_connect (int n) a r]"])
          (auto simp: joined_to_def)
    next
      case (Fail e)
      with last obtain r4 where c: "w_close (int n) s3 = Done r4 t" "fd = -1" by (auto elim!: run_bind_DoneE)
      from quiet_trans[OF q3 quiet_wrappers(4)[OF c(1)]] Fail \<open>sk = Ret n\<close> c(2) show ?thesis
        by (intro exI[of _ "(([Ev_socket sk] @ [Ev_setsockopt (int n) ''SO_KEEPALIVE'' o2])
              @ [Ev_connect (int n) a r]) @ [Ev_close (int n) r4]"])
          (auto simp: joined_to_def)
    qed
  qed
qed

lemma net_connect_joined:
  assumes "net_connect hp s = Done fd t" "pton s (c_str (host hp)) = Address ip"
  shows "\<exists>new. quiet s t new \<and> joined_to (sock_address ip (port hp)) fd new"
  using assms by (auto simp: net_connect_def w_inet_pton_def intro: connect_to_joined)

text \<open>
  The routes a connection stands for. \<open>addr\<close> gives the address of a destination; the
  destinations are those whose host is written as an address.
\<close>

definition hold :: "(hostport \<Rightarrow> sockaddr) \<Rightarrow> connection \<Rightarrow> (int \<Rightarrow> sockaddr option) \<Rightarrow> int \<Rightarrow> sockaddr option" where
  "hold addr c r = (if conn_bad c then r else r(cn_fd c := Some (addr (cn_dest c))))"

definition let_go :: "connection \<Rightarrow> (int \<Rightarrow> sockaddr option) \<Rightarrow> int \<Rightarrow> sockaddr option" where
  "let_go c r = (if conn_bad c then r else r(cn_fd c := None))"

definition numeric :: "(hostport \<Rightarrow> sockaddr) \<Rightarrow> hostport \<Rightarrow> env \<Rightarrow> bool" where
  "numeric addr hp s = (\<exists>ip. pton s (c_str (host hp)) = Address ip \<and> addr hp = sock_address ip (port hp))"

lemma numeric_quiet: "quiet s t new \<Longrightarrow> numeric addr hp t = numeric addr hp s"
  by (simp add: numeric_def quiet_def)

text \<open>\<open>linked addr c r\<close>: the descriptor of the connection, if it has one, goes to its destination.\<close>

definition linked :: "(hostport \<Rightarrow> sockaddr) \<Rightarrow> connection \<Rightarrow> (int \<Rightarrow> sockaddr option) \<Rightarrow> bool" where
  "linked addr c r = (hold addr c r = r)"

definition replaces :: "(hostport \<Rightarrow> sockaddr) \<Rightarrow> connection \<Rightarrow> connection \<Rightarrow> event list \<Rightarrow> bool" where
  "replaces addr c c' new = (cn_dest c' = cn_dest c \<and> (\<forall>r. linked addr c r \<longrightarrow> fresh_sockets new r \<longrightarrow>
     routes new r = hold addr c' (let_go c r) \<and> (\<not> conn_bad c' \<longrightarrow> let_go c r (cn_fd c') = None)))"

lemma hold_let_go: "linked addr c r \<Longrightarrow> hold addr c (let_go c r) = r"
  by (auto simp: hold_def let_go_def linked_def fun_upd_idem_iff)

lemma let_go_none: "\<not> conn_bad c \<Longrightarrow> let_go c r (cn_fd c) = None"
  by (simp add: let_go_def)

lemma let_go_hold: "\<not> conn_bad c \<longrightarrow> r (cn_fd c) = None \<Longrightarrow> let_go c (hold addr c r) = r"
  by (auto simp: hold_def let_go_def fun_upd_idem_iff)

lemma linked_hold [simp]: "linked addr c (hold addr c r)"
  by (simp add: linked_def hold_def)

lemma replaces_trans:
  assumes "replaces addr c c1 xs" "replaces addr c1 c2 ys"
  shows "replaces addr c c2 (xs @ ys)"
  unfolding replaces_def
proof (intro conjI allI impI)
  show "cn_dest c2 = cn_dest c" using assms by (simp add: replaces_def)
  fix r
  assume h: "linked addr c r" "fresh_sockets (xs @ ys) r"
  with assms(1) have 1: "routes xs r = hold addr c1 (let_go c r)" "\<not> conn_bad c1 \<longrightarrow> let_go c r (cn_fd c1) = None"
    by (simp_all add: replaces_def)
  with h assms(2) have "routes ys (routes xs r) = hold addr c2 (let_go c1 (routes xs r))
      \<and> (\<not> conn_bad c2 \<longrightarrow> let_go c1 (routes xs r) (cn_fd c2) = None)"
    by (simp add: replaces_def)
  with let_go_hold[of c1 "let_go c r" addr] 1 show "routes (xs @ ys) r = hold addr c2 (let_go c r)"
    "\<not> conn_bad c2 \<Longrightarrow> let_go c r (cn_fd c2) = None" by simp_all
qed

lemma replaces_same: "(\<And>r. routes new r = r) \<Longrightarrow> replaces addr c c new"
  by (simp add: replaces_def hold_let_go let_go_none)

lemma reconnect_replaces:
  assumes "run_bind (net_connect (cn_dest c) s) (\<lambda>fd s. Done (c\<lparr>cn_fd := fd\<rparr>) s) = Done c' t"
    and "numeric addr (cn_dest c) s"
  shows "\<exists>new. quiet s t new \<and> cn_dest c' = cn_dest c \<and> (conn_bad c' \<longrightarrow> \<not> smooth new) \<and> (\<forall>r. fresh_sockets new r \<longrightarrow>
    routes new r = hold addr c' r \<and> (\<not> conn_bad c' \<longrightarrow> r (cn_fd c') = None))"
proof -
  from assms(1) obtain fd where fd: "net_connect (cn_dest c) s = Done fd t" "c' = c\<lparr>cn_fd := fd\<rparr>"
    by (auto elim!: run_bind_DoneE)
  from assms(2) obtain ip where ip: "pton s (c_str (host (cn_dest c))) = Address ip"
    "addr (cn_dest c) = sock_address ip (port (cn_dest c))" by (auto simp: numeric_def)
  from net_connect_joined[OF fd(1) ip(1)] obtain new where "quiet s t new"
    "joined_to (addr (cn_dest c)) fd new" by (auto simp: ip(2))
  then show ?thesis
    by (intro exI[of _ new]) (auto simp: fd(2) joined_to_def hold_def conn_bad_def)
qed

lemma conn_refresh_replaces:
  assumes "conn_refresh c s = Done c' t" "numeric addr (cn_dest c) s"
  shows "\<exists>new. quiet s t new \<and> replaces addr c c' new \<and> (conn_bad c \<longrightarrow> conn_bad c' \<longrightarrow> \<not> smooth new)"
proof (cases "conn_bad c")
  case True
  with assms reconnect_replaces[of c s c' t addr] obtain new where "quiet s t new" "cn_dest c' = cn_dest c"
    "conn_bad c' \<longrightarrow> \<not> smooth new" "\<forall>r. fresh_sockets new r \<longrightarrow> routes new r = hold addr c' r \<and> (\<not> conn_bad c' \<longrightarrow> r (cn_fd c') = None)"
    by (auto simp: conn_refresh_def)
  with True show ?thesis by (intro exI[of _ new]) (simp add: replaces_def let_go_def)
next
  case False
  with assms obtain hup s1 where p: "w_poll (cn_fd c) s = Done hup s1"
    and rest: "if hup = Ret True
      then \<exists>r s2. conn_close c s1 = Done r s2 \<and>
        run_bind (net_connect (cn_dest c) s2) (\<lambda>fd s. Done (c\<lparr>cn_fd := fd\<rparr>) s) = Done c' t
      else c' = c \<and> t = s1"
    by (auto simp: conn_refresh_def split: if_split_asm elim!: run_bind_DoneE)
  note q1 = quiet_poll[OF p]
  show ?thesis
  proof (cases "hup = Ret True")
    case True
    with rest False obtain r s2 where r: "w_close (cn_fd c) s1 = Done r s2"
      "run_bind (net_connect (cn_dest c) s2) (\<lambda>fd s. Done (c\<lparr>cn_fd := fd\<rparr>) s) = Done c' t"
      by (auto simp: conn_close_def)
    note q2 = quiet_trans[OF q1 quiet_wrappers(4)[OF r(1)]]
    have "numeric addr (cn_dest c) s2" using assms(2) by (simp add: numeric_quiet[OF q2])
    from reconnect_replaces[OF r(2) this] obtain new where new: "quiet s2 t new" "cn_dest c' = cn_dest c"
      "\<forall>r. fresh_sockets new r \<longrightarrow> routes new r = hold addr c' r \<and> (\<not> conn_bad c' \<longrightarrow> r (cn_fd c') = None)"
      by blast
    with quiet_trans[OF q2 new(1)] False show ?thesis
      by (intro exI[of _ "([Ev_poll (cn_fd c) hup] @ [Ev_close (cn_fd c) r]) @ new"])
        (simp add: replaces_def let_go_def, metis fun_upd_other)
  next
    case False
    with rest have "c' = c" "t = s1" by simp_all
    with q1 \<open>\<not> conn_bad c\<close> show ?thesis
      by (intro exI[of _ "[Ev_poll (cn_fd c) hup]"]) (simp add: replaces_same)
  qed
qed

section \<open>A write\<close>

lemma writen_loop_pton: "writen_loop fd ptr s = Done r t \<Longrightarrow> pton t = pton s"
proof (induction fd ptr s rule: writen_loop.induct)
  case (1 fd ptr s)
  from "1.prems" show ?case
    by (subst (asm) writen_loop.simps)
      (auto simp: Let_def split: if_split_asm list.split_asm answer.split_asm dest: "1.IH")
qed

lemma try_write_pton: "try_write str c s = Done w t \<Longrightarrow> pton t = pton s"
  by (auto simp: try_write_def w_writen_def log_failure_def log_error_msg_def dest!: writen_loop_pton
      split: if_split_asm answer.split_asm elim!: run_bind_DoneE)

text \<open>One attempt on the connection as it is.\<close>

lemma writen_loop_failed:
  "writen_loop fd ptr s = Done (Fail e) t \<Longrightarrow> length (trace s) < length (trace t) \<and> hampers (last (trace t))"
proof (induction fd ptr s rule: writen_loop.induct)
  case (1 fd ptr s)
  show ?case
  proof (cases "ptr = [] \<or> q_write s = []")
    case True
    with "1.prems" show ?thesis by (simp add: writen_loop.simps[of fd ptr s] split: if_split_asm list.split_asm)
  next
    case False
    then obtain a q where q: "ptr \<noteq> []" "q_write s = a # q" by (auto simp: neq_Nil_conv)
    note step = "1.prems"[unfolded writen_loop.simps[of fd ptr s], simplified q Let_def]
    show ?thesis
    proof (cases a)
      case (Ret n)
      with step q have "n \<le> length ptr" by (auto split: if_split_asm)
      with "1.IH"(1)[OF q refl Ret] step q Ret show ?thesis by simp
    next
      case (Fail d)
      with "1.IH"(2)[OF q refl Fail] step q show ?thesis by (cases "d = EINTR") auto
    qed
  qed
qed

lemma try_write_hampered:
  assumes "try_write str c s = Done False u" "\<not> conn_bad c" "trace u = trace s @ x"
  shows "\<not> smooth x"
proof -
  from assms(1,2) obtain e v where v: "writen_loop (cn_fd c) str (s\<lparr>errno_now := None\<rparr>) = Done (Fail e) v" "trace u = trace v"
    by (auto simp: try_write_def w_writen_def log_failure_Done split: answer.split_asm elim!: run_bind_DoneE)
  from writen_loop_failed[OF v(1)] have l: "length (trace s) < length (trace s @ x)" "hampers (last (trace s @ x))"
    unfolding v(2)[symmetric] assms(3) by (simp, blast)
  then have "x \<noteq> []" by simp
  with l(2) last_appendR[of x "trace s"] have "x \<noteq> []" "hampers (last x)" by simp_all
  then show ?thesis unfolding smooth_def using last_in_set by blast
qed

lemma try_write_carried:
  assumes "try_write str c s = Done w u"
  shows "\<exists>x. trace u = trace s @ x \<and> pton u = pton s \<and> (\<forall>r. routes x r = r) \<and> (w \<or> \<not> smooth x \<or> conn_bad c \<and> x = [])
    \<and> (if w then taken x = str \<and> \<not> conn_bad c else taken x = [] \<or> strict_prefix (taken x) str)
    \<and> (\<forall>r a. linked addr c r \<longrightarrow> carried a x r = (if a = addr (cn_dest c) then taken x else []))"
proof (cases "conn_bad c")
  case True
  with assms have "u = s" "\<not> w" by (auto simp: try_write_def)
  with True show ?thesis by (intro exI[of _ "[]"]) simp
next
  case False
  from try_write_trace[OF assms False] obtain x where x: "trace u = trace s @ x" "writes_only (cn_fd c) x"
    "if w then taken x = str else strict_prefix (taken x) str" by blast
  have link: "r (cn_fd c) = Some (addr (cn_dest c))" if "linked addr c r" for r
    using that False by (metis linked_def hold_def fun_upd_same)
  have "carried a x r = (if a = addr (cn_dest c) then taken x else [])" if "linked addr c r" for r a
    using writes_only_routes[OF x(2), of r a] link[OF that] by auto
  moreover have "w \<or> \<not> smooth x" using try_write_hampered[of str c s u x] assms False x(1) by (cases w) auto
  ultimately show ?thesis using x False try_write_pton[OF assms] writes_only_routes[OF x(2)]
    by (intro exI[of _ x]) auto
qed

definition partial_writes :: "string \<Rightarrow> bool \<Rightarrow> string list \<Rightarrow> string" where
  "partial_writes str w ps = concat ps @ (if w then str else [])"

definition wrote ::
  "(hostport \<Rightarrow> sockaddr) \<Rightarrow> string \<Rightarrow> connection \<Rightarrow> bool \<Rightarrow> string list \<Rightarrow> event list \<Rightarrow> bool"
where
  "wrote addr str c w ps new = ((\<forall>p \<in> set ps. strict_prefix p str) \<and> (smooth new \<longrightarrow> w \<and> ps = [])
     \<and> (\<forall>r a. linked addr c r \<longrightarrow> fresh_sockets new r \<longrightarrow>
          carried a new r = (if a = addr (cn_dest c) then partial_writes str w ps else [])))"

lemma conn_write_streams:
  "conn_write str c s = Done (w, c') t \<Longrightarrow> numeric addr (cn_dest c) s \<Longrightarrow>
     \<exists>new ps. trace t = trace s @ new \<and> pton t = pton s \<and> replaces addr c c' new \<and> wrote addr str c w ps new"
proof (induction str c s rule: conn_write.induct)
  case (1 str c s)
  from "1.prems" obtain w0 u where w0: "try_write str c s = Done w0 u"
    by (auto simp: conn_write.simps[of str c s] split: run.split_asm)
  from try_write_carried[OF w0, of addr] obtain x where x: "trace u = trace s @ x" "pton u = pton s"
    "\<forall>r. routes x r = r"
    "if w0 then taken x = str \<and> \<not> conn_bad c else taken x = [] \<or> strict_prefix (taken x) str"
    "\<forall>r a. linked addr c r \<longrightarrow> carried a x r = (if a = addr (cn_dest c) then taken x else [])"
    "w0 \<or> \<not> smooth x \<or> conn_bad c \<and> x = []" by blast
  have rx: "replaces addr c c x" by (rule replaces_same) (simp add: x(3))
  show ?case
  proof (cases w0)
    case True
    with "1.prems" w0 have "w \<and> c' = c \<and> t = u" by (simp add: conn_write.simps[of str c s])
    with x True rx show ?thesis
      by (intro exI[of _ x] exI[of _ "[]"]) (auto simp: wrote_def partial_writes_def)
  next
    case False
    define ps0 where "ps0 = (if taken x = [] then [] else [taken x])"
    have ps0: "concat ps0 = taken x" "\<forall>p \<in> set ps0. strict_prefix p str"
      using x(4) False by (auto simp: ps0_def)
    from False "1.prems" w0 obtain c1 v where r: "conn_refresh c u = Done c1 v"
      and rest: "if conn_bad c1 then \<not> w \<and> c' = c1 \<and> t = v else conn_write str c1 v = Done (w, c') t"
      by (auto simp: conn_write.simps[of str c s] split: run.split_asm if_split_asm)
    have nu: "numeric addr (cn_dest c) u" using "1.prems"(2) x(2) by (simp add: numeric_def)
    from conn_refresh_replaces[OF r nu] obtain y where y: "quiet u v y" "replaces addr c c1 y"
      "conn_bad c \<longrightarrow> conn_bad c1 \<longrightarrow> \<not> smooth y" by blast
    have sm: "\<not> smooth x \<or> conn_bad c \<and> ps0 = []" using x(6) False by (auto simp: ps0_def)
    note ry = replaces_trans[OF rx y(2)]
    have trace_v: "trace v = trace s @ x @ y" "pton v = pton s" using x(1,2) y(1) by (simp_all add: quiet_def)
    have cxy: "carried a (x @ y) r = (if a = addr (cn_dest c) then taken x else [])" if "linked addr c r" for a r
      using x(5) y(1) that by (simp add: quiet_def)
    show ?thesis
    proof (cases "conn_bad c1")
      case True
      with rest have "\<not> w" "c' = c1" "t = v" by auto
      with trace_v ry ps0 cxy sm y(3) True show ?thesis
        by (intro exI[of _ "x @ y"] exI[of _ ps0]) (auto simp: wrote_def partial_writes_def simp del: carried_append)
    next
      case False
      with rest have "conn_write str c1 v = Done (w, c') t" by simp
      moreover have "numeric addr (cn_dest c1) v"
        using nu y numeric_quiet[OF y(1)] by (simp add: replaces_def)
      ultimately obtain z ps where z: "trace t = trace v @ z" "pton t = pton v" "replaces addr c1 c' z"
        "wrote addr str c1 w ps z"
        using "1.IH"[OF w0 \<open>\<not> w0\<close> r False] by blast
      have "wrote addr str c w (ps0 @ ps) ((x @ y) @ z)"
        unfolding wrote_def
      proof (intro conjI allI impI)
        show "\<forall>p \<in> set (ps0 @ ps). strict_prefix p str" using ps0(2) z(4) by (auto simp: wrote_def)
        show "w" "ps0 @ ps = []" if "smooth ((x @ y) @ z)" using that sm z(4) by (auto simp: wrote_def)
        fix r a
        assume h: "linked addr c r" "fresh_sockets ((x @ y) @ z) r"
        with ry have "linked addr c1 (routes (x @ y) r)" by (simp add: replaces_def)
        with h z(4) have "carried a z (routes (x @ y) r)
            = (if a = addr (cn_dest c1) then partial_writes str w ps else [])"
          unfolding wrote_def by simp
        with cxy[OF h(1), of a] y(2) ps0(1) show "carried a ((x @ y) @ z) r
            = (if a = addr (cn_dest c) then partial_writes str w (ps0 @ ps) else [])"
          by (cases "a = addr (cn_dest c)") (simp_all add: partial_writes_def replaces_def)
      qed
      with z trace_v replaces_trans[OF ry z(3)] show ?thesis
        by (intro exI[of _ "(x @ y) @ z"] exI[of _ "ps0 @ ps"]) simp
    qed
  qed
qed

section \<open>A flush\<close>

definition connection_to :: "(hostport, connection) umap \<Rightarrow> hostport \<Rightarrow> connection" where
  "connection_to conns d = (case map_of conns d of None \<Rightarrow> \<lparr>cn_dest = d, cn_fd = -1\<rparr> | Some c \<Rightarrow> c)"

text \<open>A new connection is one that has no descriptor, refreshed.\<close>

lemma new_connection_refresh: "new_connection hp s = conn_refresh \<lparr>cn_dest = hp, cn_fd = -1\<rparr> s"
  by (simp add: new_connection_def conn_refresh_def conn_bad_def)

lemma deliver_one:
  assumes "run_bind (case map_of conns d of None \<Rightarrow> new_connection d s | Some c \<Rightarrow> Done c s)
      (\<lambda>c s. conn_write str c s) = Done (w, c') t"
    and "numeric addr d s" "\<forall>c. map_of conns d = Some c \<longrightarrow> cn_dest c = d"
  shows "\<exists>new ps. trace t = trace s @ new \<and> pton t = pton s \<and> replaces addr (connection_to conns d) c' new
    \<and> wrote addr str (connection_to conns d) w ps new"
proof (cases "map_of conns d")
  case (Some c)
  with assms conn_write_streams[of str c s w c' t addr] show ?thesis by (simp add: connection_to_def)
next
  case None
  let ?c0 = "connection_to conns d"
  have c0: "?c0 = \<lparr>cn_dest = d, cn_fd = -1\<rparr>" by (simp add: connection_to_def None)
  from assms(1) None obtain c u where c: "conn_refresh ?c0 s = Done c u" "conn_write str c u = Done (w, c') t"
    by (auto simp: new_connection_refresh c0 elim!: run_bind_DoneE)
  from conn_refresh_replaces[OF c(1), of addr] assms(2) obtain x where
    x: "quiet s u x" "replaces addr ?c0 c x" by (auto simp: c0)
  have dest: "cn_dest c = d" using x(2) by (simp add: replaces_def c0)
  have "numeric addr (cn_dest c) u" using assms(2) numeric_quiet[OF x(1)] dest by simp
  from conn_write_streams[OF c(2) this] obtain y ps where
    y: "trace t = trace u @ y" "pton t = pton u" "replaces addr c c' y" "wrote addr str c w ps y" by blast
  have "wrote addr str ?c0 w ps (x @ y)"
    using x y(4) dest by (auto simp: wrote_def replaces_def quiet_def c0)
  with x(1) y replaces_trans[OF x(2) y(3)] show ?thesis
    by (intro exI[of _ "x @ y"] exI[of _ ps]) (simp add: quiet_def)
qed

definition all_linked ::
  "(hostport \<Rightarrow> sockaddr) \<Rightarrow> (hostport, connection) umap \<Rightarrow> (int \<Rightarrow> sockaddr option) \<Rightarrow> bool"
where
  "all_linked addr conns r = (\<forall>d c. map_of conns d = Some c \<longrightarrow> cn_dest c = d \<and> linked addr c r)"

lemma all_linked_Nil [simp]: "all_linked addr [] r"
  by (simp add: all_linked_def)

lemma linked_iff: "linked addr c r \<longleftrightarrow> conn_bad c \<or> r (cn_fd c) = Some (addr (cn_dest c))"
  by (auto simp: linked_def hold_def fun_upd_idem_iff)

lemma linked_to: "all_linked addr conns r \<Longrightarrow> linked addr (connection_to conns d) r"
  by (auto simp: all_linked_def connection_to_def linked_iff conn_bad_def split: option.splits)

text \<open>What one connection does leaves the others linked.\<close>

lemma linked_other:
  assumes "linked addr c r" "linked addr c2 r" "addr (cn_dest c) \<noteq> addr (cn_dest c2)"
    and "\<not> conn_bad c' \<longrightarrow> let_go c r (cn_fd c') = None"
  shows "linked addr c2 (hold addr c' (let_go c r))"
  using assms by (auto simp: linked_iff hold_def let_go_def split: if_split_asm)

lemma all_linked_put:
  assumes "all_linked addr conns r" "replaces addr (connection_to conns d) c' new" "fresh_sockets new r"
    and "inj_on addr (insert d (fst ` set conns))"
    and "\<forall>c. map_of conns d = Some c \<longrightarrow> cn_dest c = d"
  shows "all_linked addr (umap_put d c' conns) (routes new r)"
proof -
  let ?c = "connection_to conns d"
  have cd: "cn_dest ?c = d" using assms(5) by (auto simp: connection_to_def split: option.splits)
  note l = linked_to[OF assms(1), of d]
  from assms(2,3) l cd have r: "routes new r = hold addr c' (let_go ?c r)" "cn_dest c' = d"
    "\<not> conn_bad c' \<longrightarrow> let_go ?c r (cn_fd c') = None" by (simp_all add: replaces_def)
  have "linked addr c2 (routes new r)" "cn_dest c2 = d2" if c2: "map_of conns d2 = Some c2" "d2 \<noteq> d" for d2 c2
  proof -
    from c2(1) assms(1) have h: "cn_dest c2 = d2" "linked addr c2 r" by (simp_all add: all_linked_def)
    have "d2 \<in> fst ` set conns" using c2(1) by (metis domI dom_map_of_conv_image_fst)
    with assms(4) c2(2) have "addr d \<noteq> addr d2" by (auto simp: inj_on_def)
    with linked_other[OF l h(2) _ r(3)] cd h(1) show "linked addr c2 (routes new r)" "cn_dest c2 = d2"
      by (simp_all add: r(1))
  qed
  with r show ?thesis by (auto simp: all_linked_def table_simps)
qed

text \<open>
  The outcome of a delivery: what was to be written, whether it was, and the parts of it that
  were written before.
\<close>

type_synonym outcome = "hostport \<times> string \<times> bool \<times> string list"

definition to_deliver :: "outcome \<Rightarrow> hostport \<times> string" where
  "to_deliver out = (case out of (d, str, w, ps) \<Rightarrow> (d, str))"

lemma to_deliver_simps [simp]: "to_deliver (d, str, w, ps) = (d, str)" "fst (to_deliver out) = fst out"
  by (simp_all add: to_deliver_def split: prod.split)

definition bytes_of :: "outcome \<Rightarrow> string" where
  "bytes_of out = (case out of (d, str, w, ps) \<Rightarrow> partial_writes str w ps)"

definition torn :: "outcome \<Rightarrow> bool" where
  "torn out = (case out of (d, str, w, ps) \<Rightarrow> \<forall>p \<in> set ps. strict_prefix p str)"

definition entire :: "outcome \<Rightarrow> bool" where
  "entire out = (case out of (d, str, w, ps) \<Rightarrow> w \<and> ps = [])"

definition flush_streams ::
  "(hostport \<Rightarrow> sockaddr) \<Rightarrow> (hostport, connection) umap \<Rightarrow> env \<Rightarrow> (hostport, connection) umap \<Rightarrow> env \<Rightarrow>
    event list \<Rightarrow> outcome list \<Rightarrow> bool"
where
  "flush_streams addr conns s conns' t new outs = (trace t = trace s @ new \<and> pton t = pton s
     \<and> (\<forall>out \<in> set outs. torn out \<and> (smooth new \<longrightarrow> entire out))
     \<and> fst ` set conns' = fst ` set conns \<union> (fst \<circ> to_deliver) ` set outs
     \<and> (\<forall>r. all_linked addr conns r \<longrightarrow> fresh_sockets new r \<longrightarrow> all_linked addr conns' (routes new r)
         \<and> (\<forall>a. carried a new r = concat (map bytes_of (filter (\<lambda>out. addr (fst out) = a) outs)))))"

lemma flush_streams_trans:
  assumes "flush_streams addr c0 s c1 t xs as" "flush_streams addr c1 t c2 u ys bs"
  shows "flush_streams addr c0 s c2 u (xs @ ys) (as @ bs)"
  using assms by (auto simp: flush_streams_def)

definition dests_of :: "(hostport, connection) umap \<Rightarrow> bool" where
  "dests_of conns = (\<forall>d c. map_of conns d = Some c \<longrightarrow> cn_dest c = d)"

lemma deliver_all_streams:
  "deliver_all strings conns s = Done conns' t \<Longrightarrow> \<forall>ds \<in> set strings. numeric addr (fst ds) s \<Longrightarrow>
     inj_on addr (fst ` set strings \<union> fst ` set conns) \<Longrightarrow> dests_of conns \<Longrightarrow>
     dests_of conns' \<and> (\<exists>new outs. map to_deliver outs = strings \<and> flush_streams addr conns s conns' t new outs)"
proof (induction strings conns s rule: deliver_all.induct)
  case (1 conns s)
  then show ?case by (intro conjI exI[of _ "[]"]) (auto simp: flush_streams_def)
next
  case (2 d str rest conns s)
  from "2.prems"(1) obtain c u w c' v where
    c: "(case map_of conns d of None \<Rightarrow> new_connection d s | Some c \<Rightarrow> Done c s) = Done c u"
    and wr: "conn_write str c u = Done (w, c') v"
    and rest: "deliver_all rest (umap_put d c' conns) v = Done conns' t"
    by (auto elim!: run_bind_DoneE)
  from "2.prems"(4) have cd: "\<forall>c. map_of conns d = Some c \<longrightarrow> cn_dest c = d" by (simp add: dests_of_def)
  have "run_bind (case map_of conns d of None \<Rightarrow> new_connection d s | Some c \<Rightarrow> Done c s)
      (\<lambda>c s. conn_write str c s) = Done (w, c') v" by (simp add: c wr)
  from deliver_one[OF this _ cd, of addr] "2.prems"(2) obtain x ps where
    x: "trace v = trace s @ x" "pton v = pton s" "replaces addr (connection_to conns d) c' x"
      "wrote addr str (connection_to conns d) w ps x" by auto
  have dest: "cn_dest (connection_to conns d) = d" "cn_dest c' = d"
  proof -
    show "cn_dest (connection_to conns d) = d" using cd by (simp add: connection_to_def split: option.split)
    with x(3) show "cn_dest c' = d" unfolding replaces_def by simp
  qed
  have inj: "inj_on addr (insert d (fst ` set conns))"
    by (rule inj_on_subset[OF "2.prems"(3)]) auto
  have here: "flush_streams addr conns s (umap_put d c' conns) v x [(d, str, w, ps)]"
    unfolding flush_streams_def
  proof (intro conjI allI impI)
    show "\<forall>out \<in> set [(d, str, w, ps)]. torn out \<and> (smooth x \<longrightarrow> entire out)"
      using x(4) by (simp add: torn_def entire_def wrote_def)
    show "fst ` set (umap_put d c' conns) = fst ` set conns \<union> (fst \<circ> to_deliver) ` set [(d, str, w, ps)]"
      by (simp add: dom_umap_put)
    fix r a
    assume r: "all_linked addr conns r" "fresh_sockets x r"
    show "all_linked addr (umap_put d c' conns) (routes x r)" by (rule all_linked_put[OF r(1) x(3) r(2) inj cd])
    have "carried a x r = (if a = addr d then partial_writes str w ps else [])"
      using x(4) linked_to[OF r(1)] r(2) unfolding wrote_def dest(1) by blast
    then show "carried a x r = concat (map bytes_of (filter (\<lambda>out. addr (fst out) = a) [(d, str, w, ps)]))"
      by (simp add: bytes_of_def)
  qed (use x in simp_all)
  have "dests_of (umap_put d c' conns)" using "2.prems"(4) dest(2) by (auto simp: dests_of_def table_simps)
  moreover have "inj_on addr (fst ` set rest \<union> fst ` set (umap_put d c' conns))"
    using "2.prems"(3) by (simp add: dom_umap_put insert_commute Un_commute)
  moreover have "\<forall>ds \<in> set rest. numeric addr (fst ds) v" using "2.prems"(2) x(2) by (simp add: numeric_def)
  ultimately obtain y outs where "dests_of conns'" "map to_deliver outs = rest"
    "flush_streams addr (umap_put d c' conns) v conns' t y outs"
    using "2.IH"[OF rest] by blast
  with flush_streams_trans[OF here] show ?case
    by (intro conjI exI[of _ "x @ y"] exI[of _ "(d, str, w, ps) # outs"]) simp_all
qed

section \<open>The text of a host\<close>

text \<open>A call of \<^verbatim>\<open>flush_stats\<close>: the ledger, the flusher, and the three readings of the clock.\<close>

type_synonym flush_call = "ledger \<times> int \<times> 64 word \<times> 64 word \<times> 64 word"

text \<open>What a flush has for a host: the lines whose key the host owns, in order.\<close>

definition host_text ::
  "(string \<Rightarrow> hostport) \<Rightarrow> (string \<Rightarrow> string) \<Rightarrow> carbon_settings \<Rightarrow> hostport \<Rightarrow> flush_call \<Rightarrow> string"
where
  "host_text dest clean cs d fc = (case fc of (l, i, now, start, stop) \<Rightarrow>
     concat (map snd (filter (\<lambda>kl. dest (fst kl) = d) (carbon_lines clean cs now start stop l i))))"

fun carbon_flushes ::
  "(string \<Rightarrow> node result) \<Rightarrow> (string \<Rightarrow> string) \<Rightarrow> carbon_settings \<Rightarrow> flush_call list \<Rightarrow>
    (hostport, connection) umap \<Rightarrow> env \<Rightarrow> (hostport, connection) umap run"
where
  "carbon_flushes get clean cs [] conns s = Done conns s"
| "carbon_flushes get clean cs ((l, i, now, start, stop) # calls) conns s =
     run_bind (carbon_flush get clean cs now start stop l i conns s) (carbon_flushes get clean cs calls)"

lemma umap_ok_put_lines: "umap_ok m \<Longrightarrow> umap_ok (put_lines dest ls m)"
  by (induction ls arbitrary: m) (simp_all add: put_lines_simps umap_upd_def umap_ok_put)

lemma dom_put_lines: "fst ` set (put_lines dest ls m) = fst ` set m \<union> (dest \<circ> fst) ` set ls"
  by (induction ls arbitrary: m) (auto simp: put_lines_simps umap_upd_def dom_umap_put)

lemma filter_the_key:
  "distinct (map f xs) \<Longrightarrow> x \<in> set xs \<Longrightarrow> filter (\<lambda>y. f y = f x) xs = [x]"
  by (induction xs) (auto simp: filter_empty_conv image_iff)

text \<open>Of the outcomes of a flush one is for the host, or none is and the flush has nothing for it.\<close>

lemma outcome_for:
  assumes "map to_deliver outs = strings" "umap_ok strings" "map_of strings d = entry xs (concat xs)"
    and "\<forall>out \<in> set outs. torn out" "inj_on addr (insert d (fst ` set strings))"
  shows "\<exists>w ps. (\<forall>p \<in> set ps. strict_prefix p (concat xs))
    \<and> ((\<forall>out \<in> set outs. entire out) \<longrightarrow> w \<and> ps = [])
    \<and> concat (map bytes_of (filter (\<lambda>out. addr (fst out) = addr d) outs)) = partial_writes (concat xs) w ps"
proof -
  have dests: "map fst outs = map fst strings" using assms(1) by (auto simp: comp_def)
  have "addr (fst out) = addr d \<longleftrightarrow> fst out = d" if "out \<in> set outs" for out
  proof -
    have "fst out \<in> fst ` set strings" using that dests by (metis list.set_map imageI)
    with assms(5) show ?thesis by (auto simp: inj_on_def)
  qed
  then have same: "filter (\<lambda>out. addr (fst out) = addr d) outs = filter (\<lambda>out. fst out = d) outs"
    by (auto intro: filter_cong)
  show ?thesis
  proof (cases "xs = []")
    case True
    with assms(3) have "d \<notin> set (map fst strings)" by (simp add: entry_def map_of_eq_None_iff)
    then have "filter (\<lambda>out. fst out = d) outs = []" by (auto simp: dests[symmetric] filter_empty_conv)
    with True show ?thesis unfolding same by (intro exI[of _ True] exI[of _ "[]"]) (simp add: partial_writes_def)
  next
    case False
    with assms(3) have "(d, concat xs) \<in> set strings" by (simp add: entry_def map_of_SomeD)
    then obtain out where out: "out \<in> set outs" "to_deliver out = (d, concat xs)"
      using assms(1) by (metis (no_types, lifting) imageE list.set_map)
    from out(2) obtain w ps where o: "out = (d, concat xs, w, ps)" by (cases out) auto
    have "distinct (map fst outs)" using assms(2) unfolding dests by (simp add: umap_ok_def)
    from filter_the_key[OF this out(1)] have "filter (\<lambda>out. fst out = d) outs = [out]" by (simp add: o)
    with assms(4) out(1) show ?thesis
      unfolding same by (intro exI[of _ w] exI[of _ ps]) (auto simp: o bytes_of_def torn_def entire_def)
  qed
qed

definition host_stream ::
  "(string \<Rightarrow> hostport) \<Rightarrow> (string \<Rightarrow> string) \<Rightarrow> carbon_settings \<Rightarrow> hostport \<Rightarrow>
    flush_call list \<Rightarrow> string \<Rightarrow> bool"
where
  "host_stream dest clean cs d calls bytes =
     (\<exists>parts. list_all2 (\<lambda>fc part. \<exists>w ps. part = partial_writes (host_text dest clean cs d fc) w ps
          \<and> (\<forall>p \<in> set ps. strict_prefix p (host_text dest clean cs d fc))) calls parts
        \<and> bytes = concat parts)"

text \<open>One call, during which the text of the host is written whole if no call of the system kept it back.\<close>

definition host_part ::
  "(string \<Rightarrow> hostport) \<Rightarrow> (string \<Rightarrow> string) \<Rightarrow> carbon_settings \<Rightarrow> hostport \<Rightarrow>
    flush_call \<Rightarrow> event list \<Rightarrow> string \<Rightarrow> bool"
where
  "host_part dest clean cs d fc new part =
     (\<exists>w ps. part = partial_writes (host_text dest clean cs d fc) w ps
        \<and> (\<forall>p \<in> set ps. strict_prefix p (host_text dest clean cs d fc)) \<and> (smooth new \<longrightarrow> w \<and> ps = []))"

text \<open>\<open>segs\<close> are the system calls of the flushes, one list for each.\<close>

definition served ::
  "(string \<Rightarrow> hostport) \<Rightarrow> (string \<Rightarrow> string) \<Rightarrow> carbon_settings \<Rightarrow> hostport \<Rightarrow> sockaddr \<Rightarrow>
    flush_call list \<Rightarrow> event list list \<Rightarrow> (int \<Rightarrow> sockaddr option) \<Rightarrow> bool"
where
  "served dest clean cs d a calls segs r = (\<forall>i < length calls. host_part dest clean cs d (calls ! i) (segs ! i)
     (carried a (segs ! i) (routes (concat (take i segs)) r)))"

lemma served_Nil [simp]: "served dest clean cs d a [] segs r"
  by (simp add: served_def)

lemma served_Cons [simp]:
  "served dest clean cs d a (fc # calls) (x # segs) r \<longleftrightarrow>
     host_part dest clean cs d fc x (carried a x r) \<and> served dest clean cs d a calls segs (routes x r)"
  by (auto simp: served_def All_less_Suc2)

lemma host_stream_Cons:
  "host_part dest clean cs d fc x xs \<Longrightarrow> host_stream dest clean cs d calls ys \<Longrightarrow>
     host_stream dest clean cs d (fc # calls) (xs @ ys)"
  by (fastforce simp: host_stream_def host_part_def list_all2_Cons1)

lemma served_stream:
  "length segs = length calls \<Longrightarrow> served dest clean cs d a calls segs r \<Longrightarrow>
     host_stream dest clean cs d calls (carried a (concat segs) r)"
proof (induction segs calls arbitrary: r rule: list_induct2)
  case (Cons x segs fc calls)
  then show ?case by (auto intro: host_stream_Cons)
qed (simp add: host_stream_def)

lemma served_smooth:
  "served dest clean cs d a calls segs r \<Longrightarrow> i < length calls \<Longrightarrow> smooth (segs ! i) \<Longrightarrow>
     carried a (segs ! i) (routes (concat (take i segs)) r) = host_text dest clean cs d (calls ! i)"
  by (auto simp: served_def host_part_def partial_writes_def)

text \<open>One flush on connections that lead where they should.\<close>

lemma carbon_flush_streams:
  assumes "carbon_flush get clean cs now start stop l i conns s = Done conns' t"
    and "\<And>k. \<exists>n. get k = Inr n \<and> hostport_of n = dest k" "flushable l" "dests_of conns"
    and "\<forall>k. dest k \<in> hosts" "fst ` set conns \<subseteq> hosts"
    and "\<forall>d \<in> hosts. numeric addr d s" "inj_on addr hosts"
  shows "dests_of conns' \<and> fst ` set conns' \<subseteq> hosts \<and> (\<exists>new. trace t = trace s @ new \<and> pton t = pton s
    \<and> (\<forall>r. all_linked addr conns r \<longrightarrow> fresh_sockets new r \<longrightarrow> all_linked addr conns' (routes new r)
        \<and> (\<forall>d \<in> hosts. host_part dest clean cs d (l, i, now, start, stop) new (carried (addr d) new r))))"
proof -
  let ?lines = "carbon_lines clean cs now start stop l i"
  let ?strings = "put_lines dest ?lines []"
  have "deliver_all ?strings conns s = Done conns' t"
    using assms(1) carbon_strings_lines[OF assms(2,3), where clean = clean and cs = cs and now = now and start = start
        and stop = stop and i = i] by (simp add: carbon_flush_def)
  moreover have keys: "fst ` set ?strings \<subseteq> hosts" using assms(5) by (auto simp: dom_put_lines)
  moreover have "inj_on addr (fst ` set ?strings \<union> fst ` set conns)"
    by (rule inj_on_subset[OF assms(8)]) (use keys assms(6) in auto)
  ultimately obtain new outs where "dests_of conns'" and outs: "map to_deliver outs = ?strings" and
    st: "flush_streams addr conns s conns' t new outs"
    using deliver_all_streams[of ?strings conns s conns' t addr] assms(4,7) by blast
  have "host_part dest clean cs d (l, i, now, start, stop) new
      (concat (map bytes_of (filter (\<lambda>out. addr (fst out) = addr d) outs)))" if d: "d \<in> hosts" for d
  proof -
    let ?xs = "map snd (filter (\<lambda>kl. dest (fst kl) = d) ?lines)"
    have "inj_on addr (insert d (fst ` set ?strings))"
      by (rule inj_on_subset[OF assms(8)]) (use keys d in auto)
    moreover have "map_of ?strings d = entry ?xs (concat ?xs)"
      using map_of_put_lines[of dest ?lines d] by (simp add: Let_def)
    moreover have "\<forall>out \<in> set outs. torn out" "smooth new \<longrightarrow> (\<forall>out \<in> set outs. entire out)"
      using st by (simp_all add: flush_streams_def)
    moreover have "umap_ok ?strings" by (rule umap_ok_put_lines[OF umap_ok_Nil])
    ultimately show ?thesis using outcome_for[OF outs, of d ?xs addr]
      unfolding host_part_def host_text_def by (simp (no_asm_simp)) blast
  qed
  moreover have "fst ` set conns' \<subseteq> hosts"
    using st assms(6) keys by (auto simp: flush_streams_def outs[symmetric] image_comp)
  ultimately show ?thesis using \<open>dests_of conns'\<close> st by (auto simp: flush_streams_def)
qed

lemma carbon_flushes_streams:
  assumes "\<And>k. \<exists>n. get k = Inr n \<and> hostport_of n = dest k" "\<forall>k. dest k \<in> hosts" "inj_on addr hosts"
  shows "carbon_flushes get clean cs calls conns s = Done conns' t \<Longrightarrow> \<forall>fc \<in> set calls. flushable (fst fc) \<Longrightarrow>
    dests_of conns \<Longrightarrow> fst ` set conns \<subseteq> hosts \<Longrightarrow> \<forall>d \<in> hosts. numeric addr d s \<Longrightarrow>
    \<exists>segs. trace t = trace s @ concat segs \<and> length segs = length calls
    \<and> (\<forall>r. all_linked addr conns r \<longrightarrow> fresh_sockets (concat segs) r \<longrightarrow>
        (\<forall>d \<in> hosts. served dest clean cs d (addr d) calls segs r))"
proof (induction calls arbitrary: conns s)
  case Nil
  then show ?case by (intro exI[of _ "[]"]) simp
next
  case (Cons fc calls)
  obtain l i now start stop where fc: "fc = (l, i, now, start, stop)" by (metis prod_cases5)
  from Cons.prems(1) obtain conns1 u where
    here: "carbon_flush get clean cs now start stop l i conns s = Done conns1 u" and
    rest: "carbon_flushes get clean cs calls conns1 u = Done conns' t"
    by (auto simp: fc elim!: run_bind_DoneE)
  from Cons.prems(2) have l: "flushable l" by (simp add: fc)
  from carbon_flush_streams[where dest = dest, OF here assms(1) l Cons.prems(3) assms(2) Cons.prems(4,5) assms(3)]
  obtain x where c1: "dests_of conns1" "fst ` set conns1 \<subseteq> hosts" and
    x: "trace u = trace s @ x" "pton u = pton s"
      "\<forall>r. all_linked addr conns r \<longrightarrow> fresh_sockets x r \<longrightarrow> all_linked addr conns1 (routes x r)
        \<and> (\<forall>d \<in> hosts. host_part dest clean cs d fc x (carried (addr d) x r))"
    unfolding fc by blast
  from Cons.prems(5) x(2) have "\<forall>d \<in> hosts. numeric addr d u" by (simp add: numeric_def)
  with Cons.IH[OF rest _ c1] Cons.prems(2) obtain segs where segs: "trace t = trace u @ concat segs"
    "length segs = length calls"
    "\<forall>r. all_linked addr conns1 r \<longrightarrow> fresh_sockets (concat segs) r \<longrightarrow>
        (\<forall>d \<in> hosts. served dest clean cs d (addr d) calls segs r)" by auto
  with x show ?case by (intro exI[of _ "x # segs"]) simp
qed

section \<open>The host of a key\<close>

text \<open>The host the ring of a backend assigns a key to.\<close>

definition owner_host :: "(string \<Rightarrow> 8 word list) \<Rightarrow> hashring \<Rightarrow> string \<Rightarrow> hostport" where
  "owner_host md4 hr key = (case ring_get md4 hr key of
     Inr nd \<Rightarrow> hostport_of nd | Inl e \<Rightarrow> \<lparr>host = [], port = 0\<rparr>)"

lemma owner_host_node:
  assumes "new_hashring md4 ns = Inr hr" "umap_ok ns" "ring hr \<noteq> []"
  shows "\<exists>nd. ring_get md4 hr k = Inr nd \<and> hostport_of nd = owner_host md4 hr k"
    and "owner_host md4 hr k \<in> (hostport_of \<circ> snd) ` set ns"
proof -
  from ring_get_nonempty[OF assms, of k] obtain u nd where
    nd: "ring_get md4 hr k = Inr nd" "(u, nd) \<in> set ns" by blast
  then show "\<exists>nd. ring_get md4 hr k = Inr nd \<and> hostport_of nd = owner_host md4 hr k"
    by (simp add: owner_host_def)
  have "hostport_of nd \<in> (hostport_of \<circ> snd) ` set ns" using nd(2) by force
  with nd(1) show "owner_host md4 hr k \<in> (hostport_of \<circ> snd) ` set ns" by (simp add: owner_host_def)
qed

lemma carbon_streams:
  assumes "new_hashring md4 ns = Inr hr" "umap_ok ns" "ring hr \<noteq> []"
    and "\<forall>(u, nd) \<in> set ns. numeric addr (hostport_of nd) s"
    and "inj_on addr ((hostport_of \<circ> snd) ` set ns)"
    and "\<forall>fc \<in> set calls. flushable (fst fc)"
    and "carbon_flushes (ring_get md4 hr) clean cs calls [] s = Done conns t"
  shows "\<exists>segs. trace t = trace s @ concat segs \<and> length segs = length calls
    \<and> (fresh_sockets (concat segs) (\<lambda>_. None) \<longrightarrow> (\<forall>(u, nd) \<in> set ns.
         let a = addr (hostport_of nd) in
         host_stream (owner_host md4 hr) clean cs (hostport_of nd) calls (carried a (concat segs) (\<lambda>_. None))
         \<and> (\<forall>i < length calls. smooth (segs ! i) \<longrightarrow>
              carried a (segs ! i) (routes (concat (take i segs)) (\<lambda>_. None))
              = host_text (owner_host md4 hr) clean cs (hostport_of nd) (calls ! i))))"
proof -
  let ?hosts = "(hostport_of \<circ> snd) ` set ns"
  note own = owner_host_node[OF assms(1-3)]
  have "\<forall>d \<in> ?hosts. numeric addr d s" using assms(4) by auto
  with carbon_flushes_streams[of "ring_get md4 hr" "owner_host md4 hr" ?hosts addr, OF own(1) _ assms(5,7,6)] own(2)
  obtain segs where segs: "trace t = trace s @ concat segs" "length segs = length calls"
    "\<forall>r. fresh_sockets (concat segs) r \<longrightarrow>
        (\<forall>d \<in> ?hosts. served (owner_host md4 hr) clean cs d (addr d) calls segs r)"
    unfolding dests_of_def by (simp (no_asm_use)) blast
  have "hostport_of nd \<in> ?hosts" if "(u, nd) \<in> set ns" for u nd using that by force
  with segs(3) have "served (owner_host md4 hr) clean cs (hostport_of nd) (addr (hostport_of nd)) calls segs (\<lambda>_. None)"
    if "fresh_sockets (concat segs) (\<lambda>_. None)" "(u, nd) \<in> set ns" for u nd using that by blast
  from served_stream[OF segs(2) this] served_smooth[OF this] segs(1,2) show ?thesis
    unfolding Let_def by (intro exI[of _ segs]) blast
qed

section \<open>Properties\<close>

text \<open>
  C9. What every carbon host receives. Let the shards be given by address, no two of them the same, and
  let the operating system hand out unused descriptors only. Then over any sequence of flushes of
  one backend, through all short writes, errors and reconnects, the bytes that go to the address
  of a shard are, flush by flush and in order: proper prefixes of the lines that flush has for
  the shard, one for every attempt that failed, and then those lines whole, unless the write gave up.
  A flush (its system calls are one of \<open>segs\<close>) during which no call of \<^verbatim>\<open>socket\<close>, \<^verbatim>\<open>connect\<close> or \<^verbatim>\<open>write\<close>
  failed sends every shard exactly its lines.
\<close>

theorem carbon_host_streams:
  assumes "new_hashring md4 ns = Inr hr" "umap_ok ns" "ring hr \<noteq> []"
    and "\<forall>(u, nd) \<in> set ns. numeric addr (hostport_of nd) s"
    and "inj_on addr ((hostport_of \<circ> snd) ` set ns)"
    and "\<forall>fc \<in> set calls. flushable (fst fc)"
    and "carbon_flushes (ring_get md4 hr) clean cs calls [] s = Done conns t"
  shows "\<exists>segs. trace t = trace s @ concat segs \<and> length segs = length calls
    \<and> (fresh_sockets (concat segs) (\<lambda>_. None) \<longrightarrow> (\<forall>(u, nd) \<in> set ns.
         let a = addr (hostport_of nd) in
         host_stream (owner_host md4 hr) clean cs (hostport_of nd) calls (carried a (concat segs) (\<lambda>_. None))
         \<and> (\<forall>i < length calls. smooth (segs ! i) \<longrightarrow>
              carried a (segs ! i) (routes (concat (take i segs)) (\<lambda>_. None))
              = host_text (owner_host md4 hr) clean cs (hostport_of nd) (calls ! i))))"
  by (rule carbon_streams[OF assms])

section \<open>An execution\<close>

text \<open>One shard, which takes three bytes and hangs up; it cannot be reached again.\<close>

abbreviation one_shard :: "(string, node) umap" where
  "one_shard \<equiv> [(''a'', \<lparr>host = ''127.0.0.1'', port = 2003, vnodes = 1, weight = 1\<rparr>)]"

abbreviation hang_up :: env where
  "hang_up \<equiv> quiet_env\<lparr>q_socket := [Ret 5, Fail EPIPE], q_setsockopt := [Ret 0], q_connect := [Ret 0],
     q_write := [Ret 3, Fail EPIPE], q_poll := [Ret True], q_close := [Ret 0]\<rparr>"

abbreviation to_port :: "hostport \<Rightarrow> sockaddr" where
  "to_port hp \<equiv> sock_address 0 (port hp)"

lemma one_shard_ring:
  obtains hr where "new_hashring (\<lambda>_. replicate 16 0) one_shard = Inr hr" "ring hr \<noteq> []"
proof -
  have "\<exists>hr. new_hashring (\<lambda>_. replicate 16 0) one_shard = Inr hr"
    by (rule new_hashring_ok) auto
  then obtain hr where hr: "new_hashring (\<lambda>_. replicate 16 0) one_shard = Inr hr" by blast
  have "length (ring hr) = 4"
    using new_hashring_custom[OF hr] by (simp add: custom_vnodes_def custom_points_def length_shard_points)
  with that[OF hr] show thesis by fastforce
qed

lemma put_lines_one_dest:
  "ls \<noteq> [] \<Longrightarrow> put_lines (\<lambda>_. d) ls [] = [(d, concat (map snd ls))]"
proof -
  have "put_lines (\<lambda>_. d) xs [(d, u)] = [(d, u @ concat (map snd xs))]" for xs u
    by (induction xs arbitrary: u) (simp_all add: put_lines_simps umap_upd_def umap_put_def umap_at_def)
  then show "ls \<noteq> [] \<Longrightarrow> put_lines (\<lambda>_. d) ls [] = [(d, concat (map snd ls))]"
    by (cases ls) (simp_all add: put_lines_simps umap_upd_def umap_put_def umap_at_def)
qed

text \<open>The text of the flush of an empty ledger.\<close>

abbreviation idle_lines :: "(string \<times> string) list" where
  "idle_lines \<equiv> carbon_lines (\<lambda>k. k) no_prefix 1000 0 1 new_ledger 1"

lemma idle_lines_long: "idle_lines \<noteq> []" "3 < length (concat (map snd idle_lines))"
  by (simp_all add: carbon_lines_def new_ledger_def stat_line_def thread_prefix_def Let_def)

lemma hang_up_run:
  assumes l: "3 < length str"
  shows "\<exists>conns t. deliver_all [(\<lparr>host = ''127.0.0.1'', port = 2003\<rparr>, str)] [] hang_up = Done conns t
    \<and> trace t = [Ev_socket (Ret 5), Ev_setsockopt 5 ''SO_KEEPALIVE'' (Ret 0),
        Ev_connect 5 (sock_address 0 2003) (Ret 0), Ev_write 5 str (Ret 3), Ev_write 5 (drop 3 str) (Fail EPIPE),
        Ev_poll 5 (Ret True), Ev_close 5 (Ret 0), Ev_socket (Fail EPIPE)]"
proof -
  from l have "str \<noteq> []" "drop 3 str \<noteq> []" "3 \<le> length str" by auto
  then show ?thesis
    by (simp add: new_connection_def net_connect_def connect_to_def w_inet_pton_def w_socket_def w_setsockopt_def
        w_connect_def w_poll_def w_close_def sys_call_def log_failure_def log_error_msg_def fd_of_def
        conn_write.simps[of str] try_write_def conn_bad_def w_writen_def writen_loop.simps
        conn_refresh_def conn_close_def quiet_env_def)
qed

theorem carbon_host_streams_witness:
  "\<exists>hr. host_stream (owner_host (\<lambda>_. replicate 16 0) hr) (\<lambda>k. k) no_prefix \<lparr>host = ''127.0.0.1'', port = 2003\<rparr>
     [(new_ledger, 1, 1000, 0, 1)] (take 3 (concat (map snd idle_lines)))"
proof -
  obtain hr where hr: "new_hashring (\<lambda>_. replicate 16 0) one_shard = Inr hr" "ring hr \<noteq> []"
    by (rule one_shard_ring)
  let ?get = "ring_get (\<lambda>_. replicate 16 0) hr"
  let ?h = "\<lparr>host = ''127.0.0.1'', port = 2003\<rparr> :: hostport"
  have ok: "umap_ok one_shard" by (simp add: umap_ok_def)
  have get: "\<exists>nd. ?get k = Inr nd \<and> hostport_of nd = ?h" for k
    using ring_get_nonempty[OF hr(1) ok hr(2), of k] by (auto simp: hostport_of_def)
  have f: "flushable new_ledger" by (simp add: flushable_def new_ledger_def)
  obtain conns t where run: "deliver_all [(?h, concat (map snd idle_lines))] [] hang_up = Done conns t" and
    tr: "trace t = [Ev_socket (Ret 5), Ev_setsockopt 5 ''SO_KEEPALIVE'' (Ret 0),
        Ev_connect 5 (sock_address 0 2003) (Ret 0), Ev_write 5 (concat (map snd idle_lines)) (Ret 3),
        Ev_write 5 (drop 3 (concat (map snd idle_lines))) (Fail EPIPE),
        Ev_poll 5 (Ret True), Ev_close 5 (Ret 0), Ev_socket (Fail EPIPE)]"
    using hang_up_run[OF idle_lines_long(2)] by blast
  have "carbon_flushes ?get (\<lambda>k. k) no_prefix [(new_ledger, 1, 1000, 0, 1)] [] hang_up = Done conns t"
    using run by (simp add: carbon_flush_def carbon_strings_lines[where dest = "\<lambda>_. ?h", OF get f]
        put_lines_one_dest[OF idle_lines_long(1)])
  from carbon_host_streams[of "\<lambda>_. replicate 16 0" one_shard hr to_port hang_up, OF hr(1) ok hr(2) _ _ _ this]
  obtain segs where "concat segs = trace t" "fresh_sockets (concat segs) (\<lambda>_. None) \<longrightarrow>
      host_stream (owner_host (\<lambda>_. replicate 16 0) hr) (\<lambda>k. k) no_prefix ?h [(new_ledger, 1, 1000, 0, 1)]
        (carried (sock_address 0 2003) (concat segs) (\<lambda>_. None))"
    using f by (auto simp: numeric_def hostport_of_def quiet_env_def Let_def)
  then show ?thesis by (intro exI[of _ hr]) (simp add: tr)
qed

end
