(* ===== verification/Wire.thy ===== *)
theory Wire
  imports System Delivery
begin

text \<open>
  The whole of the aggregator, from a datagram to the bytes a carbon host reads: the executions
  of \<open>System\<close>, whose flushers call \<^verbatim>\<open>Carbon::flush_stats\<close> of \<^verbatim>\<open>lib/backends/carbon.cc\<close> under the
  mutex of the container, and the streams of \<open>Delivery\<close>.
\<close>

section \<open>Every flushed ledger can be flushed by carbon\<close>

context queue_client begin

lemma flushed_flushable:
  assumes "reach lexcast push pop st w0 subs w" "w0 = new_worker i q0 d r b" "items q0 = []"
  shows "\<forall>call \<in> set (flushed w). flushable (fst call)"
  using assms(1,2)
proof (induction rule: reach.induct)
  case start
  then show ?case by (simp add: new_worker_def)
next
  case (submit subs w m)
  then show ?case by (simp add: submit_def split: option.split)
next
  case (work subs w start stop w')
  from work.hyps(2) show ?case
  proof (cases rule: work_cases)
    case idle
    with work show ?thesis by simp
  next
    case (buffered m q)
    from buffer_metric_Inr[OF buffered(5)] work show ?thesis by auto
  next
    case (flushing m q)
    from stream_inv_reach[OF work.hyps(1) work.prems assms(3)] flushing(1) obtain cur where
      cur: "current_ledger w = buffer_all lexcast (set_name st) cur new_ledger"
      by (auto simp: stream_inv_def)
    from flush_ledger_Inr[OF flushing(5)] obtain l bad where
      l: "process start stop (set_frequency st) (set_percentiles st) (current_ledger w) = Inr l" and
      w': "flushed w' = flushed w @ [(copy_ledger l, wid w)]" by auto
    have "umap_ok (counters (current_ledger w))" "timer_data (current_ledger w) = []"
      by (simp_all add: cur counters_history_ok timer_data_history)
    from processed_flushable[OF this l] work w' show ?thesis by simp
  next
    case (finishing m w1)
    from buffer_metric_Inr[OF finishing(3)] finish_flush_Inr[OF finishing(2)] work show ?thesis by auto
  qed
qed (simp_all add: interrupt_def stop_worker_def)

end

text \<open>The id of a flusher's call is that of a worker.\<close>

lemma calls_of_workers:
  assumes "areach lexcast hash workers push pop st c kinds q threads ds cs s"
    and "0 < workers" "workers \<le> int_max" "new_agg_consumer hash (set_name st) workers = Inr c"
  shows "\<forall>call \<in> set (fl_calls (ag_flushers s)). \<exists>i < nat workers. snd call = int i + 1"
  using assms(1)
proof (induction rule: areach.induct)
  case start
  then show ?case by (simp add: started_simps no_flushers_def)
next
  case (consume ds cs s j l ls alloc s')
  then show ?case using consume_next_backlog[OF consume.hyps(4)] by simp
next
  case (work ds cs s i start stop s')
  from workers_reach[OF work.hyps(1) assms(2-4)] have "length (ag_workers s) = nat workers"
    by (simp add: worker_runs_def)
  moreover from handed_over_reach[OF work.hyps(1)] work.hyps(2) have "wid (ag_workers s ! i) = int i + 1"
    by (simp add: handed_over_def)
  moreover from work.hyps(5) obtain w where "work lexcast pop st start stop (ag_workers s ! i) = Inr w"
    "ag_flushers s' = flush_handed (ag_workers s ! i) w (ag_flushers s)"
    by (auto simp: work_next_def bind_result_Inr_iff)
  ultimately show ?case using work.IH work.hyps(2) work_frame[of lexcast pop st start stop "ag_workers s ! i" w]
    by (auto simp: flush_handed_def hand_off_def)
next
  case (leave ds cs s i)
  then show ?case by (simp add: leave_def)
next
  case (flusher ds cs s f)
  then show ?case using flusher_step_calls[OF flusher.hyps(2)] by simp
qed (simp_all add: receive_def change_worker_def)

lemma calls_flushable:
  assumes "fifo_queue cap push pop items" "items q = []" "0 < workers" "workers \<le> int_max"
    and "new_agg_consumer hash (set_name st) workers = Inr c"
    and reach: "areach lexcast hash workers push pop st c kinds q threads ds cs s"
  shows "\<forall>call \<in> set (fl_calls (ag_flushers s)). flushable (fst call)"
proof
  fix call assume call: "call \<in> set (fl_calls (ag_flushers s))"
  with calls_of_workers[OF reach assms(3-5)] obtain i where i: "i < nat workers" "snd call = int i + 1" by blast
  from workers_reach[OF reach assms(3-5)] i obtain subs where
    r: "reach lexcast push pop st (new_worker (int i + 1) q 0 0 0) subs (ag_workers s ! i)" and
    len: "length (ag_workers s) = nat workers"
    by (auto simp: worker_runs_def)
  from handed_over_reach[OF reach] i call len have "call \<in> set (flushed (ag_workers s ! i))"
    by (simp add: handed_over_def)
  with queue_client.flushed_flushable[OF fifo_queue_client[OF assms(1)] r refl assms(2)]
  show "flushable (fst call)" by blast
qed

section \<open>The calls carbon has been given\<close>

text \<open>
  The flushers whose call of carbon's \<^verbatim>\<open>flush_stats\<close> has been made, in order, and the calls with
  their clock readings.
\<close>

definition carbon_made :: "backend_kind flushers \<Rightarrow> nat list" where
  "carbon_made f = map fst (filter (\<lambda>x. snd x = Carbon_Backend) (fl_log f))"

definition carbon_calls :: "(nat \<Rightarrow> 64 word \<times> 64 word \<times> 64 word) \<Rightarrow> backend_kind flushers \<Rightarrow> flush_call list" where
  "carbon_calls clk f = map (\<lambda>t. case fl_calls f ! t of (l, i) \<Rightarrow> (l, i, clk t)) (carbon_made f)"

lemma filter_kinds:
  "distinct kinds \<Longrightarrow> map fst (filter (\<lambda>x. snd x = b) (map (Pair t) kinds)) = (if b \<in> set kinds then [t] else [])"
  by (induction kinds) auto

lemma filter_whole:
  "distinct kinds \<Longrightarrow> b \<in> set kinds \<Longrightarrow> map fst (filter (\<lambda>x. snd x = b) (whole kinds ts)) = ts"
  by (induction ts) (simp_all add: whole_def filter_kinds)

lemma carbon_made_shape:
  assumes "freach kinds f" "distinct kinds" "Carbon_Backend \<in> set kinds"
  shows "distinct (carbon_made f) \<and> returned f \<subseteq> set (carbon_made f) \<and> set (carbon_made f) \<subseteq> {..<length (fl_calls f)}"
proof -
  from log_ok_reach[OF assms(1)] obtain served where served: "distinct served" "set served = returned f"
    "fl_log f = whole kinds served @ under_way kinds f" by (auto simp: log_ok_def)
  note m = mutex_ok_reach[OF assms(1)]
  have "\<exists>ts. map fst (filter (\<lambda>x. snd x = Carbon_Backend) (under_way kinds f)) = ts
      \<and> distinct ts \<and> set ts \<inter> returned f = {} \<and> set ts \<subseteq> {..<length (fl_calls f)}"
  proof (cases "fl_lock f")
    case None
    then show ?thesis by (simp add: under_way_def)
  next
    case (Some t)
    from mutex_okD(3)[OF m Some] mutex_okD(1)[OF m] obtain k where t: "t < length (fl_calls f)" "fl_stage f ! t = Holding k"
      by (cases "fl_stage f ! t") auto
    then have "t \<notin> returned f" by (simp add: returned_def)
    with Some t filter_kinds[OF distinct_take[OF assms(2)], of Carbon_Backend t k] show ?thesis
      by (simp add: under_way_def)
  qed
  with served filter_whole[OF assms(2,3), of served] mutex_okD(1)[OF m] show ?thesis
    by (auto simp: carbon_made_def returned_def)
qed

section \<open>The intervals behind the calls\<close>

lemma merge_streams:
  assumes "\<And>j. list_all2 P (X j) (filter (\<lambda>c. key c = j) cs)"
  shows "\<exists>xs. list_all2 P xs cs \<and> (\<forall>j. map fst (filter (\<lambda>p. key (snd p) = j) (zip xs cs)) = X j)"
  using assms
proof (induction cs arbitrary: X)
  case (Cons c cs)
  from Cons.prems[of "key c"] obtain y ys where y: "X (key c) = y # ys" "P y c"
    by (auto simp: list_all2_Cons2)
  have "list_all2 P ((X(key c := ys)) j) (filter (\<lambda>c. key c = j) cs)" for j
    using Cons.prems[of j] y(1) by (cases "key c = j") auto
  from Cons.IH[OF this] obtain xs where xs: "list_all2 P xs cs"
    "\<forall>j. map fst (filter (\<lambda>p. key (snd p) = j) (zip xs cs)) = (X(key c := ys)) j" by blast
  then show ?case using y by (intro exI[of _ "y # xs"]) auto
qed simp

lemma only_matching:
  assumes "length xs = length cs" "\<forall>p \<in> set (zip xs cs). \<not> Q (snd p) \<longrightarrow> g (fst p) = []"
  shows "concat (map g xs) = concat (map g (map fst (filter (\<lambda>p. Q (snd p)) (zip xs cs))))"
  using assms by (induction xs cs rule: list_induct2) auto

lemma samples_concat: "samples lexcast ty n (concat xss) = concat (map (samples lexcast ty n) xss)"
  by (induction xss) (simp_all add: samples_append samples_def)

lemma mset_concat_map: "mset (concat (map g xs)) = \<Sum>\<^sub># (image_mset (\<lambda>x. mset (g x)) (mset xs))"
  by (induction xs) simp_all

lemma split_index:
  assumes "distinct ts" "set ts \<subseteq> {..<k}"
  shows "mset [0..<k] = mset ts + mset (filter (\<lambda>t. t \<notin> set ts) [0..<k])"
proof -
  have ts: "mset ts = mset (filter (\<lambda>t. t \<in> set ts) [0..<k])"
    using assms by (intro set_eq_iff_mset_eq_distinct[THEN iffD1]) auto
  have "mset xs = mset (filter P xs) + mset (filter (\<lambda>x. \<not> P x) xs)" for P and xs :: "nat list"
    by (induction xs) simp_all
  from this[of "[0..<k]" "\<lambda>t. t \<in> set ts"] show ?thesis unfolding ts[symmetric] .
qed

text \<open>
  One interval of lines for every flusher, and the samples of a name among them: all of them
  are in the intervals of the one worker.
\<close>

lemma intervals_of_calls:
  assumes "fifo_queue cap push pop items" "items q = []" "0 < workers" "workers \<le> int_max"
    and "new_agg_consumer hash (set_name st) workers = Inr c"
    and "plain (set_name st)" "n \<noteq> bad_keys_key (set_name st)"
    and "areach lexcast hash workers push pop st c kinds q threads ds cs s"
  shows "\<exists>ints cur. let w = ag_workers s ! agg_pick hash workers n; calls = fl_calls (ag_flushers s) in
      list_all2 (\<lambda>lines call. flush_of lexcast st (snd call) lines call) ints calls
    \<and> current_ledger w = buffer_all lexcast (set_name st) cur new_ledger
    \<and> samples lexcast ty n (concat ints @ cur @ (case pending w of None \<Rightarrow> [] | Some m \<Rightarrow> [m]) @ items (work_queue w))
      = samples lexcast ty n (accepted cs)"
proof -
  let ?calls = "fl_calls (ag_flushers s)"
  let ?k = "agg_pick hash workers n"
  let ?rest = "\<lambda>i. (case pending (ag_workers s ! i) of None \<Rightarrow> [] | Some m \<Rightarrow> [m]) @ items (work_queue (ag_workers s ! i))"
  have k: "?k < nat workers" using unat_mod_less[OF assms(3)] by (simp add: agg_pick_def)
  have "\<forall>i \<in> {..<nat workers}. \<exists>x. list_all2 (flush_of lexcast st (int i + 1)) (fst x) (filter (\<lambda>call. snd call = int i + 1) ?calls)
       \<and> current_ledger (ag_workers s ! i) = buffer_all lexcast (set_name st) (snd x) new_ledger
       \<and> samples lexcast ty n (concat (fst x) @ snd x @ ?rest i)
         = (if i = ?k then samples lexcast ty n (accepted cs) else [])"
    using worker_samples[OF assms, of _ ty] by (simp add: Let_def)
  from bchoice[OF this] obtain F where
    F: "i < nat workers \<Longrightarrow> list_all2 (flush_of lexcast st (int i + 1)) (fst (F i)) (filter (\<lambda>call. snd call = int i + 1) ?calls)"
      "i < nat workers \<Longrightarrow> current_ledger (ag_workers s ! i) = buffer_all lexcast (set_name st) (snd (F i)) new_ledger"
      "i < nat workers \<Longrightarrow> samples lexcast ty n (concat (fst (F i)) @ snd (F i) @ ?rest i)
         = (if i = ?k then samples lexcast ty n (accepted cs) else [])" for i
    by auto
  obtain X :: "int \<Rightarrow> string list list" where
    X: "\<And>j. X j = (if \<exists>i < nat workers. j = int i + 1 then fst (F (nat (j - 1))) else [])" by fast
  have no: "filter (\<lambda>call. snd call = j) ?calls = []" if "\<not> (\<exists>i < nat workers. j = int i + 1)" for j
    using calls_of_workers[OF assms(8,3-5)] that by (auto simp: filter_empty_conv)
  have "list_all2 (\<lambda>lines call. flush_of lexcast st (snd call) lines call) (X j) (filter (\<lambda>call. snd call = j) ?calls)" for j
  proof (cases "\<exists>i < nat workers. j = int i + 1")
    case True
    then obtain i where i: "i < nat workers" "j = int i + 1" by blast
    have "list_all2 (\<lambda>lines call. flush_of lexcast st (snd call) lines call) (fst (F i)) (filter (\<lambda>call. snd call = int i + 1) ?calls)"
      by (rule list.rel_mono_strong[OF F(1)[OF i(1)]]) auto
    with i show ?thesis by (simp add: X)
  next
    case False
    then show ?thesis unfolding X if_not_P[OF False] no[OF False] by simp
  qed
  from merge_streams[of "\<lambda>lines call. flush_of lexcast st (snd call) lines call" X snd ?calls, OF this] obtain ints where
    ints: "list_all2 (\<lambda>lines call. flush_of lexcast st (snd call) lines call) ints ?calls"
      "\<And>j. map fst (filter (\<lambda>p. snd (snd p) = j) (zip ints ?calls)) = X j" by auto
  have len: "length ints = length ?calls" using ints(1) by (rule list_all2_lengthD)
  have others: "samples lexcast ty n (fst p) = []" if "p \<in> set (zip ints ?calls)" "snd (snd p) \<noteq> int ?k + 1" for p
  proof -
    have "snd p \<in> set ?calls" using set_zip_rightD[of "fst p" "snd p"] that(1) by simp
    with calls_of_workers[OF assms(8,3-5)] obtain i where i: "i < nat workers" "snd (snd p) = int i + 1" by blast
    have "fst p \<in> set (map fst (filter (\<lambda>p. snd (snd p) = int i + 1) (zip ints ?calls)))" using that(1) i(2) by auto
    then have "fst p \<in> set (fst (F i))" using i(1) by (auto simp: ints(2) X)
    with F(3)[OF i(1)] that(2) i(2) show ?thesis
      by (auto simp: samples_append samples_concat)
  qed
  have "samples lexcast ty n (concat ints) = samples lexcast ty n (concat (X (int ?k + 1)))"
    unfolding samples_concat ints(2)[symmetric] using others by (intro only_matching[OF len]) auto
  also have "X (int ?k + 1) = fst (F ?k)" using k by (auto simp: X)
  finally have "samples lexcast ty n (concat ints @ snd (F ?k) @ ?rest ?k) = samples lexcast ty n (accepted cs)"
    using F(3)[OF k] by (simp add: samples_append)
  with ints(1) F(2)[OF k] show ?thesis
    unfolding Let_def by (intro exI[of _ ints] exI[of _ "snd (F ?k)"] conjI)
qed

text \<open>The samples carbon has been given, those it has yet to be given and those in the worker.\<close>

definition given :: "string list list \<Rightarrow> nat list \<Rightarrow> string list" where
  "given ints ts = concat (map (\<lambda>t. ints ! t) ts)"

definition ungiven :: "string list list \<Rightarrow> nat list \<Rightarrow> string list" where
  "ungiven ints ts = given ints (filter (\<lambda>t. t \<notin> set ts) [0..<length ints])"

lemma given_split:
  assumes "distinct ts" "set ts \<subseteq> {..<length ints}"
  shows "mset (samples lexcast ty n (given ints ts)) + mset (samples lexcast ty n (ungiven ints ts))
    = mset (samples lexcast ty n (concat ints))"
proof -
  let ?g = "\<lambda>t. samples lexcast ty n (ints ! t)"
  have g: "mset (samples lexcast ty n (given ints us)) = \<Sum>\<^sub># (image_mset (\<lambda>t. mset (?g t)) (mset us))" for us
    by (simp add: given_def samples_concat mset_concat_map[symmetric] o_def)
  have "concat ints = given ints [0..<length ints]" by (simp add: given_def map_nth)
  then have "mset (samples lexcast ty n (concat ints)) = \<Sum>\<^sub># (image_mset (\<lambda>t. mset (?g t)) (mset [0..<length ints]))"
    by (simp only: g)
  then show ?thesis unfolding split_index[OF assms] ungiven_def g by simp
qed

section \<open>Properties\<close>

text \<open>
  C1. From the datagrams to the wire. In a reachable state of an aggregator with a carbon backend,
  let the calls of carbon's \<^verbatim>\<open>flush_stats\<close> have been carried out, in the order the mutex gave
  them, on shards given by address, no two of them the same. Every flusher has an interval of accepted lines
  whose aggregate it carries; no flusher called carbon twice and each that has returned did. For every type and
  every name but the one the consumer makes up the samples of the
  accepted lines are those of the intervals given to carbon, of the intervals still with a
  flusher, and of the one worker of the name. And when the operating system hands out unused descriptors
  only, every carbon host has received, call by call, proper prefixes of the text of its own metrics, one for
  every attempt that failed, and then that text whole, unless the write gave up; from a call during
  which no \<^verbatim>\<open>socket\<close>, \<^verbatim>\<open>connect\<close> or \<^verbatim>\<open>write\<close> failed it has received exactly its text.
\<close>

theorem datagrams_reach_carbon:
  assumes "fifo_queue cap push pop items" "items q = []" "0 < workers" "workers \<le> int_max"
    and "new_agg_consumer hash (set_name st) workers = Inr c"
    and "plain (set_name st)" "n \<noteq> bad_keys_key (set_name st)"
    and "areach lexcast hash workers push pop st c kinds q threads ds cs s"
    and "distinct kinds" "Carbon_Backend \<in> set kinds"
    and "new_hashring md4 ns = Inr hr" "umap_ok ns" "ring hr \<noteq> []"
    and "\<forall>(u, nd) \<in> set ns. numeric addr (hostport_of nd) os"
    and "inj_on addr ((hostport_of \<circ> snd) ` set ns)"
    and "carbon_flushes (ring_get md4 hr) clean conf (carbon_calls clk (ag_flushers s)) [] os = Done conns os'"
  shows "\<exists>ints cur segs. let f = ag_flushers s; w = ag_workers s ! agg_pick hash workers n; calls = carbon_calls clk f in
      list_all2 (\<lambda>lines call. flush_of lexcast st (snd call) lines call) ints (fl_calls f)
    \<and> distinct (carbon_made f) \<and> returned f \<subseteq> set (carbon_made f)
    \<and> current_ledger w = buffer_all lexcast (set_name st) cur new_ledger
    \<and> mset (samples lexcast ty n (given ints (carbon_made f))) + mset (samples lexcast ty n (ungiven ints (carbon_made f)))
        + mset (samples lexcast ty n (cur @ (case pending w of None \<Rightarrow> [] | Some m \<Rightarrow> [m]) @ items (work_queue w)))
      = mset (samples lexcast ty n (accepted cs))
    \<and> trace os' = trace os @ concat segs \<and> length segs = length calls
    \<and> (fresh_sockets (concat segs) (\<lambda>_. None) \<longrightarrow> (\<forall>(u, nd) \<in> set ns. let a = addr (hostport_of nd) in
        host_stream (owner_host md4 hr) clean conf (hostport_of nd) calls (carried a (concat segs) (\<lambda>_. None))
        \<and> (\<forall>i < length calls. smooth (segs ! i) \<longrightarrow>
             carried a (segs ! i) (routes (concat (take i segs)) (\<lambda>_. None))
             = host_text (owner_host md4 hr) clean conf (hostport_of nd) (calls ! i))))"
proof -
  let ?f = "ag_flushers s"
  let ?w = "ag_workers s ! agg_pick hash workers n"
  let ?rest = "(case pending ?w of None \<Rightarrow> [] | Some m \<Rightarrow> [m]) @ items (work_queue ?w)"
  from intervals_of_calls[OF assms(1-8), of ty] obtain ints cur where
    ints: "list_all2 (\<lambda>lines call. flush_of lexcast st (snd call) lines call) ints (fl_calls ?f)" and
    cur: "current_ledger ?w = buffer_all lexcast (set_name st) cur new_ledger" and
    all: "samples lexcast ty n (concat ints @ cur @ ?rest) = samples lexcast ty n (accepted cs)"
    unfolding Let_def by blast
  have made: "distinct (carbon_made ?f)" "returned ?f \<subseteq> set (carbon_made ?f)" "set (carbon_made ?f) \<subseteq> {..<length ints}"
    using carbon_made_shape[OF flushers_reach[OF assms(8)] assms(9,10)] list_all2_lengthD[OF ints] by simp_all
  have samples: "mset (samples lexcast ty n (given ints (carbon_made ?f))) + mset (samples lexcast ty n (ungiven ints (carbon_made ?f)))
      + mset (samples lexcast ty n (cur @ ?rest)) = mset (samples lexcast ty n (accepted cs))"
    unfolding given_split[OF made(1,3)] all[symmetric] by (simp add: samples_append)
  have "flushable (fst (fl_calls ?f ! t))" if "t \<in> set (carbon_made ?f)" for t
    using calls_flushable[OF assms(1-5,8)] made(3) list_all2_lengthD[OF ints] that by auto
  then have "\<forall>fc \<in> set (carbon_calls clk ?f). flushable (fst fc)"
    by (force simp: carbon_calls_def split: prod.splits)
  from carbon_streams[OF assms(11-15) this assms(16)] ints cur made(1,2) samples show ?thesis
    unfolding Let_def by (elim exE) (intro exI conjI; (elim conjE)?; assumption)
qed

section \<open>An execution\<close>

text \<open>
  The clock rings before the first line is popped, so the worker flushes an empty interval, and
  its flusher has called carbon.
\<close>

definition idle_flush :: ledger where
  "idle_flush = new_ledger\<lparr>statsd_metrics := [(''processing_time'', 1)]\<rparr>"

lemma idle_flush_processed: "process 0 1 10 [90] new_ledger = Inr idle_flush"
  by (simp add: process_def idle_flush_def new_ledger_def process_counters_def umap_put_def)

lemma copy_idle: "copy_ledger idle_flush = idle_flush"
  by (simp add: copy_ledger_def idle_flush_def new_ledger_def)

lemma wire_run:
  "\<exists>s. areach sample_lex (\<lambda>_. 0) 1 (list_push 10000) list_pop settings0 one_consumer [Carbon_Backend] [] 1
     [''hits:1|c''] [(''hits:1|c'', True)] s
   \<and> fl_calls (ag_flushers s) = [(idle_flush, 1)] \<and> fl_log (ag_flushers s) = [(0, Carbon_Backend)]"
proof -
  let ?A = "areach sample_lex (\<lambda>_. 0) 1 (list_push 10000) list_pop settings0 one_consumer [Carbon_Backend] [] 1
     [''hits:1|c''] [(''hits:1|c'', True)]"
  let ?s1 = "change_worker 0 interrupt seen_one"
  have s1: "?A ?s1" by (rule areach.ring[OF seen_one_reached]) (simp add: seen_one_def)
  obtain s3 where "work_next sample_lex list_pop settings0 0 0 0 ?s1 = Inr s3"
    and s3: "ag_workers s3 ! 0 = (ag_workers ?s1 ! 0)\<lparr>in_loop := True\<rparr>" "length (ag_workers s3) = 1"
      "ag_flushers s3 = no_flushers"
    by (simp add: work_next_def flush_handed_def seen_one_def change_worker_def interrupt_def submit_def list_push_def
        new_worker_def work_def)
  then have a3: "?A s3"
    by (intro areach.work[OF s1]) (simp_all add: seen_one_def change_worker_def no_flushers_def)
  have w: "\<exists>w. work sample_lex list_pop settings0 0 1 (ag_workers s3 ! 0) = Inr w \<and> flushed w = [(idle_flush, 1)] \<and> wid w = 1"
    by (simp add: s3 seen_one_def change_worker_def interrupt_def submit_def list_push_def new_worker_def work_def Let_def
        flush_ledger_def idle_flush_processed bad_lines_seen_def copy_idle)
      (simp add: idle_flush_def new_ledger_def)
  then obtain w where w: "work sample_lex list_pop settings0 0 1 (ag_workers s3 ! 0) = Inr w"
    "flushed w = [(idle_flush, 1)]" "wid w = 1" by blast
  obtain s2 where s2: "work_next sample_lex list_pop settings0 0 1 0 s3 = Inr s2"
    "ag_flushers s2 = hand_off 1 idle_flush no_flushers"
    using w by (simp add: work_next_def flush_handed_def s3) (simp add: seen_one_def change_worker_def interrupt_def
        submit_def list_push_def new_worker_def)
  have a2: "?A s2"
    by (rule areach.work[OF a3 _ _ _ s2(1)]) (simp_all add: s3 no_flushers_def)
  have f: "flusher_step [Carbon_Backend] (hand_off 1 idle_flush no_flushers) (acquire 0 (hand_off 1 idle_flush no_flushers))"
    "flusher_step [Carbon_Backend] (acquire 0 (hand_off 1 idle_flush no_flushers))
      (flush_next [Carbon_Backend] 0 0 (acquire 0 (hand_off 1 idle_flush no_flushers)))"
    by (rule flusher_step.acquire flusher_step.flush; simp add: flusher_steps)+
  have "?A (s2\<lparr>ag_flushers := flush_next [Carbon_Backend] 0 0 (acquire 0 (hand_off 1 idle_flush no_flushers))\<rparr>)"
    using areach.flusher[OF areach.flusher[OF a2, unfolded s2(2), OF f(1)], of "flush_next [Carbon_Backend] 0 0 (acquire 0 (hand_off 1 idle_flush no_flushers))"] f(2)
    by simp
  then show ?thesis
    by (intro exI[of _ "s2\<lparr>ag_flushers := flush_next [Carbon_Backend] 0 0 (acquire 0 (hand_off 1 idle_flush no_flushers))\<rparr>"])
      (simp add: flusher_steps copy_idle)
qed

abbreviation flushed_lines :: "(string \<times> string) list" where
  "flushed_lines \<equiv> carbon_lines (\<lambda>k. k) no_prefix 1000 0 1 idle_flush 1"

lemma flushed_lines_long: "flushed_lines \<noteq> []" "3 < length (concat (map snd flushed_lines))"
  by (simp_all add: carbon_lines_def idle_flush_def new_ledger_def stat_line_def thread_prefix_def Let_def)

theorem datagrams_reach_carbon_witness:
  "\<exists>hr ints cur. list_all2 (\<lambda>lines call. flush_of sample_lex settings0 (snd call) lines call) ints [(idle_flush, 1)]
    \<and> mset (samples sample_lex Counter ''hits'' (given ints [0])) + mset (samples sample_lex Counter ''hits'' cur)
      = mset (samples sample_lex Counter ''hits'' [''hits:1|c''])
    \<and> host_stream (owner_host (\<lambda>_. replicate 16 0) hr) (\<lambda>k. k) no_prefix \<lparr>host = ''127.0.0.1'', port = 2003\<rparr>
        [(idle_flush, 1, 1000, 0, 1)] (take 3 (concat (map snd flushed_lines)))"
proof -
  obtain hr where hr: "new_hashring (\<lambda>_. replicate 16 0) one_shard = Inr hr" "ring hr \<noteq> []"
    by (rule one_shard_ring)
  let ?get = "ring_get (\<lambda>_. replicate 16 0) hr"
  let ?h = "\<lparr>host = ''127.0.0.1'', port = 2003\<rparr> :: hostport"
  let ?clk = "\<lambda>_ :: nat. (1000, 0, 1) :: 64 word \<times> 64 word \<times> 64 word"
  let ?str = "concat (map snd flushed_lines)"
  have ok: "umap_ok one_shard" by (simp add: umap_ok_def)
  have get: "\<exists>nd. ?get k = Inr nd \<and> hostport_of nd = ?h" for k
    using ring_get_nonempty[OF hr(1) ok hr(2), of k] by (auto simp: hostport_of_def)
  obtain s where reach: "areach sample_lex (\<lambda>_. 0) 1 (list_push 10000) list_pop settings0 one_consumer [Carbon_Backend] [] 1
     [''hits:1|c''] [(''hits:1|c'', True)] s" and
    calls: "fl_calls (ag_flushers s) = [(idle_flush, 1)]" and log: "fl_log (ag_flushers s) = [(0, Carbon_Backend)]"
    using wire_run by blast
  have made: "carbon_made (ag_flushers s) = [0]" "carbon_calls ?clk (ag_flushers s) = [(idle_flush, 1, 1000, 0, 1)]"
    by (simp_all add: carbon_made_def carbon_calls_def log calls)
  obtain conns t where run: "deliver_all [(?h, ?str)] [] hang_up = Done conns t" and
    tr: "trace t = [Ev_socket (Ret 5), Ev_setsockopt 5 ''SO_KEEPALIVE'' (Ret 0),
        Ev_connect 5 (sock_address 0 2003) (Ret 0), Ev_write 5 ?str (Ret 3), Ev_write 5 (drop 3 ?str) (Fail EPIPE),
        Ev_poll 5 (Ret True), Ev_close 5 (Ret 0), Ev_socket (Fail EPIPE)]"
    using hang_up_run[OF flushed_lines_long(2)] by blast
  have f: "flushable idle_flush" by (simp add: flushable_def idle_flush_def new_ledger_def)
  have delivered: "carbon_flushes ?get (\<lambda>k. k) no_prefix (carbon_calls ?clk (ag_flushers s)) [] hang_up = Done conns t"
    using run by (simp add: made carbon_flush_def carbon_strings_lines[where dest = "\<lambda>_. ?h", OF get f]
        put_lines_one_dest[OF flushed_lines_long(1)])
  have c: "new_agg_consumer (\<lambda>_. 0) (set_name settings0) 1 = Inr one_consumer"
    by (simp add: one_consumer_def) code_simp
  have pre: "plain (set_name settings0)" "''hits'' \<noteq> bad_keys_key (set_name settings0)"
    "distinct [Carbon_Backend]" "Carbon_Backend \<in> set [Carbon_Backend]"
    "\<forall>(u, nd) \<in> set one_shard. numeric to_port (hostport_of nd) hang_up"
    "inj_on to_port ((hostport_of \<circ> snd) ` set one_shard)"
    by (auto simp: plain_def bad_keys_key_def numeric_def hostport_of_def quiet_env_def)
  let ?w = "ag_workers s ! agg_pick (\<lambda>_. 0) 1 ''hits''"
  let ?rest = "(case pending ?w of None \<Rightarrow> [] | Some m \<Rightarrow> [m]) @ work_queue ?w"
  from datagrams_reach_carbon[where ty = Counter, OF fifo_list_queue refl _ _ c pre(1,2) reach pre(3,4)
      hr(1) ok hr(2) pre(5,6) delivered, unfolded Let_def made calls]
  obtain ints cur segs where
    ints: "list_all2 (\<lambda>lines call. flush_of sample_lex settings0 (snd call) lines call) ints [(idle_flush, 1)]" and
    acc: "mset (samples sample_lex Counter ''hits'' (given ints [0])) + mset (samples sample_lex Counter ''hits'' (ungiven ints [0]))
      + mset (samples sample_lex Counter ''hits'' (cur @ ?rest))
      = mset (samples sample_lex Counter ''hits'' (accepted [(''hits:1|c'', True)]))" and
    segs: "trace t = trace hang_up @ concat segs" and
    hosts: "fresh_sockets (concat segs) (\<lambda>_. None) \<longrightarrow> (\<forall>(u, nd) \<in> set one_shard. host_stream (owner_host (\<lambda>_. replicate 16 0) hr)
        (\<lambda>k. k) no_prefix (hostport_of nd) [(idle_flush, 1, 1000, 0, 1)] (carried (to_port (hostport_of nd)) (concat segs) (\<lambda>_. None)))"
    by (simp (no_asm_use)) blast
  have "length ints = 1" using list_all2_lengthD[OF ints] by simp
  then have none: "samples sample_lex Counter ''hits'' (ungiven ints [0]) = []" by (simp add: ungiven_def given_def samples_def)
  have "concat segs = trace t" using segs by (simp add: quiet_env_def)
  with hosts have "host_stream (owner_host (\<lambda>_. replicate 16 0) hr) (\<lambda>k. k) no_prefix ?h [(idle_flush, 1, 1000, 0, 1)]
      (take 3 ?str)"
    by (simp add: tr hostport_of_def)
  with ints acc none show ?thesis
    by (intro exI[of _ hr] exI[of _ ints] exI[of _ "cur @ ?rest"]) (simp add: accepted_def)
qed

end
