(* ===== verification/Shutdown.thy ===== *)
theory Shutdown
  imports Worker
begin

text \<open>
  What becomes of the metrics of an aggregator worker that is told to stop. \<^verbatim>\<open>~Worker\<close> of
  \<^verbatim>\<open>include/statsdcc/workers/aggregator/worker.h\<close> raises \<^verbatim>\<open>done\<close>, and \<^verbatim>\<open>process\<close> of
  \<^verbatim>\<open>src/workers/aggregator/worker.cc\<close> tests it once per iteration, before it pops. The model is
  that of \<open>Worker\<close>; here are the executions that follow \<open>stop_worker\<close>.
\<close>

section \<open>A worker that has been stopped\<close>

text \<open>The iterations a stopped worker can still make: one if it has tested \<^verbatim>\<open>done\<close> for it already.\<close>

definition iterations_left :: "'q worker \<Rightarrow> nat" where
  "iterations_left w = (if in_loop w then 1 else 0)"

lemma reach_trans:
  assumes "reach lexcast push pop st w1 subs' w2" "reach lexcast push pop st w0 subs w1"
  shows "reach lexcast push pop st w0 (subs @ subs') w2"
  using assms
proof (induction rule: reach.induct)
  case (submit subs1 w m)
  then show ?case using reach.submit[of lexcast push pop st w0 "subs @ subs1" w m] by simp
next
  case (work subs1 w start stop w')
  then show ?case using reach.work by blast
qed (auto intro: reach.intros)

lemma accepted_append: "accepted (xs @ ys) = accepted xs @ accepted ys"
  by (simp add: accepted_def)

context queue_client begin

text \<open>What a stopped worker has popped and flushed since, against the iterations it had left.\<close>

definition stopped_inv :: "'q worker \<Rightarrow> string list \<Rightarrow> 'q worker \<Rightarrow> bool" where
  "stopped_inv w acc u = (is_done u \<and> (\<exists>k extra. k + iterations_left u \<le> iterations_left w
     \<and> items (work_queue u) = drop k (items (work_queue w) @ acc)
     \<and> flushed u = flushed w @ extra \<and> length extra \<le> k \<and> k \<le> length (items (work_queue w) @ acc)))"

lemma stopped_invI:
  assumes "is_done u" "k + iterations_left u \<le> iterations_left w"
    and "items (work_queue u) = drop k (items (work_queue w) @ acc)" "k \<le> length (items (work_queue w) @ acc)"
    and "flushed u = flushed w @ extra" "length extra \<le> k"
  shows "stopped_inv w acc u"
  unfolding stopped_inv_def using assms by blast

lemma stopped_invE:
  assumes "stopped_inv w acc u"
  obtains k extra where "is_done u" "k + iterations_left u \<le> iterations_left w"
    "items (work_queue u) = drop k (items (work_queue w) @ acc)" "k \<le> length (items (work_queue w) @ acc)"
    "flushed u = flushed w @ extra" "length extra \<le> k"
  using assms unfolding stopped_inv_def by blast

lemma stopped_popped:
  assumes "stopped_inv w acc u" "in_loop u" "pop (work_queue u) = Some (m, q)"
    and "work_queue u' = q" "is_done u'" "\<not> in_loop u'" "flushed u' = flushed u @ new" "length new \<le> 1"
  shows "stopped_inv w acc u'"
proof -
  from assms(1) obtain k extra where k: "is_done u" "k + iterations_left u \<le> iterations_left w"
    "items (work_queue u) = drop k (items (work_queue w) @ acc)" "k \<le> length (items (work_queue w) @ acc)"
    "flushed u = flushed w @ extra" "length extra \<le> k" by (rule stopped_invE)
  from k(3) pop_Some[OF assms(3)] have d: "drop k (items (work_queue w) @ acc) = m # items q" by simp
  then have "items q = drop (Suc k) (items (work_queue w) @ acc)" by (metis drop_Suc list.sel(3) tl_drop)
  moreover have "Suc k \<le> length (items (work_queue w) @ acc)" using d k(4) by (metis Suc_leI drop_eq_Nil2 leI list.discI)
  ultimately show ?thesis
    by (intro stopped_invI[of _ "Suc k" _ _ "extra @ new"]) (use assms k in \<open>simp_all add: iterations_left_def\<close>)
qed

lemma stopped_reach:
  assumes "reach lexcast push pop st w subs u" "is_done w"
  shows "stopped_inv w (accepted subs) u"
  using assms
proof (induction rule: reach.induct)
  case start
  then show ?case by (intro stopped_invI[of _ 0 _ _ "[]"]) simp_all
next
  case (submit subs u m)
  from submit.IH[OF submit.prems] obtain k extra where k: "is_done u" "k + iterations_left u \<le> iterations_left w"
    "items (work_queue u) = drop k (items (work_queue w) @ accepted subs)"
    "k \<le> length (items (work_queue w) @ accepted subs)" "flushed u = flushed w @ extra" "length extra \<le> k"
    by (rule stopped_invE)
  show ?case
  proof (cases "push m (work_queue u)")
    case None
    with k show ?thesis
      by (intro stopped_invI[of _ k _ _ extra]) (simp_all add: submit_def iterations_left_def)
  next
    case (Some q)
    with k push_Some[OF Some] show ?thesis
      by (intro stopped_invI[of _ k _ _ extra]) (simp_all add: submit_def iterations_left_def)
  qed
next
  case (interrupt subs u)
  then show ?case by (simp add: stopped_inv_def interrupt_def iterations_left_def)
next
  case (stop subs u)
  then show ?case by (simp add: stopped_inv_def stop_worker_def iterations_left_def)
next
  case (work subs u start stop u')
  note inv = work.IH[OF work.prems]
  then have d: "is_done u" by (simp add: stopped_inv_def)
  from work.hyps(2) show ?case
  proof (cases rule: work_cases)
    case (idle b)
    with d have "iterations_left u' \<le> iterations_left u" by (simp add: iterations_left_def split: if_splits)
    moreover from inv obtain k extra where k: "is_done u" "k + iterations_left u \<le> iterations_left w"
      "items (work_queue u) = drop k (items (work_queue w) @ accepted subs)"
      "k \<le> length (items (work_queue w) @ accepted subs)" "flushed u = flushed w @ extra" "length extra \<le> k"
      by (rule stopped_invE)
    ultimately show ?thesis
      by (intro stopped_invI[of _ k _ _ extra]) (simp_all add: idle(1))
  next
    case (buffered m q)
    from buffer_metric_Inr[OF buffered(5)] d show ?thesis
      by (intro stopped_popped[OF inv buffered(4,2), where new = "[]"]) simp_all
  next
    case (flushing m q)
    from flush_ledger_Inr[OF flushing(5)] obtain x where
      "is_done u' = is_done u" "flushed u' = flushed u @ [x]" "work_queue u' = q" "\<not> in_loop u'" by auto
    with d show ?thesis by (intro stopped_popped[OF inv flushing(4,2), where new = "[x]"]) simp_all
  next
    case (finishing m w1)
    have "is_done u' = is_done u \<and> flushed u' = flushed u \<and> work_queue u' = work_queue u \<and> in_loop u' = in_loop u"
      using buffer_metric_Inr[OF finishing(3)] finish_flush_Inr[OF finishing(2)] by auto
    with inv show ?thesis by (simp add: stopped_inv_def iterations_left_def)
  qed
qed

end

section \<open>Properties\<close>

text \<open>
  C20. A worker that is told to stop discards what it holds. Whatever happens after \<^verbatim>\<open>done\<close> was raised,
  it pops at most one more metric and begins at most one more flush, and neither if it had not
  already tested \<^verbatim>\<open>done\<close> for the iteration under way. So of the accepted metrics the backends get
  the intervals flushed before and that one; the rest stays where it is: in the ledger, in the
  thread's hand and in the queue, with everything that is still accepted afterwards.
\<close>

theorem stopped_worker_discards:
  assumes "fifo_queue cap push pop items" "items q0 = []"
    and "reach lexcast push pop st (new_worker i q0 d r b) subs w" "is_done w"
    and "reach lexcast push pop st w subs' w'"
  shows "\<exists>sent cur. accepted (subs @ subs') = concat sent @ cur
        @ (case pending w' of None \<Rightarrow> [] | Some m \<Rightarrow> [m]) @ items (work_queue w')
    \<and> list_all2 (flush_of lexcast st (wid w')) sent (flushed w')
    \<and> current_ledger w' = buffer_all lexcast (set_name st) cur new_ledger
    \<and> (\<exists>k \<le> iterations_left w. items (work_queue w') = drop k (items (work_queue w) @ accepted subs')
        \<and> (\<exists>extra. flushed w' = flushed w @ extra \<and> length extra \<le> k))"
proof -
  note laws = fifo_queue_client[OF assms(1)]
  from queue_client.stream_inv_reach[OF laws reach_trans[OF assms(5,3)] refl assms(2)]
  obtain sent cur where s: "accepted (subs @ subs') = concat sent @ cur
        @ (case pending w' of None \<Rightarrow> [] | Some m \<Rightarrow> [m]) @ items (work_queue w')"
      "list_all2 (flush_of lexcast st (wid w')) sent (flushed w')"
      "current_ledger w' = buffer_all lexcast (set_name st) cur new_ledger"
    unfolding stream_inv_def by (elim exE conjE) (rule that; assumption)
  from queue_client.stopped_reach[OF laws assms(5,4)] obtain k extra where
    "k + iterations_left w' \<le> iterations_left w" "items (work_queue w') = drop k (items (work_queue w) @ accepted subs')"
    "flushed w' = flushed w @ extra" "length extra \<le> k"
    by (rule queue_client.stopped_invE[OF laws])
  then have "\<exists>k \<le> iterations_left w. items (work_queue w') = drop k (items (work_queue w) @ accepted subs')
        \<and> (\<exists>extra. flushed w' = flushed w @ extra \<and> length extra \<le> k)"
    by (intro exI[of _ k] conjI exI[of _ extra]) simp_all
  with s show ?thesis by blast
qed

text \<open>
  The worker tests \<^verbatim>\<open>done\<close>, two metrics are accepted and it is stopped: it pops the first, and the second stays
  in the queue.
\<close>

definition stopping_worker :: "string list worker" where
  "stopping_worker = stop_worker (submit (list_push 10000) ''hits:2|c''
     ((submit (list_push 10000) ''hits:1|c'' worker0)\<lparr>in_loop := True\<rparr>))"

lemma stopping_reached:
  "reach sample_lex (list_push 10000) list_pop settings0 worker0 [(''hits:1|c'', True), (''hits:2|c'', True)] stopping_worker"
proof -
  let ?w = "(submit (list_push 10000) ''hits:1|c'' worker0)\<lparr>in_loop := True\<rparr>"
  have "reach sample_lex (list_push 10000) list_pop settings0 worker0 [(''hits:1|c'', True)] ?w"
    by (rule reach.work[OF reach_submitted, of 0 0])
      (simp add: work_def submit_def list_push_def new_worker_def)
  from reach.stop[OF reach.submit[OF this, of "''hits:2|c''"]] show ?thesis
    by (simp add: stopping_worker_def submit_def list_push_def new_worker_def)
qed

theorem stopped_worker_discards_witness:
  "\<exists>w' cur. work sample_lex list_pop settings0 0 0 stopping_worker = Inr w'
    \<and> [''hits:1|c'', ''hits:2|c''] = cur @ work_queue w' \<and> work_queue w' = [''hits:2|c'']
    \<and> current_ledger w' = buffer_all sample_lex ''st'' cur new_ledger"
proof -
  obtain w' where w': "work sample_lex list_pop settings0 0 0 stopping_worker = Inr w'"
    "pending w' = None" "flushed w' = []" "work_queue w' = [''hits:2|c'']"
    by (simp add: stopping_worker_def work_def Let_def stop_worker_def submit_def list_push_def new_worker_def
        buffer_metric_def add_int32_def in_int32_def)
  have "is_done stopping_worker" by (simp add: stopping_worker_def stop_worker_def)
  from stopped_worker_discards[OF fifo_list_queue refl stopping_reached this reach.work[OF reach.start w'(1)]] w'
  show ?thesis by (auto simp: accepted_def)
qed

end
