(* ===== verification/Thread_Ids.thy ===== *)
theory Thread_Ids
  imports Prelude "HOL-Library.Multiset"
begin

text \<open>
  \<^verbatim>\<open>ThreadsInfoInterface\<close> of \<^verbatim>\<open>include/statsdcc/threads_info_interface.h\<close>: the vector of thread
  ids every component with threads keeps. The threads of a UDP or TCP server add theirs with
  \<^verbatim>\<open>add_tid\<close>, under the mutex; those of a worker or of the clock call \<^verbatim>\<open>ttids.push_back\<close> on
  their own (\<^verbatim>\<open>src/workers/proxy/worker.cc\<close>, \<^verbatim>\<open>src/workers/aggregator/worker.cc\<close>,
  \<^verbatim>\<open>include/statsdcc/clock.h\<close>); the status server copies the vector with \<^verbatim>\<open>get_tids\<close>.
\<close>

section \<open>State and steps\<close>

text \<open>
  \<^verbatim>\<open>push_back\<close> and the copy of a vector are not atomic: each is a step that begins it and one
  that ends it. \<open>ti_raced\<close> records that two of them, at least one a \<^verbatim>\<open>push_back\<close>, were under way
  at once, which C++ leaves undefined.
\<close>

datatype tid_phase = Starting | Pushing | Added

record tids_state =
  ttids :: "int list"
  tmut :: "nat option"
  ti_phase :: "tid_phase list"
  ti_copying :: bool
  ti_raced :: bool

definition new_tids :: "nat \<Rightarrow> tids_state" where
  "new_tids n = \<lparr>ttids = [], tmut = None, ti_phase = replicate n Starting, ti_copying = False, ti_raced = False\<rparr>"

definition push_begin :: "nat \<Rightarrow> tids_state \<Rightarrow> tids_state" where
  "push_begin i s = s\<lparr>ti_raced := (ti_raced s \<or> ti_copying s \<or> Pushing \<in> set (ti_phase s)),
     ti_phase := (ti_phase s)[i := Pushing]\<rparr>"

definition push_end :: "nat \<Rightarrow> int \<Rightarrow> tids_state \<Rightarrow> tids_state" where
  "push_end i tid s = s\<lparr>ttids := ttids s @ [tid], ti_phase := (ti_phase s)[i := Added]\<rparr>"

text \<open>\<^verbatim>\<open>add_tid\<close>: the \<^verbatim>\<open>lock_guard\<close> waits until the mutex is free and gives it back at the end.\<close>

definition add_tid_begin :: "nat \<Rightarrow> tids_state \<Rightarrow> tids_state option" where
  "add_tid_begin i s =
     (case tmut s of None \<Rightarrow> Some (push_begin i (s\<lparr>tmut := Some i\<rparr>)) | Some _ \<Rightarrow> None)"

definition add_tid_end :: "nat \<Rightarrow> int \<Rightarrow> tids_state \<Rightarrow> tids_state" where
  "add_tid_end i tid s = (push_end i tid s)\<lparr>tmut := None\<rparr>"

text \<open>\<^verbatim>\<open>get_tids\<close>: a copy, without the mutex.\<close>

definition get_tids_begin :: "tids_state \<Rightarrow> tids_state" where
  "get_tids_begin s = s\<lparr>ti_raced := (ti_raced s \<or> Pushing \<in> set (ti_phase s)), ti_copying := True\<rparr>"

definition get_tids_end :: "tids_state \<Rightarrow> int list \<times> tids_state" where
  "get_tids_end s = (ttids s, s\<lparr>ti_copying := False\<rparr>)"

text \<open>
  The executions of threads with the ids \<open>ids\<close>, which add them with or without the mutex, and
  of a status server if there is one.
\<close>

inductive tids_reach :: "bool \<Rightarrow> bool \<Rightarrow> int list \<Rightarrow> tids_state \<Rightarrow> bool"
  for locked asked :: bool and ids :: "int list"
where
  start: "tids_reach locked asked ids (new_tids (length ids))"
| lock: "tids_reach locked asked ids s \<Longrightarrow> locked \<Longrightarrow> i < length ids \<Longrightarrow> ti_phase s ! i = Starting \<Longrightarrow>
    add_tid_begin i s = Some s' \<Longrightarrow> tids_reach locked asked ids s'"
| unlock: "tids_reach locked asked ids s \<Longrightarrow> locked \<Longrightarrow> i < length ids \<Longrightarrow> ti_phase s ! i = Pushing \<Longrightarrow>
    tids_reach locked asked ids (add_tid_end i (ids ! i) s)"
| push: "tids_reach locked asked ids s \<Longrightarrow> \<not> locked \<Longrightarrow> i < length ids \<Longrightarrow> ti_phase s ! i = Starting \<Longrightarrow>
    tids_reach locked asked ids (push_begin i s)"
| pushed: "tids_reach locked asked ids s \<Longrightarrow> \<not> locked \<Longrightarrow> i < length ids \<Longrightarrow> ti_phase s ! i = Pushing \<Longrightarrow>
    tids_reach locked asked ids (push_end i (ids ! i) s)"
| ask: "tids_reach locked asked ids s \<Longrightarrow> asked \<Longrightarrow> \<not> ti_copying s \<Longrightarrow>
    tids_reach locked asked ids (get_tids_begin s)"
| answer: "tids_reach locked asked ids s \<Longrightarrow> asked \<Longrightarrow> ti_copying s \<Longrightarrow>
    tids_reach locked asked ids (snd (get_tids_end s))"

lemmas tids_ops = new_tids_def push_begin_def push_end_def add_tid_begin_def add_tid_end_def
  get_tids_begin_def get_tids_end_def

section \<open>What holds in every execution\<close>

definition added :: "int list \<Rightarrow> tid_phase list \<Rightarrow> int multiset" where
  "added ids ph = mset (map fst (filter (\<lambda>p. snd p = Added) (zip ids ph)))"

lemma added_start: "added ids (replicate n Starting) = {#}"
  by (auto simp: added_def filter_empty_conv dest: set_zip_rightD)

lemma added_update:
  assumes "i < length ph" "length ids = length ph" "ph ! i \<noteq> Added"
  shows "added ids (ph[i := c]) = added ids ph + (if c = Added then {#ids ! i#} else {#})"
  using assms
proof (induction ph arbitrary: ids i)
  case (Cons p ph)
  then obtain d ds where ids: "ids = d # ds" by (cases ids) auto
  show ?case
  proof (cases i)
    case 0
    with Cons.prems ids show ?thesis by (simp add: added_def)
  next
    case (Suc j)
    with Cons.IH[of j ds] Cons.prems ids show ?thesis by (cases "c = Added") (simp_all add: added_def)
  qed
qed simp

definition tids_inv :: "bool \<Rightarrow> bool \<Rightarrow> int list \<Rightarrow> tids_state \<Rightarrow> bool" where
  "tids_inv locked asked ids s =
     (length (ti_phase s) = length ids \<and> mset (ttids s) = added ids (ti_phase s)
      \<and> (locked \<longrightarrow> (\<forall>j < length ids. ti_phase s ! j = Pushing \<longleftrightarrow> tmut s = Some j))
      \<and> (ti_copying s \<longrightarrow> asked)
      \<and> (ti_raced s \<longrightarrow> asked \<and> ids \<noteq> [] \<or> \<not> locked \<and> 2 \<le> length ids))"

lemma pushing_two:
  assumes "Pushing \<in> set ph" "ph ! i = Starting" "i < length ph"
  shows "2 \<le> length ph"
proof -
  from assms(1) obtain j where "j < length ph" "ph ! j = Pushing" by (auto simp: in_set_conv_nth)
  with assms show ?thesis by (cases "i = j") auto
qed

lemma tids_inv_reach:
  assumes "tids_reach locked asked ids s"
  shows "tids_inv locked asked ids s"
  using assms
proof (induction rule: tids_reach.induct)
  case start
  then show ?case by (simp add: tids_inv_def tids_ops added_start)
next
  case (lock s i s')
  then have "tmut s = None" and s': "s' = push_begin i (s\<lparr>tmut := Some i\<rparr>)"
    by (auto simp: add_tid_begin_def split: option.splits)
  with lock have "Pushing \<notin> set (ti_phase s)" by (auto simp: tids_inv_def in_set_conv_nth)
  with lock.IH lock.hyps \<open>tmut s = None\<close> show ?case
    by (auto simp: tids_inv_def s' push_begin_def added_update nth_list_update)
next
  case (unlock s i)
  then show ?case
    by (auto simp: tids_inv_def tids_ops added_update nth_list_update)
next
  case (push s i)
  then have "Pushing \<in> set (ti_phase s) \<Longrightarrow> 2 \<le> length ids"
    using pushing_two[of "ti_phase s" i] by (simp add: tids_inv_def)
  with push show ?case by (auto simp: tids_inv_def tids_ops added_update)
next
  case (pushed s i)
  then show ?case by (auto simp: tids_inv_def tids_ops added_update)
next
  case (ask s)
  then show ?case by (auto simp: tids_inv_def tids_ops)
next
  case (answer s)
  then show ?case by (auto simp: tids_inv_def tids_ops)
qed

section \<open>Executions that race\<close>

lemma two_pushes_race:
  assumes "2 \<le> length ids"
  shows "\<exists>s. tids_reach False asked ids s \<and> ti_raced s"
proof -
  from assms have l: "0 < length ids" "1 < length ids" "ids \<noteq> []" by auto
  have "tids_reach False asked ids (push_begin 0 (new_tids (length ids)))"
    by (rule tids_reach.push[OF tids_reach.start]) (use l in \<open>simp_all add: new_tids_def\<close>)
  then have "tids_reach False asked ids (push_begin 1 (push_begin 0 (new_tids (length ids))))"
    by (rule tids_reach.push) (use l in \<open>simp_all add: new_tids_def push_begin_def\<close>)
  moreover have "Pushing \<in> set ((replicate (length ids) Starting)[0 := Pushing])"
    using l by (auto intro: set_update_memI)
  then have "ti_raced (push_begin 1 (push_begin 0 (new_tids (length ids))))"
    by (simp add: push_begin_def new_tids_def)
  ultimately show ?thesis by blast
qed

lemma copy_races:
  assumes "ids \<noteq> []"
  shows "\<exists>s. tids_reach locked True ids s \<and> ti_raced s"
proof -
  let ?s = "get_tids_begin (new_tids (length ids))"
  have s: "tids_reach locked True ids ?s"
    by (rule tids_reach.ask[OF tids_reach.start]) (simp_all add: new_tids_def)
  have l: "0 < length ids" "ti_phase ?s ! 0 = Starting" using assms by (simp_all add: tids_ops)
  show ?thesis
  proof (cases locked)
    case True
    have "add_tid_begin 0 ?s = Some (push_begin 0 (?s\<lparr>tmut := Some 0\<rparr>))"
      by (simp add: add_tid_begin_def get_tids_begin_def new_tids_def)
    from tids_reach.lock[OF s True l this] show ?thesis by (auto simp: tids_ops)
  next
    case False
    from tids_reach.push[OF s False l] show ?thesis by (auto simp: tids_ops)
  qed
qed

section \<open>Properties\<close>

text \<open>
  C26. When the vector of thread ids is accessed without a race: an execution in which two
  accesses overlap exists exactly when the status server asks for the ids while there is a
  thread, whatever the threads do, or when two threads push without the mutex, as those of the
  proxy's worker do. With \<^verbatim>\<open>add_tid\<close> and no status server there is none.
\<close>

theorem tids_race_iff:
  "(\<exists>s. tids_reach locked asked ids s \<and> ti_raced s) = (asked \<and> ids \<noteq> [] \<or> \<not> locked \<and> 2 \<le> length ids)"
proof
  assume "\<exists>s. tids_reach locked asked ids s \<and> ti_raced s"
  then show "asked \<and> ids \<noteq> [] \<or> \<not> locked \<and> 2 \<le> length ids"
    using tids_inv_reach by (auto simp: tids_inv_def)
next
  assume "asked \<and> ids \<noteq> [] \<or> \<not> locked \<and> 2 \<le> length ids"
  then show "\<exists>s. tids_reach locked asked ids s \<and> ti_raced s"
    using copy_races two_pushes_race by (cases asked; cases locked) auto
qed

text \<open>
  The vector holds the ids of the threads that have added theirs, each once, and \<^verbatim>\<open>get_tids\<close>
  returns it.
\<close>

theorem tids_complete:
  assumes "tids_reach locked asked ids s"
  shows "mset (fst (get_tids_end s)) = added ids (ti_phase s)"
  using tids_inv_reach[OF assms] by (simp add: tids_inv_def get_tids_end_def)

end
