(* ===== verification/Spec2Isabelle.thy ===== *)
theory Spec2Isabelle
  imports Cluster Clock Teardown Factories Copies Config_Roundtrip Status Hostport Logger
    Wire Shutdown Thread_Ids
begin

text \<open>
  \<^bold>\<open>statsdcc\<close> is a metrics aggregator and a metrics proxy that speak the statsd line protocol.
  This library models both programs and proves what makes them correct.

  \<^bold>\<open>How the parts interact.\<close> Clients send lines \<^verbatim>\<open>name:value|type|@rate\<close> to the UDP server
  (\<open>Servers\<close>). In the aggregator the consumer hashes the name and hands the line to one of the
  workers (\<open>Routing\<close>), each of which has a bounded lock-free queue and its own thread
  (\<open>Worker\<close>). The worker parses the line into its ledger (\<open>Ledger\<close>); a clock interrupts all
  workers every \<open>frequency\<close> seconds, and the worker then computes the aggregates of its ledger
  (\<open>process\<close>) and hands a copy to the backends (\<open>Backends\<close>), which print it, repeat it to other
  statsd daemons, or send it to the carbon shards a consistent hash ring assigns (\<open>Hashring\<close>)
  over connections that are re-established when they break (\<open>Net\<close>). In the proxy the consumer
  puts the line into the one queue of a worker whose threads drop blacklisted lines and send
  the others to the aggregator of their name (\<open>Proxy\<close>). A configuration file (\<open>Config\<close>) says what
  is started (\<open>Startup\<close>), and an HTTP server shows the state of the process (\<open>Status\<close>).

  The first properties are about running programs as a whole: an aggregator down to the bytes it
  sends (\<open>Wire\<close>), a proxy in front of an aggregator (\<open>Cluster\<close>), the aggregator (\<open>System\<close>) and the
  proxy (\<open>Proxy_System\<close>), whose threads interleave; nothing is lost or counted twice between a
  datagram and the backends except what the property names. The others are about the components.

  \<^bold>\<open>Theories and sources\<close> (paths below \<^verbatim>\<open>src/\<close>):

  \<^item> \<open>Prelude\<close>: faults and results, unordered maps as association lists, comparison sorting.
    The locale \<open>table\<close> is interpreted on these maps, \<open>mono_cmp\<close> on the order of the ring elements,
    \<open>strict_cmp\<close> on the doubles of a timer.
  \<^item> \<open>Binary64\<close>, \<open>Cstdio\<close>: doubles with rounding to nearest even; the conversions of the one
    \<^verbatim>\<open>sscanf\<close> format, \<^verbatim>\<open>to_string\<close>, \<^verbatim>\<open>%g\<close>, \<^verbatim>\<open>getline\<close>.
  \<^item> \<open>Ledger\<close>, \<open>Ledger_Buffer\<close>, \<open>Ledger_Process\<close>: \<^verbatim>\<open>include/statsdcc/ledger.h\<close> and
    \<^verbatim>\<open>src/ledger.cc\<close>. The record \<open>ledger\<close> has the maps of the class; \<open>buffer\<close> is one line,
    \<open>process\<close> one interval. The lemmas give every table as a function of the history of lines
    alone, the accounting of good and bad lines, the exactness of counters up to \<open>2\<^sup>5\<^sup>3\<close>, and
    every figure \<open>process\<close> writes for a timer.
  \<^item> \<open>Worker\<close>: \<^verbatim>\<open>include/statsdcc/workers/aggregator/worker.h\<close> and
    \<^verbatim>\<open>src/workers/aggregator/worker.cc\<close>, as a step relation in which submissions, interrupts,
    \<^verbatim>\<open>done\<close> and the steps of the worker's loop interleave: the test of \<^verbatim>\<open>done\<close>, an iteration up to the
    start of its flush, and the rest of an iteration that flushed. No accepted metric is lost or counted twice,
    drops are counted, no step faults unless a client sent a NaN for a timer (\<open>timers_clean\<close>), the queue drains.
  \<^item> \<open>Routing\<close>: \<^verbatim>\<open>lib/consumers/aggregator_consumer.cc\<close>. Workers that share the names among
    them hold what a single ledger would.
  \<^item> \<open>Clock\<close>: \<^verbatim>\<open>include/statsdcc/clock.h\<close>, the clock thread and its destructor as a step
    relation. It rings in whole rounds and can always end; its notification can be lost.
  \<^item> \<open>Flushing\<close>: the threads of \<^verbatim>\<open>worker.cc\<close>, \<^verbatim>\<open>include/statsdcc/thread_guard.h\<close> and the mutex of
    \<^verbatim>\<open>include/statsdcc/backend_container.h\<close>, as a step relation over any number of workers.
    Flushes are whole, bounded in number and can always finish; two of one worker can swap.
  \<^item> \<open>System\<close>: \<^verbatim>\<open>src/aggregator.cc\<close> after its start, as a step relation that composes \<open>Servers\<close>,
    \<open>Routing\<close>, \<open>Worker\<close> and \<open>Flushing\<close>.
  \<^item> \<open>Teardown\<close>: the destructors of both workers and of the clock while their threads run, by
    the order in which the members are declared. The locale \<open>timely_guard\<close> is the contract of a
    safe one; it is interpreted on the proxy's worker and on the clock, and the worker of the
    aggregator, whose guard comes too early, is shown to break it.
  \<^item> \<open>Hashring\<close>, \<open>Hostport\<close>: \<^verbatim>\<open>include/statsdcc/hashring/\<close>, \<^verbatim>\<open>lib/hashring/hashring.cc\<close>,
    \<^verbatim>\<open>include/statsdcc/hostport.h\<close>. The ring is a sorted permutation of the points of the
    shards, the binary search finds the successor, removing a shard moves only its own keys.
  \<^item> \<open>Copies\<close>: the constructors, assignments and destructors of hosts, nodes, ring elements,
    rings, ledgers and connections, and the delivery of \<^verbatim>\<open>lib/backends/carbon.cc\<close> with the
    temporary connections it moves from.
  \<^item> \<open>Delivery\<close>: any number of flushes of \<^verbatim>\<open>lib/backends/carbon.cc\<close> over the ring and the
    connections of \<open>Net\<close>. The stream of bytes each carbon host receives is read off the system
    calls: by which socket was connected where, and what was written to it. It is, flush by
    flush, the text of the host's own metrics, torn attempts included, and exactly that text for a flush in which no
    call failed.
  \<^item> \<open>Wire\<close>: \<open>System\<close> and \<open>Delivery\<close> together, from the datagrams an aggregator receives to the
    bytes its carbon hosts read; every ledger the workers hand over is one carbon can flush.
  \<^item> \<open>Shutdown\<close>: the executions of \<open>Worker\<close> after \<^verbatim>\<open>~Worker\<close> has raised \<^verbatim>\<open>done\<close>: at most one more iteration,
    when the flag had been tested already; everything else is discarded.
  \<^item> \<open>Thread_Ids\<close>: \<^verbatim>\<open>include/statsdcc/threads_info_interface.h\<close>, the pushes of the threads and
    the copy of the status server as a step relation; exactly when two of them overlap.
  \<^item> \<open>Logger\<close>: \<^verbatim>\<open>include/statsdcc/logger.h\<close>, \<^verbatim>\<open>lib/logger.cc\<close>, \<^verbatim>\<open>include/statsdcc/chrono.h\<close>. Which
    messages are emitted, with which text; the text of a time determines it.
  \<^item> \<open>Config\<close>, \<open>Config_Roundtrip\<close>: \<^verbatim>\<open>src/configs/\<close> and \<^verbatim>\<open>include/statsdcc/configs/\<close>; what of a
    configuration survives \<^verbatim>\<open>to_json\<close> and the constructor, given what JsonCpp documents (\<open>reads_document\<close>).
  \<^item> \<open>Syscalls\<close>: \<^verbatim>\<open>include/statsdcc/net/wrapper.h\<close>, \<^verbatim>\<open>net/sock_stream_io.h\<close>, \<^verbatim>\<open>os.h\<close>. \<open>Net\<close>:
    \<^verbatim>\<open>lib/net/lib.cc\<close>, \<^verbatim>\<open>include/statsdcc/net/connection.h\<close>, the delivery loops of
    \<^verbatim>\<open>lib/backends/carbon.cc\<close> and \<^verbatim>\<open>repeater.cc\<close>. The lemmas follow the bytes that reach a
    connection and the descriptors that are opened and closed.
  \<^item> \<open>Backends\<close>: \<^verbatim>\<open>lib/backends/\<close>, \<^verbatim>\<open>include/statsdcc/backends/\<close>,
    \<^verbatim>\<open>include/statsdcc/backend_container.h\<close>.
  \<^item> \<open>Proxy\<close>: \<^verbatim>\<open>src/workers/proxy/worker.cc\<close>, \<^verbatim>\<open>include/statsdcc/workers/proxy/worker.h\<close>,
    \<^verbatim>\<open>include/statsdcc/consumers/proxy_consumer.h\<close>; a step relation over any number of threads.
  \<^item> \<open>Proxy_System\<close>: \<^verbatim>\<open>src/proxy.cc\<close> after its start, which composes \<open>Servers\<close> and \<open>Proxy\<close>.
    \<open>Cluster\<close>: a proxy and an aggregator behind it, over a network that may lose and reorder.
  \<^item> \<open>Servers\<close>: \<^verbatim>\<open>lib/net/servers/socket/\<close>. Every line of a received datagram reaches its worker;
    two faults of the TCP server.
  \<^item> \<open>Server_Threads\<close>: \<^verbatim>\<open>include/statsdcc/net/servers/socket/server.h\<close> and the constructors: threads
    are started and joined, descriptors opened and closed.
  \<^item> \<open>Factories\<close>: \<^verbatim>\<open>include/statsdcc/server_factory.h\<close>, the constructors of the HTTP servers in
    \<^verbatim>\<open>include/statsdcc/net/servers/http/\<close>, and the blocks of both \<^verbatim>\<open>main\<close> functions that start the
    servers; they refine what \<open>Startup\<close> says with the answers of the system as an argument.
  \<^item> \<open>Status\<close>: \<^verbatim>\<open>lib/status.cc\<close>, \<^verbatim>\<open>lib/net/servers/http/\<close>.
  \<^item> \<open>Startup\<close>: \<^verbatim>\<open>src/aggregator.cc\<close>, \<^verbatim>\<open>src/proxy.cc\<close> and their headers. A run is the list of the actions of
    the main thread; the global pointers and vectors (\<open>globals\<close>) follow from it, and \<open>stop\<close>, called by \<^verbatim>\<open>main\<close> or by
    the signal handler, resets what they hold. Every way a run can come up, fail and be stopped.

  \<^bold>\<open>Conventions.\<close> Undefined behaviour and exceptions are values \<open>Inl fault\<close>. Unordered maps are
  association lists in the order in which the map is iterated, and a theorem about all lists is one about every order; the
  hash ring depends on it, and on how \<^verbatim>\<open>std::stable_sort\<close> treats ties, only where two points have the same hash
  (\<open>ring_order_free\<close>). \<^verbatim>\<open>double\<close> is a type of its own with
  infinities, signed zeros and NaN; hashes and clocks are words; the \<^verbatim>\<open>int\<close>s of the hash ring are
  checked for overflow. Counters of the ledger that the code keeps in 64 bits are unbounded. A NaN has no sign, so it is
  printed as \<^verbatim>\<open>nan\<close>, also where glibc prints \<^verbatim>\<open>-nan\<close>.

  \<^bold>\<open>The operating system\<close> is, for every system call, a finite list of the answers still to come.
  A run that needs an answer that is not there is \<open>Waiting\<close>, that is, inside that call; so a
  theorem about all such lists is one about every moment of every run. The loops over answers
  consume one in every iteration, which is the measure they are total by (\<open>io_fuel\<close>); the binary
  search of the ring decreases the length of the interval, or reaches the bound on its double.

  \<^bold>\<open>Parameters\<close> stand for code that is not in the repository: MD4 (\<open>md4\<close>), \<^verbatim>\<open>std::hash\<close>
  (\<open>hash\<close>), libmicrohttpd (\<open>mhd\<close>, which acts on the environment), \<^verbatim>\<open>boost::lexical_cast\<close> (\<open>lexcast\<close>), \<^verbatim>\<open>boost::regex\<close> (\<open>matches\<close>, the replacement in a
  carbon name), \<^verbatim>\<open>boost::lockfree::queue\<close> (\<open>push\<close>, \<open>pop\<close>, with the contract of a bounded queue),
  JsonCpp (\<open>json_api\<close>), the clock, the files below \<^verbatim>\<open>/proc\<close>, uninitialised memory (the
  first values of some counters, the byte the TCP server stores behind its data).

  \<^bold>\<open>Threads.\<close> In the step relations (\<open>Worker\<close>, \<open>Proxy\<close>, \<open>Clock\<close>, \<open>Flushing\<close>, \<open>Teardown\<close> and the
  systems) a step is one operation on shared state, or several between which no other thread can make a difference,
  and every interleaving is an execution; a theorem about the reachable states is one about every schedule. That a step can be taken does
  not mean that a scheduler takes it: liveness is stated as a state that can be reached.

  \<^bold>\<open>Not modelled\<close>: the text of the usage message; the inside of the HTTP daemon, whose start is
  a parameter and whose requests are those of \<open>Status\<close>; \<^verbatim>\<open>gettid\<close>, \<^verbatim>\<open>localtime\<close> and the readings of
  the system clock, which are arguments; the sleeps of the loops and the length of the clock's
  interval; the memory of a datagram's lines, apart from an allocation that fails. An empty
  object stands for a JSON null too.
\<close>

end
